(* ===== verification/Prelude.thy ===== *)
theory Prelude
  imports Main "HOL-Library.Word" "HOL-Library.Sublist"
begin

text \<open>
  Shared vocabulary of the development.

  The node is written in Rust.  Every fallible operation of the model returns an
  \<open>outcome\<close>: \<open>Ok\<close> and \<open>Err\<close> are the two variants of \<open>Result\<close>, and \<open>Panic\<close> is the
  abrupt end of the thread by a failed \<open>assert!\<close>, \<open>unwrap\<close>, \<open>expect\<close> or an
  out-of-range slice.  An operation with a \<open>&mut\<close> receiver returns its outcome
  together with the state it leaves behind, because Rust keeps what was mutated
  before an early return.  \<open>bind_outcome\<close> and \<open>and_then\<close> are the \<open>?\<close> operator of the
  two kinds of operation.

  Machine integers are words; the signed ones are read with \<open>sint\<close>.  The release profile of the workspace
  leaves overflow checks off, so \<open>+\<close> and \<open>-\<close> wrap as they do on words.
\<close>

section \<open>Machine types\<close>

type_synonym byte = "8 word"
type_synonym u64 = "64 word"
type_synonym u128 = "128 word"
type_synonym U256 = "256 word"
type_synonym i32 = "32 word"
type_synonym i64 = "64 word"

section \<open>Results, errors and panics\<close>

datatype ('e, 'a) outcome = Ok 'a | Err 'e | Panic

type_synonym ('s, 'e, 'a) action = "('e, 'a) outcome \<times> 's"

named_theorems outcome_simps \<open>evaluation of the combinators on outcomes\<close>

fun bind_outcome :: "('e, 'a) outcome \<Rightarrow> ('a \<Rightarrow> ('e, 'b) outcome) \<Rightarrow> ('e, 'b) outcome" where
  "bind_outcome (Ok a) f = f a"
| "bind_outcome (Err e) f = Err e"
| "bind_outcome Panic f = Panic"

fun map_err :: "('e \<Rightarrow> 'f) \<Rightarrow> ('e, 'a) outcome \<Rightarrow> ('f, 'a) outcome" where
  "map_err f (Ok a) = Ok a"
| "map_err f (Err e) = Err (f e)"
| "map_err f Panic = Panic"

fun map_ok :: "('a \<Rightarrow> 'b) \<Rightarrow> ('e, 'a) outcome \<Rightarrow> ('e, 'b) outcome" where
  "map_ok f (Ok a) = Ok (f a)"
| "map_ok f (Err e) = Err e"
| "map_ok f Panic = Panic"

definition ensure :: "bool \<Rightarrow> 'e \<Rightarrow> ('e, unit) outcome" where
  "ensure b e = (if b then Ok () else Err e)"

definition assert_that :: "bool \<Rightarrow> ('e, unit) outcome" where
  "assert_that b = (if b then Ok () else Panic)"

fun ok_or :: "'e \<Rightarrow> 'a option \<Rightarrow> ('e, 'a) outcome" where
  "ok_or e None = Err e"
| "ok_or e (Some a) = Ok a"

fun unwrap :: "'a option \<Rightarrow> ('e, 'a) outcome" where
  "unwrap None = Panic"
| "unwrap (Some a) = Ok a"

fun from_result :: "('e \<Rightarrow> 'f) \<Rightarrow> 'e + 'a \<Rightarrow> ('f, 'a) outcome" where
  "from_result f (Inl e) = Err (f e)"
| "from_result f (Inr a) = Ok a"

fun and_then :: "('s, 'e, 'a) action \<Rightarrow> ('a \<Rightarrow> 's \<Rightarrow> ('s, 'e, 'b) action) \<Rightarrow> ('s, 'e, 'b) action" where
  "and_then (Ok a, s) f = f a s"
| "and_then (Err e, s) f = (Err e, s)"
| "and_then (Panic, s) f = (Panic, s)"

fun try_all :: "('a \<Rightarrow> ('e, 'b) outcome) \<Rightarrow> 'a list \<Rightarrow> ('e, 'b list) outcome" where
  "try_all f [] = Ok []"
| "try_all f (x # xs) =
     bind_outcome (f x) (\<lambda>y. bind_outcome (try_all f xs) (\<lambda>ys. Ok (y # ys)))"

fun is_ok :: "('e, 'a) outcome \<Rightarrow> bool" where
  "is_ok (Ok a) = True"
| "is_ok (Err e) = False"
| "is_ok Panic = False"

lemma ensure_Ok [simp]: "ensure b e = Ok () \<longleftrightarrow> b"
  by (simp add: ensure_def)

lemma ensure_True [simp]: "ensure True e = Ok ()"
  by (simp add: ensure_def)

lemma ensure_False [simp]: "ensure False e = Err e"
  by (simp add: ensure_def)

lemma assert_that_True [simp]: "assert_that True = Ok ()"
  by (simp add: assert_that_def)

lemma assert_that_False [simp]: "assert_that False = Panic"
  by (simp add: assert_that_def)

lemma assert_that_Ok [simp]: "assert_that b = Ok u \<longleftrightarrow> b"
  by (simp add: assert_that_def)

lemma bind_outcome_Ok_iff:
  "bind_outcome m f = Ok b \<longleftrightarrow> (\<exists>a. m = Ok a \<and> f a = Ok b)"
  by (cases m) auto

lemma bind_outcome_cong [fundef_cong]:
  "\<lbrakk>m = m'; \<And>a. m' = Ok a \<Longrightarrow> f a = f' a\<rbrakk> \<Longrightarrow> bind_outcome m f = bind_outcome m' f'"
  by (cases m') auto

lemma and_then_cong [fundef_cong]:
  "\<lbrakk>m = m'; \<And>a s. m' = (Ok a, s) \<Longrightarrow> f a s = f' a s\<rbrakk> \<Longrightarrow> and_then m f = and_then m' f'"
  by (cases "(m', f')" rule: and_then.cases) auto

lemma and_then_Ok_iff:
  "and_then m f = (Ok b, s') \<longleftrightarrow> (\<exists>a s. m = (Ok a, s) \<and> f a s = (Ok b, s'))"
  by (cases "(m, f)" rule: and_then.cases) auto

lemma and_then_assoc: "and_then (and_then m f) g = and_then m (\<lambda>a s. and_then (f a s) g)"
  by (cases "(m, f)" rule: and_then.cases) auto

lemma and_then_return [simp]: "and_then m (\<lambda>a s. (Ok a, s)) = m"
proof (cases m)
  case (Pair r s)
  then show ?thesis by (cases r) auto
qed

lemma try_all_Ok_iff:
  "try_all f xs = Ok ys \<longleftrightarrow> list_all2 (\<lambda>x y. f x = Ok y) xs ys"
  by (induction xs arbitrary: ys)
    (auto simp: bind_outcome_Ok_iff list_all2_Cons1)

lemma map_err_Ok [simp]: "map_err f m = Ok a \<longleftrightarrow> m = Ok a"
  by (cases m) auto

lemma map_err_Err: "map_err f m = Err e \<longleftrightarrow> (\<exists>e'. m = Err e' \<and> e = f e')"
  by (cases m) auto

lemma map_ok_Ok [simp]: "map_ok f m = Ok b \<longleftrightarrow> (\<exists>a. m = Ok a \<and> b = f a)"
  by (cases m) auto

lemma is_ok_iff: "is_ok m \<longleftrightarrow> (\<exists>a. m = Ok a)"
  by (cases m) auto

lemma and_then_keeps: "\<lbrakk>Q (snd m); \<And>a s. Q s \<Longrightarrow> Q (snd (f a s))\<rbrakk> \<Longrightarrow> Q (snd (and_then m f))"
  by (cases "(m, f)" rule: and_then.cases) auto

lemma and_then_pure:
  "and_then (m, s) f = (case m of Ok a \<Rightarrow> f a s | Err e \<Rightarrow> (Err e, s) | Panic \<Rightarrow> (Panic, s))"
  by (cases m) auto

lemma bind_outcome_Panic_iff: "bind_outcome m f = Panic \<longleftrightarrow> m = Panic \<or> (\<exists>a. m = Ok a \<and> f a = Panic)"
  by (cases m) auto

lemma ok_or_not_Panic [simp]: "ok_or e opt \<noteq> Panic"
  by (cases opt) auto

lemma ensure_not_Panic [simp]: "ensure b e \<noteq> Panic"
  by (simp add: ensure_def)

section \<open>Lists\<close>

text \<open>Indexing that reports an index out of range, as \<open>slice::get\<close> does.\<close>

fun get_at :: "'a list \<Rightarrow> nat \<Rightarrow> 'a option" where
  "get_at [] i = None"
| "get_at (x # xs) 0 = Some x"
| "get_at (x # xs) (Suc i) = get_at xs i"

lemma get_at_eq: "get_at xs i = (if i < length xs then Some (xs ! i) else None)"
  by (induction xs i rule: get_at.induct) auto

lemma get_at_Some_drop: "get_at xs n = Some x \<Longrightarrow> take 1 (drop n xs) = [x] \<and> drop n xs \<noteq> []"
  by (auto simp: get_at_eq take_Suc_conv_app_nth Cons_nth_drop_Suc [symmetric] split: if_splits)

lemma get_at_None_drop: "get_at xs n = None \<Longrightarrow> drop n xs = []"
  by (simp add: get_at_eq split: if_splits)

lemma list_all2_last:
  "\<lbrakk>list_all2 P xs ys; xs \<noteq> []\<rbrakk> \<Longrightarrow> P (last xs) (last ys)"
  by (induction xs ys rule: list_all2_induct) (auto split: if_splits)

section \<open>Words\<close>

lemma unat_of_nat_small:
  "n < 2 ^ LENGTH('a::len) \<Longrightarrow> unat (of_nat n :: 'a word) = n"
  by (simp add: unat_of_nat take_bit_nat_eq_self)

lemma of_nat_eq_small:
  "\<lbrakk>m < 2 ^ LENGTH('a::len); n < 2 ^ LENGTH('a)\<rbrakk> \<Longrightarrow> (of_nat m :: 'a word) = of_nat n \<longleftrightarrow> m = n"
  by (simp add: word_of_nat_eq_iff take_bit_nat_eq_self)

end
