(* ===== verification/Rollups_Events.thy ===== *)
theory Rollups_Events
  imports Prelude "HOL-Library.Countable"
begin

text \<open>
  The event types of the crate \<open>rollups-events\<close>: the payloads of the three broker
  streams, the keys of the streams and the hexadecimal array that carries
  addresses and hashes.  The crates \<open>hex\<close> and \<open>serde_json\<close> are parameters: every
  definition that encodes or decodes takes the functions it calls.
\<close>

section \<open>Binary data (common.rs)\<close>

type_synonym Hash = "byte list"
type_synonym Address = "byte list"
type_synonym Payload = "byte list"

definition ADDRESS_SIZE :: nat where
  "ADDRESS_SIZE = 20"

definition HASH_SIZE :: nat where
  "HASH_SIZE = 32"

datatype HexArrayError = FailToDecodeHex string | IncorrectArraySize

definition hex_array_serialize :: "(byte list \<Rightarrow> string) \<Rightarrow> byte list \<Rightarrow> string" where
  "hex_array_serialize hex_encode data = hex_encode data"

text \<open>
  \<open>string_data[..2]\<close> needs two bytes and a character boundary behind them; a byte
  from \<open>0x80\<close> to \<open>0xBF\<close> continues a UTF-8 sequence.
\<close>

definition char_boundary :: "string \<Rightarrow> nat \<Rightarrow> bool" where
  "char_boundary s i \<longleftrightarrow>
     i \<le> length s \<and> (i = length s \<or> \<not> (128 \<le> (of_char (s ! i) :: nat) \<and> (of_char (s ! i) :: nat) < 192))"

definition hex_array_deserialize ::
  "(string \<Rightarrow> string + byte list) \<Rightarrow> nat \<Rightarrow> string \<Rightarrow> (HexArrayError, byte list) outcome" where
  "hex_array_deserialize hex_decode n string_data =
     bind_outcome (assert_that (char_boundary string_data 2)) (\<lambda>_.
       let string_data = (if take 2 string_data = ''0x'' then drop 2 string_data else string_data) in
       bind_outcome (from_result FailToDecodeHex (hex_decode string_data)) (\<lambda>vec_data.
         if length vec_data = n then Ok vec_data else Err IncorrectArraySize))"

section \<open>Inputs (rollups_inputs.rs)\<close>

record InputMetadata =
  msg_sender :: Address
  im_block_number :: u64
  im_timestamp :: u64
  im_epoch_index :: u64
  im_input_index :: u64

record RollupsAdvanceStateInput =
  adv_metadata :: InputMetadata
  adv_payload :: Payload
  adv_tx_hash :: Hash

datatype RollupsData =
    AdvanceStateInput RollupsAdvanceStateInput
  | FinishEpoch

record RollupsInput =
  parent_id :: string
  epoch_index :: u64
  inputs_sent_count :: u64
  ri_data :: RollupsData

section \<open>Outputs (rollups_outputs.rs)\<close>

datatype RollupsCompletionStatus =
    Accepted
  | Rejected
  | Exception
  | MachineHalted
  | CycleLimitExceeded
  | TimeLimitExceeded
  | PayloadLengthLimitExceeded

record RollupsAdvanceResult =
  ar_input_index :: u64
  ar_status :: RollupsCompletionStatus

record RollupsVoucher =
  rv_index :: u64
  rv_input_index :: u64
  rv_destination :: Address
  rv_payload :: Payload

record RollupsNotice =
  rn_index :: u64
  rn_input_index :: u64
  rn_payload :: Payload

record RollupsReport =
  rr_index :: u64
  rr_input_index :: u64
  rr_payload :: Payload

datatype RollupsOutputEnum = OutputVoucher | OutputNotice

record RollupsOutputValidityProof =
  vp_input_index_within_epoch :: u64
  vp_output_index_within_input :: u64
  vp_output_hashes_root_hash :: Hash
  vp_vouchers_epoch_root_hash :: Hash
  vp_notices_epoch_root_hash :: Hash
  vp_machine_state_hash :: Hash
  vp_output_hash_in_output_hashes_siblings :: "Hash list"
  vp_output_hashes_in_epoch_siblings :: "Hash list"

record RollupsProof =
  rp_input_index :: u64
  rp_output_index :: u64
  rp_output_enum :: RollupsOutputEnum
  rp_validity :: RollupsOutputValidityProof
  rp_context :: Payload

datatype RollupsOutput =
    AdvanceResult RollupsAdvanceResult
  | Voucher RollupsVoucher
  | Notice RollupsNotice
  | Report RollupsReport
  | Proof RollupsProof

section \<open>Claims (rollups_claims.rs)\<close>

record RollupsClaim =
  rc_dapp_address :: Address
  rc_epoch_index :: u64
  rc_epoch_hash :: Hash
  rc_first_index :: u128
  rc_last_index :: u128

section \<open>Streams and their keys (rollups_stream.rs, rollups_claims.rs)\<close>

record DAppMetadata =
  chain_id :: u64
  dapp_address :: Address

text \<open>The value of the field \<open>address\<close> of the deployment file.\<close>

datatype JsonValue = JsonString string | JsonNull | JsonOther

definition dapp_metadata_from_cli ::
  "(string \<Rightarrow> string + byte list) \<Rightarrow> (string \<Rightarrow> string + JsonValue) \<Rightarrow>
   u64 \<Rightarrow> string option \<Rightarrow> string option \<Rightarrow> ('e, DAppMetadata) outcome" where
  "dapp_metadata_from_cli hex_decode read_address cli_chain_id cli_address cli_address_file =
     bind_outcome
       (case cli_address of
          Some address \<Rightarrow> Ok address
        | None \<Rightarrow>
            (case cli_address_file of
               None \<Rightarrow> Panic
             | Some path \<Rightarrow>
                 (case read_address path of
                    Inr (JsonString s) \<Rightarrow> Ok s
                  | _ \<Rightarrow> Panic)))
       (\<lambda>raw.
         bind_outcome (assert_that (char_boundary raw 2)) (\<lambda>_.
           case hex_decode (drop 2 raw) of
             Inl _ \<Rightarrow> Panic
           | Inr a \<Rightarrow>
               if length a = ADDRESS_SIZE
               then Ok \<lparr> chain_id = cli_chain_id, dapp_address = a \<rparr>
               else Panic))"

text \<open>The decimal digits that \<open>format!\<close> prints for an unsigned integer.\<close>

fun show_nat :: "nat \<Rightarrow> string" where
  "show_nat n =
     (if n < 10 then [char_of (48 + n)] else show_nat (n div 10) @ [char_of (48 + n mod 10)])"

declare show_nat.simps [simp del]

definition stream_key_new :: "(byte list \<Rightarrow> string) \<Rightarrow> string \<Rightarrow> DAppMetadata \<Rightarrow> string" where
  "stream_key_new hex_encode key metadata =
     ''{chain-'' @ show_nat (unat (chain_id metadata)) @ '':dapp-'' @
     hex_encode (dapp_address metadata) @ ''}:'' @ key"

definition RollupsInputsStream_key :: "(byte list \<Rightarrow> string) \<Rightarrow> DAppMetadata \<Rightarrow> string" where
  "RollupsInputsStream_key hex_encode = stream_key_new hex_encode ''rollups-inputs''"

definition RollupsOutputsStream_key :: "(byte list \<Rightarrow> string) \<Rightarrow> DAppMetadata \<Rightarrow> string" where
  "RollupsOutputsStream_key hex_encode = stream_key_new hex_encode ''rollups-outputs''"

definition RollupsClaimsStream_key :: "u64 \<Rightarrow> string" where
  "RollupsClaimsStream_key cid = ''{chain-'' @ show_nat (unat cid) @ ''}:rollups-claims''"

section \<open>The event types are countable\<close>

text \<open>
  Every event is finite data, so each type has an injection into the numbers; the
  instances give the concrete codecs of the examples.
\<close>

instance word :: (len) countable
  by (rule countable_classI [of unat]) (simp add: word_unat_eq_iff)

instance InputMetadata_ext :: (countable) countable
  by (rule countable_classI [of "\<lambda>r. to_nat (msg_sender r, im_block_number r, im_timestamp r,
      im_epoch_index r, im_input_index r, InputMetadata.more r)"]) simp

instance RollupsAdvanceStateInput_ext :: (countable) countable
  by (rule countable_classI [of "\<lambda>r. to_nat (adv_metadata r, adv_payload r, adv_tx_hash r,
      RollupsAdvanceStateInput.more r)"]) simp

instance RollupsData :: countable
  by countable_datatype

instance RollupsInput_ext :: (countable) countable
  by (rule countable_classI [of "\<lambda>r. to_nat (parent_id r, epoch_index r, inputs_sent_count r, ri_data r,
      RollupsInput.more r)"]) simp

instance RollupsCompletionStatus :: countable
  by countable_datatype

instance RollupsOutputEnum :: countable
  by countable_datatype

instance RollupsAdvanceResult_ext :: (countable) countable
  by (rule countable_classI [of "\<lambda>r. to_nat (ar_input_index r, ar_status r, RollupsAdvanceResult.more r)"]) simp

instance RollupsVoucher_ext :: (countable) countable
  by (rule countable_classI [of "\<lambda>r. to_nat (rv_index r, rv_input_index r, rv_destination r, rv_payload r,
      RollupsVoucher.more r)"]) simp

instance RollupsNotice_ext :: (countable) countable
  by (rule countable_classI [of "\<lambda>r. to_nat (rn_index r, rn_input_index r, rn_payload r,
      RollupsNotice.more r)"]) simp

instance RollupsReport_ext :: (countable) countable
  by (rule countable_classI [of "\<lambda>r. to_nat (rr_index r, rr_input_index r, rr_payload r,
      RollupsReport.more r)"]) simp

instance RollupsOutputValidityProof_ext :: (countable) countable
  by (rule countable_classI [of "\<lambda>r. to_nat (vp_input_index_within_epoch r, vp_output_index_within_input r,
      vp_output_hashes_root_hash r, vp_vouchers_epoch_root_hash r, vp_notices_epoch_root_hash r,
      vp_machine_state_hash r, vp_output_hash_in_output_hashes_siblings r,
      vp_output_hashes_in_epoch_siblings r, RollupsOutputValidityProof.more r)"]) simp

instance RollupsProof_ext :: (countable) countable
  by (rule countable_classI [of "\<lambda>r. to_nat (rp_input_index r, rp_output_index r, rp_output_enum r,
      rp_validity r, rp_context r, RollupsProof.more r)"]) simp

instance RollupsOutput :: countable
  by countable_datatype

instance RollupsClaim_ext :: (countable) countable
  by (rule countable_classI [of "\<lambda>r. to_nat (rc_dapp_address r, rc_epoch_index r, rc_epoch_hash r,
      rc_first_index r, rc_last_index r, RollupsClaim.more r)"]) simp

section \<open>Decimal digits\<close>

definition digit :: "char \<Rightarrow> bool" where
  "digit c \<longleftrightarrow> 48 \<le> (of_char c :: nat) \<and> (of_char c :: nat) < 58"

lemma of_char_digit: "d < 10 \<Longrightarrow> of_char (char_of (48 + d) :: char) = (48 + d :: nat)"
  by simp

lemma show_nat_digits: "c \<in> set (show_nat n) \<Longrightarrow> digit c"
proof (induction n rule: show_nat.induct)
  case (1 n)
  show ?case
  proof (cases "n < 10")
    case True
    with "1.prems" show ?thesis
      by (subst (asm) show_nat.simps) (simp add: digit_def)
  next
    case False
    then have "c \<in> set (show_nat (n div 10)) \<or> c = char_of (48 + n mod 10)"
      using "1.prems" by (subst (asm) show_nat.simps) auto
    moreover have "digit (char_of (48 + n mod 10))"
      using of_char_digit [of "n mod 10"] by (simp add: digit_def)
    ultimately show ?thesis
      using "1.IH" False by blast
  qed
qed

text \<open>Reading the digits back gives the number, so the printed form determines it.\<close>

definition read_digits :: "string \<Rightarrow> nat" where
  "read_digits s = foldl (\<lambda>n c. 10 * n + (of_char c - 48)) 0 s"

lemma read_show_nat [simp]: "read_digits (show_nat n) = n"
proof (induction n rule: show_nat.induct)
  case (1 n)
  show ?case
  proof (cases "n < 10")
    case True
    then show ?thesis
      by (subst show_nat.simps) (simp add: read_digits_def)
  next
    case False
    have "read_digits (show_nat n) = 10 * read_digits (show_nat (n div 10)) + n mod 10"
      using False of_char_digit [of "n mod 10"]
      by (subst show_nat.simps) (simp add: read_digits_def)
    then show ?thesis
      using "1.IH" [OF False] by simp
  qed
qed

lemma show_nat_inject: "show_nat m = show_nat n \<longleftrightarrow> m = n"
  by (metis read_show_nat)

text \<open>Two texts that end at a separator which neither of them has agree up to it.\<close>

lemma append_separator_inject:
  assumes "c \<notin> set xs" and "c \<notin> set ys" and "xs @ c # us = ys @ c # vs"
  shows "xs = ys \<and> us = vs"
  using assms
proof (induction xs arbitrary: ys)
  case Nil
  then show ?case by (cases ys) auto
next
  case (Cons x xs)
  then show ?case by (cases ys) auto
qed

lemma separator_not_digit: "CHR '':'' \<notin> set (show_nat n)" "CHR ''}'' \<notin> set (show_nat n)"
  using show_nat_digits [of "CHR '':''" n] show_nat_digits [of "CHR ''}''" n]
  by (auto simp: digit_def)

text \<open>
  What the \<open>hex\<close> crate promises: lowercase digits, and decoding inverts encoding.
\<close>

definition hex_laws :: "(byte list \<Rightarrow> string) \<Rightarrow> (string \<Rightarrow> string + byte list) \<Rightarrow> bool" where
  "hex_laws hex_encode hex_decode \<longleftrightarrow>
     (\<forall>d. hex_decode (hex_encode d) = Inr d \<and>
          length (hex_encode d) = 2 * length d \<and>
          (\<forall>c \<in> set (hex_encode d). c \<in> set ''0123456789abcdef''))"

lemma hex_laws_inject:
  assumes laws: "hex_laws hex_encode hex_decode"
  shows "hex_encode a = hex_encode b \<longleftrightarrow> a = b"
proof
  assume "hex_encode a = hex_encode b"
  then have "hex_decode (hex_encode a) = hex_decode (hex_encode b)"
    by simp
  with laws show "a = b"
    by (simp add: hex_laws_def)
qed simp

lemma hex_laws_alphabet:
  "\<lbrakk>hex_laws hex_encode hex_decode; c \<in> set (hex_encode d)\<rbrakk> \<Longrightarrow> c \<in> set ''0123456789abcdef''"
  unfolding hex_laws_def by blast

lemma hex_laws_no_brace:
  "hex_laws hex_encode hex_decode \<Longrightarrow> CHR ''}'' \<notin> set (hex_encode d)"
  using hex_laws_alphabet [of hex_encode hex_decode "CHR ''}''" d] by auto

lemma hex_laws_no_x:
  assumes "hex_laws hex_encode hex_decode"
  shows "take 2 (hex_encode d) \<noteq> ''0x''"
proof
  assume "take 2 (hex_encode d) = ''0x''"
  then have "CHR ''x'' \<in> set (take 2 (hex_encode d))"
    by simp
  then have "CHR ''x'' \<in> set (hex_encode d)"
    by (rule in_set_takeD)
  then show False
    using hex_laws_alphabet [OF assms] by fastforce
qed

lemma stream_key_new_inject:
  assumes "hex_laws hex_encode hex_decode"
  shows "stream_key_new hex_encode k m = stream_key_new hex_encode k' m' \<longleftrightarrow> k = k' \<and> m = m'"
proof
  assume "stream_key_new hex_encode k m = stream_key_new hex_encode k' m'"
  then have *: "show_nat (unat (chain_id m)) @ CHR '':'' # ''dapp-'' @ hex_encode (dapp_address m) @ ''}:'' @ k
      = show_nat (unat (chain_id m')) @ CHR '':'' # ''dapp-'' @ hex_encode (dapp_address m') @ ''}:'' @ k'"
    by (simp add: stream_key_new_def)
  then have chain: "chain_id m = chain_id m'"
    and "hex_encode (dapp_address m) @ CHR ''}'' # CHR '':'' # k
      = hex_encode (dapp_address m') @ CHR ''}'' # CHR '':'' # k'"
    using append_separator_inject [OF separator_not_digit(1) separator_not_digit(1) *]
    by (simp_all add: show_nat_inject word_unat_eq_iff [symmetric])
  then have "hex_encode (dapp_address m) = hex_encode (dapp_address m')" and "k = k'"
    using append_separator_inject [OF hex_laws_no_brace [OF assms] hex_laws_no_brace [OF assms]]
    by blast+
  then show "k = k' \<and> m = m'"
    using chain hex_laws_inject [OF assms] by simp
qed simp

section \<open>Properties of the keys and of the hexadecimal arrays\<close>

text \<open>A hexadecimal codec with the laws of the crate, for the concrete instances.\<close>

definition hex_digit :: "nat \<Rightarrow> char" where
  "hex_digit n = ''0123456789abcdef'' ! n"

definition hex_value :: "char \<Rightarrow> nat" where
  "hex_value c = length (takeWhile (\<lambda>d. d \<noteq> c) ''0123456789abcdef'')"

definition plain_hex_encode :: "byte list \<Rightarrow> string" where
  "plain_hex_encode data =
     concat (map (\<lambda>b. [hex_digit (unat b div 16), hex_digit (unat b mod 16)]) data)"

fun plain_hex_decode :: "string \<Rightarrow> string + byte list" where
  "plain_hex_decode [] = Inr []"
| "plain_hex_decode [c] = Inl ''odd length''"
| "plain_hex_decode (c # d # cs) =
     (case plain_hex_decode cs of
        Inl e \<Rightarrow> Inl e
      | Inr bs \<Rightarrow> Inr (of_nat (16 * hex_value c + hex_value d) # bs))"

lemma takeWhile_nth_distinct:
  "\<lbrakk>distinct xs; n < length xs\<rbrakk> \<Longrightarrow> length (takeWhile (\<lambda>d. d \<noteq> xs ! n) xs) = n"
proof (induction xs arbitrary: n)
  case (Cons x xs)
  then show ?case
    by (cases n) auto
qed simp

lemma hex_value_digit: "n < 16 \<Longrightarrow> hex_value (hex_digit n) = n"
  unfolding hex_value_def hex_digit_def by (rule takeWhile_nth_distinct) simp_all

lemma hex_digit_alphabet: "n < 16 \<Longrightarrow> hex_digit n \<in> set ''0123456789abcdef''"
  unfolding hex_digit_def by (rule nth_mem) simp

lemma byte_halves: "unat (b :: byte) div 16 < 16" "unat b mod 16 < 16"
  using unsigned_less [of b, where 'a = nat] by (auto simp: less_mult_imp_div_less)

lemma plain_hex_decode_encode: "plain_hex_decode (plain_hex_encode data) = Inr data"
proof (induction data)
  case (Cons b data)
  have "(of_nat (16 * (unat b div 16) + unat b mod 16) :: byte) = b"
    by simp
  then show ?case
    using Cons byte_halves [of b] by (simp add: plain_hex_encode_def hex_value_digit)
qed (simp add: plain_hex_encode_def)

lemma plain_hex_encode_digits:
  assumes "\<And>n. n < 16 \<Longrightarrow> P (hex_digit n)" and "c \<in> set (plain_hex_encode d)"
  shows "P c"
  using assms(2) byte_halves by (auto simp: plain_hex_encode_def assms(1))

lemma plain_hex_laws: "hex_laws plain_hex_encode plain_hex_decode"
proof -
  have "length (plain_hex_encode d) = 2 * length d" for d
    by (induction d) (simp_all add: plain_hex_encode_def)
  moreover have "c \<in> set ''0123456789abcdef''" if "c \<in> set (plain_hex_encode d)" for c d
    by (rule plain_hex_encode_digits [where P = "\<lambda>c. c \<in> set ''0123456789abcdef''", OF hex_digit_alphabet that])
  ultimately show ?thesis
    unfolding hex_laws_def by (blast intro: plain_hex_decode_encode)
qed

text \<open>The keys of the streams keep the dapps and the chains apart.  Two dapp streams
  have the same key only if they are the same stream of the same dapp on the same chain,
  and the claims stream of a chain is no stream of a dapp.\<close>

theorem stream_keys_distinct:
  assumes "hex_laws hex_encode hex_decode"
  shows "(RollupsInputsStream_key hex_encode m = RollupsInputsStream_key hex_encode m' \<longleftrightarrow> m = m') \<and>
    (RollupsOutputsStream_key hex_encode m = RollupsOutputsStream_key hex_encode m' \<longleftrightarrow> m = m') \<and>
    RollupsInputsStream_key hex_encode m \<noteq> RollupsOutputsStream_key hex_encode m' \<and>
    RollupsInputsStream_key hex_encode m \<noteq> RollupsClaimsStream_key c \<and>
    RollupsOutputsStream_key hex_encode m \<noteq> RollupsClaimsStream_key c \<and>
    (RollupsClaimsStream_key c = RollupsClaimsStream_key c' \<longleftrightarrow> c = c')"
proof -
  have claims: "stream_key_new hex_encode k m \<noteq> RollupsClaimsStream_key c" for k
  proof
    assume "stream_key_new hex_encode k m = RollupsClaimsStream_key c"
    then have "show_nat (unat (chain_id m)) @ CHR '':'' # ''dapp-'' @ hex_encode (dapp_address m) @ ''}:'' @ k
        = (show_nat (unat c) @ ''}'') @ CHR '':'' # ''rollups-claims''"
      by (simp add: stream_key_new_def RollupsClaimsStream_key_def)
    then have "show_nat (unat (chain_id m)) = show_nat (unat c) @ ''}''"
      using append_separator_inject [where c = "CHR '':''" and ys = "show_nat (unat c) @ ''}''"]
        separator_not_digit(1) by simp
    then show False
      using separator_not_digit(2) [of "unat (chain_id m)"] by simp
  qed
  have "RollupsClaimsStream_key c = RollupsClaimsStream_key c' \<longleftrightarrow> c = c'"
    by (simp add: RollupsClaimsStream_key_def show_nat_inject word_unat_eq_iff [symmetric])
  then show ?thesis
    using claims by (simp add: RollupsInputsStream_key_def RollupsOutputsStream_key_def
        stream_key_new_inject [OF assms])
qed

theorem stream_keys_distinct_witness:
  "hex_laws plain_hex_encode plain_hex_decode \<and>
   RollupsInputsStream_key plain_hex_encode \<lparr> chain_id = 1, dapp_address = [250] \<rparr>
     \<noteq> RollupsInputsStream_key plain_hex_encode \<lparr> chain_id = 1, dapp_address = [251] \<rparr>"
  using stream_keys_distinct [OF plain_hex_laws, of "\<lparr> chain_id = 1, dapp_address = [250] \<rparr>"
      "\<lparr> chain_id = 1, dapp_address = [251] \<rparr>"] plain_hex_laws
  by simp

text \<open>A hexadecimal array of at least one byte survives serialization, with or without
  the prefix 0x in front of the text; a text of fewer than two bytes stops the reader
  with a panic instead of an error.\<close>

theorem hex_array_roundtrip:
  assumes "hex_laws hex_encode hex_decode" and "length data = n" and "0 < n"
  shows "hex_array_deserialize hex_decode n (hex_array_serialize hex_encode data) = Ok data \<and>
    hex_array_deserialize hex_decode n (''0x'' @ hex_array_serialize hex_encode data) = Ok data \<and>
    (length s < 2 \<longrightarrow> hex_array_deserialize hex_decode n s = Panic)"
proof -
  have dec: "hex_decode (hex_encode data) = Inr data"
    and len: "length (hex_encode data) = 2 * n"
    using assms(1,2) unfolding hex_laws_def by blast+
  have small: "(of_char c :: nat) < 128" if "c \<in> set (hex_encode data)" for c
    using hex_laws_alphabet [OF assms(1) that] by auto
  have "char_boundary (hex_encode data) 2"
    using len assms(3) small [of "hex_encode data ! 2"]
    by (cases "n = 1") (auto simp: char_boundary_def not_le)
  moreover have "char_boundary (''0x'' @ hex_encode data) 2"
    using small [of "hex_encode data ! 0"] by (auto simp: char_boundary_def nth_append not_le)
  ultimately show ?thesis
    using dec assms(2) hex_laws_no_x [OF assms(1), of data]
    by (simp add: hex_array_deserialize_def hex_array_serialize_def char_boundary_def Let_def)
qed

theorem hex_array_roundtrip_witness:
  "hex_laws plain_hex_encode plain_hex_decode \<and>
   hex_array_deserialize plain_hex_decode 1 (hex_array_serialize plain_hex_encode [250]) = Ok [250]"
  using hex_array_roundtrip [OF plain_hex_laws, of "[250]" 1] plain_hex_laws by simp

section \<open>Payloads (common.rs)\<close>

text \<open>A payload is base64 text in an event.  The engine of the crate \<open>base64\<close> is an argument.\<close>

definition PAYLOAD_DEBUG_MAX_LEN :: nat where
  "PAYLOAD_DEBUG_MAX_LEN = 100"

definition payload_serialize :: "(byte list \<Rightarrow> string) \<Rightarrow> Payload \<Rightarrow> string" where
  "payload_serialize encode data = encode data"

definition payload_deserialize :: "(string \<Rightarrow> string + byte list) \<Rightarrow> string \<Rightarrow> (string, Payload) outcome" where
  "payload_deserialize decode string_data =
     from_result (\<lambda>e. ''fail to decode base64 ('' @ e @ '')'') (decode string_data)"

definition payload_debug :: "(byte list \<Rightarrow> string) \<Rightarrow> Payload \<Rightarrow> string" where
  "payload_debug encode data =
     (if PAYLOAD_DEBUG_MAX_LEN < length data
      then encode (take PAYLOAD_DEBUG_MAX_LEN data) @ ''...[total: '' @ show_nat (length data) @ '' bytes]''
      else encode data)"

lemma payload_roundtrip:
  "decode (encode data) = Inr data \<Longrightarrow> payload_deserialize decode (payload_serialize encode data) = Ok data"
  by (simp add: payload_deserialize_def payload_serialize_def)

text \<open>What is printed of a payload depends on its first hundred bytes and its length only.\<close>

lemma payload_debug_local:
  "\<lbrakk>take PAYLOAD_DEBUG_MAX_LEN data = take PAYLOAD_DEBUG_MAX_LEN data'; length data = length data'\<rbrakk> \<Longrightarrow>
   payload_debug encode data = payload_debug encode data'"
  by (auto simp: payload_debug_def)

end
