(* ===== verification/Broker.thy ===== *)
theory Broker
  imports Rollups_Events
begin

text \<open>
  The broker client of \<open>rollups-events/src/broker\<close>.

  Redis is a parameter: the record \<open>Redis\<close> holds the three stream commands the
  client calls, each as a function on a server state of any type, the retries of
  the \<open>backoff\<close> crate included.  \<open>xrange\<close> is not called by the client; it names what
  a stream holds, so that \<open>redis_laws\<close> can state what the commands do.  The JSON
  codec of a payload is a parameter of its stream.
\<close>

section \<open>The Redis commands\<close>

definition INITIAL_ID :: string where
  "INITIAL_ID = ''0''"

text \<open>One entry of a stream: its id and its fields.\<close>

type_synonym StreamId = "string \<times> (string \<times> string) list"

record 'r Redis =
  xadd :: "string \<Rightarrow> (string \<times> string) list \<Rightarrow> 'r \<Rightarrow> (string + string) \<times> 'r"
  xrevrange_count :: "string \<Rightarrow> 'r \<Rightarrow> (string + StreamId list) \<times> 'r"
  xread_options ::
    "(string \<times> string) list \<Rightarrow> nat option \<Rightarrow> 'r \<Rightarrow> (string + (string \<times> StreamId list) list) \<times> 'r"
  xrange :: "string \<Rightarrow> 'r \<Rightarrow> StreamId list"

section \<open>The client (broker/mod.rs)\<close>

datatype BrokerError =
    ConnectionError string
  | FailedToConsume
  | ConsumeTimeout
  | InvalidEvent
  | InvalidPayload string

record 'r Broker =
  connection :: 'r
  redis :: "'r Redis"
  consume_timeout :: nat

record 'p BrokerStream =
  stream_key :: string
  to_json :: "'p \<Rightarrow> string + string"
  from_json :: "string \<Rightarrow> string + 'p"

record 'p Event =
  ev_id :: string
  ev_payload :: 'p

definition event_try_from ::
  "'p BrokerStream \<Rightarrow> StreamId \<Rightarrow> (BrokerError, 'p Event) outcome" where
  "event_try_from stream stream_id =
     bind_outcome (ok_or InvalidEvent (map_of (snd stream_id) ''payload'')) (\<lambda>payload.
       bind_outcome (from_result InvalidPayload (from_json stream payload)) (\<lambda>payload.
         Ok \<lparr> ev_id = fst stream_id, ev_payload = payload \<rparr>))"

definition produce ::
  "'p BrokerStream \<Rightarrow> 'p \<Rightarrow> 'r Broker \<Rightarrow> ('r Broker, BrokerError, string) action" where
  "produce stream payload broker =
     (case to_json stream payload of
        Inl e \<Rightarrow> (Err (InvalidPayload e), broker)
      | Inr json \<Rightarrow>
          (case xadd (redis broker) (stream_key stream) [(''payload'', json)] (connection broker) of
             (reply, conn) \<Rightarrow>
               (from_result ConnectionError reply, broker\<lparr>connection := conn\<rparr>)))"

definition peek_latest ::
  "'p BrokerStream \<Rightarrow> 'r Broker \<Rightarrow> ('r Broker, BrokerError, 'p Event option) action" where
  "peek_latest stream broker =
     (case xrevrange_count (redis broker) (stream_key stream) (connection broker) of
        (reply, conn) \<Rightarrow>
          (bind_outcome (from_result ConnectionError reply) (\<lambda>ids.
             if ids = [] then Ok None
             else map_ok Some (event_try_from stream (last ids))),
           broker\<lparr>connection := conn\<rparr>))"

definition consume_blocking_once ::
  "'p BrokerStream \<Rightarrow> string \<Rightarrow> 'r Broker \<Rightarrow> ('r Broker, BrokerError, 'p Event) action" where
  "consume_blocking_once stream last_consumed_id broker =
     (case xread_options (redis broker) [(stream_key stream, last_consumed_id)]
             (Some (consume_timeout broker)) (connection broker) of
        (reply, conn) \<Rightarrow>
          (bind_outcome (from_result ConnectionError reply) (\<lambda>keys.
             bind_outcome (ok_or ConsumeTimeout (if keys = [] then None else Some (snd (last keys)))) (\<lambda>ids.
               bind_outcome (ok_or FailedToConsume (if ids = [] then None else Some (last ids))) (\<lambda>event.
                 event_try_from stream event))),
           broker\<lparr>connection := conn\<rparr>))"

text \<open>
  The loop of \<open>consume_blocking\<close> retries every timeout and may wait forever; not
  returning is \<open>None\<close>.
\<close>

partial_function (option) consume_blocking ::
  "'p BrokerStream \<Rightarrow> string \<Rightarrow> 'r Broker \<Rightarrow> ('r Broker, BrokerError, 'p Event) action option" where
  "consume_blocking stream last_consumed_id broker =
     (case consume_blocking_once stream last_consumed_id broker of
        (result, broker') \<Rightarrow>
          if result = Err ConsumeTimeout then consume_blocking stream last_consumed_id broker'
          else Some (result, broker'))"

definition consume_nonblocking ::
  "'p BrokerStream \<Rightarrow> string \<Rightarrow> 'r Broker \<Rightarrow> ('r Broker, BrokerError, 'p Event option) action" where
  "consume_nonblocking stream last_consumed_id broker =
     (case xread_options (redis broker) [(stream_key stream, last_consumed_id)] None (connection broker) of
        (reply, conn) \<Rightarrow>
          (bind_outcome (from_result ConnectionError reply) (\<lambda>keys.
             if keys = [] then Ok None
             else
               (let ids = snd (last keys) in
                bind_outcome (ok_or FailedToConsume (if ids = [] then None else Some (last ids))) (\<lambda>event.
                  map_ok Some (event_try_from stream event)))),
           broker\<lparr>connection := conn\<rparr>))"

section \<open>The indexer extension (broker/indexer.rs)\<close>

datatype IndexerEvent =
    IndexerInput "RollupsInput Event"
  | IndexerOutput "RollupsOutput Event"

record IndexerState =
  inputs_last_id :: string
  outputs_last_id :: string
  ix_inputs_stream :: "RollupsInput BrokerStream"
  ix_outputs_stream :: "RollupsOutput BrokerStream"

definition indexer_state_new ::
  "RollupsInput BrokerStream \<Rightarrow> RollupsOutput BrokerStream \<Rightarrow> IndexerState" where
  "indexer_state_new inputs outputs =
     \<lparr> inputs_last_id = INITIAL_ID, outputs_last_id = INITIAL_ID,
       ix_inputs_stream = inputs, ix_outputs_stream = outputs \<rparr>"

text \<open>The entry that \<open>find\<close> and \<open>pop\<close> take from the reply for one key.\<close>

definition pop_stream_id :: "string \<Rightarrow> (string \<times> StreamId list) list \<Rightarrow> StreamId option" where
  "pop_stream_id key keys =
     (case map_of keys key of
        None \<Rightarrow> None
      | Some ids \<Rightarrow> if ids = [] then None else Some (last ids))"

definition indexer_consume ::
  "'r Broker \<times> IndexerState \<Rightarrow> ('r Broker \<times> IndexerState, BrokerError, IndexerEvent) action" where
  "indexer_consume s =
     (case s of (broker, state) \<Rightarrow>
       (case xread_options (redis broker)
               [(stream_key (ix_inputs_stream state), inputs_last_id state),
                (stream_key (ix_outputs_stream state), outputs_last_id state)]
               (Some (consume_timeout broker)) (connection broker) of
          (Inl e, conn) \<Rightarrow> (Err (ConnectionError e), broker\<lparr>connection := conn\<rparr>, state)
        | (Inr keys, conn) \<Rightarrow>
            (let broker = broker\<lparr>connection := conn\<rparr> in
             case pop_stream_id (stream_key (ix_inputs_stream state)) keys of
               Some stream_id \<Rightarrow>
                 and_then (event_try_from (ix_inputs_stream state) stream_id, broker, state)
                   (\<lambda>event _. (Ok (IndexerInput event), broker, state\<lparr>inputs_last_id := ev_id event\<rparr>))
             | None \<Rightarrow>
                 (case pop_stream_id (stream_key (ix_outputs_stream state)) keys of
                    Some stream_id \<Rightarrow>
                      and_then (event_try_from (ix_outputs_stream state) stream_id, broker, state)
                        (\<lambda>event _. (Ok (IndexerOutput event), broker, state\<lparr>outputs_last_id := ev_id event\<rparr>))
                  | None \<Rightarrow> (Err ConsumeTimeout, broker, state)))))"

section \<open>What the commands and the codec promise\<close>

text \<open>The entries of a stream that follow the one with a given id.\<close>

definition after_id :: "string \<Rightarrow> StreamId list \<Rightarrow> StreamId list" where
  "after_id i es = (if i = INITIAL_ID then es else tl (dropWhile (\<lambda>e. fst e \<noteq> i) es))"

definition ids_ok :: "StreamId list \<Rightarrow> bool" where
  "ids_ok es \<longleftrightarrow> distinct (map fst es) \<and> INITIAL_ID \<notin> set (map fst es)"

definition known_id :: "string \<Rightarrow> StreamId list \<Rightarrow> bool" where
  "known_id i es \<longleftrightarrow> i = INITIAL_ID \<or> i \<in> set (map fst es)"

text \<open>A reader that has consumed the first \<open>k\<close> entries holds the id of the last of them.\<close>

definition at_position :: "string \<Rightarrow> nat \<Rightarrow> StreamId list \<Rightarrow> bool" where
  "at_position i k es \<longleftrightarrow>
     k \<le> length es \<and> i = (if k = 0 then INITIAL_ID else fst (es ! (k - 1)))"

text \<open>
  While a command runs, other clients may append to streams: the streams of \<open>W\<close>,
  which only this client writes, stay the same and the others grow.
\<close>

definition grows :: "string set \<Rightarrow> 'r Redis \<Rightarrow> 'r \<Rightarrow> 'r \<Rightarrow> bool" where
  "grows W R r r' \<longleftrightarrow>
     (\<forall>k. prefix (xrange R k r) (xrange R k r') \<and> (k \<in> W \<longrightarrow> xrange R k r' = xrange R k r))"

definition first_after :: "'r Redis \<Rightarrow> 'r \<Rightarrow> string \<times> string \<Rightarrow> (string \<times> StreamId list) list" where
  "first_after R r q =
     (case after_id (snd q) (xrange R (fst q) r) of [] \<Rightarrow> [] | e # _ \<Rightarrow> [(fst q, [e])])"

definition xadd_law :: "string set \<Rightarrow> 'r Redis \<Rightarrow> bool" where
  "xadd_law W R \<longleftrightarrow>
     (\<forall>k fs r reply r'. k \<in> W \<and> xadd R k fs r = (reply, r') \<longrightarrow>
        grows (W - {k}) R r r' \<and>
        (case reply of
           Inr i \<Rightarrow> xrange R k r' = xrange R k r @ [(i, fs)]
         | Inl e \<Rightarrow> xrange R k r' = xrange R k r \<or> (\<exists>i. xrange R k r' = xrange R k r @ [(i, fs)])))"

definition xrevrange_law :: "string set \<Rightarrow> 'r Redis \<Rightarrow> bool" where
  "xrevrange_law W R \<longleftrightarrow>
     (\<forall>k r reply r'. xrevrange_count R k r = (reply, r') \<longrightarrow>
        grows W R r r' \<and>
        (\<forall>ids. reply = Inr ids \<longrightarrow>
           ids = (if xrange R k r' = [] then [] else [last (xrange R k r')])))"

definition xread_law :: "string set \<Rightarrow> 'r Redis \<Rightarrow> bool" where
  "xread_law W R \<longleftrightarrow>
     (\<forall>qs t r reply r'. xread_options R qs t r = (reply, r') \<longrightarrow>
        grows W R r r' \<and>
        (\<forall>keys. reply = Inr keys \<and> (\<forall>q \<in> set qs. known_id (snd q) (xrange R (fst q) r)) \<longrightarrow>
           keys = concat (map (first_after R r') qs)))"

text \<open>Redis never gives an entry the id of another one of its stream, nor the id 0.\<close>

definition redis_laws :: "string set \<Rightarrow> 'r Redis \<Rightarrow> bool" where
  "redis_laws W R \<longleftrightarrow>
     xadd_law W R \<and> xrevrange_law W R \<and> xread_law W R \<and> (\<forall>k r. ids_ok (xrange R k r))"

definition codec_laws :: "'p BrokerStream \<Rightarrow> bool" where
  "codec_laws stream \<longleftrightarrow>
     (\<forall>p. \<exists>json. to_json stream p = Inr json \<and> from_json stream json = Inr p)"

text \<open>What a stream holds, decoded; \<open>Ok\<close> when every entry is an event of the stream.\<close>

definition entries :: "'p BrokerStream \<Rightarrow> 'r Broker \<Rightarrow> StreamId list" where
  "entries stream broker = xrange (redis broker) (stream_key stream) (connection broker)"

definition stream_log :: "'p BrokerStream \<Rightarrow> 'r Broker \<Rightarrow> 'p Event list" where
  "stream_log stream broker =
     (case try_all (event_try_from stream) (entries stream broker) of Ok evs \<Rightarrow> evs | _ \<Rightarrow> [])"

definition decodes :: "'p BrokerStream \<Rightarrow> 'r Broker \<Rightarrow> bool" where
  "decodes stream broker \<longleftrightarrow> is_ok (try_all (event_try_from stream) (entries stream broker))"

definition own_stream :: "'p BrokerStream \<Rightarrow> 'r Broker \<Rightarrow> bool" where
  "own_stream stream broker \<longleftrightarrow>
     redis_laws {stream_key stream} (redis broker) \<and> codec_laws stream \<and> decodes stream broker"

section \<open>Decoding\<close>

lemma event_try_from_id: "event_try_from stream e = Ok ev \<Longrightarrow> ev_id ev = fst e"
  by (auto simp: event_try_from_def bind_outcome_Ok_iff)

lemma event_try_from_no_panic: "event_try_from stream e \<noteq> Panic"
  by (cases "map_of (snd e) ''payload''"; cases "from_json stream (the (map_of (snd e) ''payload''))")
    (auto simp: event_try_from_def)

lemma event_try_from_encoded:
  "from_json stream json = Inr p \<Longrightarrow>
   event_try_from stream (i, [(''payload'', json)]) = Ok \<lparr> ev_id = i, ev_payload = p \<rparr>"
  by (simp add: event_try_from_def)

lemma decodes_log:
  "decodes stream broker \<Longrightarrow>
   list_all2 (\<lambda>e ev. event_try_from stream e = Ok ev) (entries stream broker) (stream_log stream broker)"
  by (auto simp: decodes_def stream_log_def is_ok_iff simp flip: try_all_Ok_iff)

lemma decodes_intro:
  assumes "list_all2 (\<lambda>e ev. event_try_from stream e = Ok ev) (entries stream broker) evs"
  shows "decodes stream broker \<and> stream_log stream broker = evs"
proof -
  have "try_all (event_try_from stream) (entries stream broker) = Ok evs"
    using assms by (simp add: try_all_Ok_iff)
  then show ?thesis
    by (simp add: decodes_def stream_log_def)
qed

lemma decoded_ids:
  "list_all2 (\<lambda>e ev. event_try_from stream e = Ok ev) es evs \<Longrightarrow> map ev_id evs = map fst es"
  by (induction es evs rule: list_all2_induct) (auto dest: event_try_from_id)

lemma log_ids:
  "decodes stream broker \<Longrightarrow> map ev_id (stream_log stream broker) = map fst (entries stream broker)"
  using decodes_log decoded_ids by blast

lemma log_Nil_iff:
  "decodes stream broker \<Longrightarrow> stream_log stream broker = [] \<longleftrightarrow> entries stream broker = []"
  using log_ids [of stream broker] by (metis map_is_Nil_conv)

lemma log_append:
  assumes "decodes stream broker" and "entries stream broker' = entries stream broker @ [e]"
    and "event_try_from stream e = Ok ev"
  shows "decodes stream broker' \<and> stream_log stream broker' = stream_log stream broker @ [ev]"
  using assms decodes_log [OF assms(1)]
  by (intro decodes_intro) (auto intro: list_all2_appendI)

lemma log_same:
  assumes "decodes stream broker" and "entries stream broker' = entries stream broker"
  shows "decodes stream broker' \<and> stream_log stream broker' = stream_log stream broker"
  using assms by (simp add: decodes_def stream_log_def)

section \<open>The contract of a stream with one writer\<close>

text \<open>
  What a component relies on when it is the only writer of a stream: appending
  puts one event at the end of the log, a failed append leaves the log as it was
  or with that event, and peeking reads the last event.
\<close>

locale event_log =
  fixes inv :: "'b \<Rightarrow> bool"
    and log :: "'b \<Rightarrow> 'p Event list"
    and put :: "'p \<Rightarrow> 'b \<Rightarrow> ('b, 'e, string) action"
    and peek :: "'b \<Rightarrow> ('b, 'e, 'p Event option) action"
  assumes put_Ok: "\<lbrakk>inv b; put p b = (Ok i, b')\<rbrakk> \<Longrightarrow>
      inv b' \<and> log b' = log b @ [\<lparr> ev_id = i, ev_payload = p \<rparr>]"
    and put_Err: "\<lbrakk>inv b; put p b = (Err e, b')\<rbrakk> \<Longrightarrow>
      inv b' \<and> (log b' = log b \<or> (\<exists>i. log b' = log b @ [\<lparr> ev_id = i, ev_payload = p \<rparr>]))"
    and put_no_panic: "inv b \<Longrightarrow> fst (put p b) \<noteq> Panic"
    and peek_Ok: "\<lbrakk>inv b; peek b = (Ok r, b')\<rbrakk> \<Longrightarrow>
      inv b' \<and> log b' = log b \<and> r = (if log b = [] then None else Some (last (log b)))"
    and peek_Err: "\<lbrakk>inv b; peek b = (Err e, b')\<rbrakk> \<Longrightarrow> inv b' \<and> log b' = log b"
    and peek_no_panic: "inv b \<Longrightarrow> fst (peek b) \<noteq> Panic"
    and log_ids_distinct: "inv b \<Longrightarrow> distinct (map ev_id (log b))"
    and log_ids_not_initial: "inv b \<Longrightarrow> INITIAL_ID \<notin> set (map ev_id (log b))"
begin

lemma peek_cases:
  assumes "inv b"
  obtains (Ok) b' where "peek b = (Ok (if log b = [] then None else Some (last (log b))), b')"
      and "inv b'" and "log b' = log b"
    | (Err) e b' where "peek b = (Err e, b')" and "inv b'" and "log b' = log b"
proof (cases "peek b")
  case (Pair r b')
  then show ?thesis
    using assms peek_Ok [of b _ b'] peek_Err [of b _ b'] peek_no_panic [of b] that
    by (cases r) auto
qed

lemma put_cases:
  assumes "inv b"
  obtains (Ok) i b' where "put p b = (Ok i, b')" and "inv b'"
      and "log b' = log b @ [\<lparr> ev_id = i, ev_payload = p \<rparr>]"
    | (Err) e b' where "put p b = (Err e, b')" and "inv b'"
      and "log b' = log b \<or> (\<exists>i. log b' = log b @ [\<lparr> ev_id = i, ev_payload = p \<rparr>])"
proof (cases "put p b")
  case (Pair r b')
  then show ?thesis
    using assms put_Ok [of b p _ b'] put_Err [of b p _ b'] put_no_panic [of b p] that
    by (cases r) auto
qed

end

lemma own_streamD:
  assumes "own_stream stream broker"
  shows "xadd_law {stream_key stream} (redis broker)"
    and "xrevrange_law {stream_key stream} (redis broker)"
    and "xread_law {stream_key stream} (redis broker)"
    and "ids_ok (entries stream broker)"
    and "codec_laws stream"
    and "decodes stream broker"
  using assms by (simp_all add: own_stream_def redis_laws_def entries_def)

lemma growsD:
  assumes "grows W R r r'"
  shows "prefix (xrange R k r) (xrange R k r')"
    and "k \<in> W \<Longrightarrow> xrange R k r' = xrange R k r"
  using assms unfolding grows_def by blast+

lemma xrevrange_lawD:
  assumes "xrevrange_law W R" and "xrevrange_count R k r = (reply, r')"
  shows "grows W R r r'"
    and "reply = Inr ids \<Longrightarrow> ids = (if xrange R k r' = [] then [] else [last (xrange R k r')])"
  using assms unfolding xrevrange_law_def by blast+

lemma xread_lawD:
  assumes "xread_law W R" and "xread_options R qs t r = (reply, r')"
  shows "grows W R r r'"
    and "\<lbrakk>reply = Inr keys; \<And>q. q \<in> set qs \<Longrightarrow> known_id (snd q) (xrange R (fst q) r)\<rbrakk> \<Longrightarrow>
      keys = concat (map (first_after R r') qs)"
  using assms unfolding xread_law_def by blast+

lemma produce_own:
  assumes "own_stream stream broker" and "produce stream p broker = (r, broker')"
  shows "redis broker' = redis broker \<and>
    (case r of
       Ok i \<Rightarrow> \<exists>json. from_json stream json = Inr p \<and>
         entries stream broker' = entries stream broker @ [(i, [(''payload'', json)])]
     | Err e \<Rightarrow> entries stream broker' = entries stream broker \<or>
         (\<exists>i json. from_json stream json = Inr p \<and>
            entries stream broker' = entries stream broker @ [(i, [(''payload'', json)])])
     | Panic \<Rightarrow> False)"
proof -
  obtain json where json: "to_json stream p = Inr json" "from_json stream json = Inr p"
    using own_streamD(5) [OF assms(1)] by (auto simp: codec_laws_def)
  obtain reply conn where x:
    "xadd (redis broker) (stream_key stream) [(''payload'', json)] (connection broker) = (reply, conn)"
    by fastforce
  have "case reply of
      Inr i \<Rightarrow> xrange (redis broker) (stream_key stream) conn = entries stream broker @ [(i, [(''payload'', json)])]
    | Inl e \<Rightarrow> xrange (redis broker) (stream_key stream) conn = entries stream broker
        \<or> (\<exists>i. xrange (redis broker) (stream_key stream) conn = entries stream broker @ [(i, [(''payload'', json)])])"
    using own_streamD(1) [OF assms(1)] x unfolding xadd_law_def entries_def by blast
  then show ?thesis
    using assms(2) json x by (cases reply) (auto simp: produce_def entries_def)
qed

lemma own_stream_append:
  assumes "own_stream stream broker" and "redis broker' = redis broker"
    and "from_json stream json = Inr p"
    and "entries stream broker' = entries stream broker @ [(i, [(''payload'', json)])]"
  shows "own_stream stream broker' \<and>
    stream_log stream broker' = stream_log stream broker @ [\<lparr> ev_id = i, ev_payload = p \<rparr>]"
  using assms log_append [OF own_streamD(6) [OF assms(1)] assms(4) event_try_from_encoded [OF assms(3)]]
  by (simp add: own_stream_def)

lemma own_stream_same:
  assumes "own_stream stream broker" and "redis broker' = redis broker"
    and "entries stream broker' = entries stream broker"
  shows "own_stream stream broker' \<and> stream_log stream broker' = stream_log stream broker"
  using assms log_same [OF own_streamD(6) [OF assms(1)] assms(3)] by (simp add: own_stream_def)

lemma peek_latest_own:
  assumes "own_stream stream broker" and "peek_latest stream broker = (r, broker')"
  shows "redis broker' = redis broker \<and> entries stream broker' = entries stream broker \<and>
    (case r of
       Ok ev \<Rightarrow> ev = (if stream_log stream broker = [] then None else Some (last (stream_log stream broker)))
     | Err e \<Rightarrow> True
     | Panic \<Rightarrow> False)"
proof -
  let ?key = "stream_key stream"
  obtain reply conn where x: "xrevrange_count (redis broker) ?key (connection broker) = (reply, conn)"
    by fastforce
  have law: "xrevrange_law {?key} (redis broker)"
    by (rule own_streamD(2) [OF assms(1)])
  have g: "xrange (redis broker) ?key conn = entries stream broker"
    using growsD(2) [OF xrevrange_lawD(1) [OF law x]] by (simp add: entries_def)
  have dec: "decodes stream broker"
    by (rule own_streamD(6) [OF assms(1)])
  then have last: "entries stream broker \<noteq> [] \<Longrightarrow>
      event_try_from stream (last (entries stream broker)) = Ok (last (stream_log stream broker))"
    using list_all2_last [OF decodes_log] by blast
  show ?thesis
  proof (cases reply)
    case (Inl e)
    then show ?thesis
      using assms(2) x g by (auto simp: peek_latest_def entries_def)
  next
    case (Inr ids)
    have "ids = (if entries stream broker = [] then [] else [last (entries stream broker)])"
      using xrevrange_lawD(2) [OF law x Inr] g by simp
    then show ?thesis
      using assms(2) x g Inr last log_Nil_iff [OF dec]
      by (auto simp: peek_latest_def entries_def split: if_splits)
  qed
qed

interpretation own: event_log "own_stream stream" "stream_log stream" "produce stream" "peek_latest stream"
  for stream :: "'p BrokerStream"
proof (standard, goal_cases)
  case (1 b p i b')
  then show ?case
    using produce_own [OF 1] own_stream_append [OF 1(1)] by auto
next
  case (2 b p e b')
  have r: "redis b' = redis b"
    using produce_own [OF 2] by simp
  consider "entries stream b' = entries stream b"
    | j json where "from_json stream json = Inr p"
      and "entries stream b' = entries stream b @ [(j, [(''payload'', json)])]"
    using produce_own [OF 2] by auto
  then show ?case
    using own_stream_append [OF 2(1) r] own_stream_same [OF 2(1) r] by cases blast+
next
  case (3 b p)
  show ?case
  proof (cases "produce stream p b")
    case (Pair r b')
    then show ?thesis
      using produce_own [OF 3 Pair] by (cases r) auto
  qed
next
  case (4 b r b')
  then show ?case
    using peek_latest_own [OF 4] own_stream_same [OF 4(1), of b'] by simp
next
  case (5 b e b')
  then show ?case
    using peek_latest_own [OF 5] own_stream_same [OF 5(1), of b'] by simp
next
  case (6 b)
  show ?case
  proof (cases "peek_latest stream b")
    case (Pair r b')
    then show ?thesis
      using peek_latest_own [OF 6 Pair] by (cases r) auto
  qed
next
  case (7 b)
  then show ?case
    using own_streamD(4,6) [OF 7] by (simp add: log_ids ids_ok_def)
next
  case (8 b)
  then show ?case
    using own_streamD(4,6) [OF 8] by (simp add: log_ids ids_ok_def)
qed

section \<open>Reading a stream in order\<close>

lemma dropWhile_id:
  "\<lbrakk>distinct (map fst es); k < length es\<rbrakk> \<Longrightarrow> dropWhile (\<lambda>e. fst e \<noteq> fst (es ! k)) es = drop k es"
proof (induction es arbitrary: k)
  case (Cons e es)
  then show ?case
    by (cases k) (auto simp: in_set_conv_nth dest: nth_mem)
qed simp

lemma after_id_position:
  assumes "ids_ok es" and "at_position i k es"
  shows "after_id i es = drop k es"
proof (cases k)
  case 0
  with assms show ?thesis by (simp add: at_position_def after_id_def)
next
  case (Suc j)
  then have j: "j < length es" "i = fst (es ! j)"
    using assms(2) by (auto simp: at_position_def)
  then have "i \<noteq> INITIAL_ID"
    using assms(1) by (metis ids_ok_def image_eqI list.set_map nth_mem)
  then show ?thesis
    using j assms(1) dropWhile_id [of es j] Suc
    by (simp add: after_id_def ids_ok_def drop_Suc tl_drop)
qed

lemma at_position_known: "at_position i k es \<Longrightarrow> known_id i es"
  by (auto simp: at_position_def known_id_def split: if_splits)

lemma at_position_prefix: "\<lbrakk>at_position i k es; prefix es es'\<rbrakk> \<Longrightarrow> at_position i k es'"
  by (auto simp: at_position_def prefix_def nth_append)

lemma at_position_next: "k < length es \<Longrightarrow> at_position (fst (es ! k)) (Suc k) es"
  by (simp add: at_position_def)

lemma at_position_initial: "at_position INITIAL_ID 0 es"
  by (simp add: at_position_def)

text \<open>The reply to a read for one stream whose reader is at a position.\<close>

lemma first_after_position:
  assumes "ids_ok (xrange R k r)" and "at_position i n (xrange R k r)"
  shows "first_after R r (k, i) =
    (if n < length (xrange R k r) then [(k, [xrange R k r ! n])] else [])"
proof (cases "n < length (xrange R k r)")
  case True
  then have "after_id i (xrange R k r) = xrange R k r ! n # drop (Suc n) (xrange R k r)"
    using after_id_position [OF assms] by (simp add: Cons_nth_drop_Suc)
  with True show ?thesis by (simp add: first_after_def)
next
  case False
  then show ?thesis
    using after_id_position [OF assms] by (simp add: first_after_def)
qed

text \<open>
  One read of a stream.  \<open>reads_next\<close> says what an attempt that found an entry
  returns: the decoded entry at the reader's position.
\<close>

definition reads_next :: "'p BrokerStream \<Rightarrow> nat \<Rightarrow> 'r Broker \<Rightarrow> (BrokerError, 'p Event) outcome \<Rightarrow> bool" where
  "reads_next stream n broker r \<longleftrightarrow>
     n < length (entries stream broker) \<and> r = event_try_from stream (entries stream broker ! n)"

lemma consume_blocking_once_cases:
  assumes laws: "redis_laws W (redis broker)"
    and pos: "at_position i n (entries stream broker)"
    and run: "consume_blocking_once stream i broker = (r, broker')"
  shows "redis broker' = redis broker \<and> grows W (redis broker) (connection broker) (connection broker') \<and>
    at_position i n (entries stream broker') \<and>
    ((\<exists>e. r = Err (ConnectionError e)) \<or>
     r = Err ConsumeTimeout \<and> n = length (entries stream broker') \<or>
     reads_next stream n broker' r)"
proof -
  let ?R = "redis broker" and ?key = "stream_key stream"
  obtain reply conn where x:
    "xread_options ?R [(?key, i)] (Some (consume_timeout broker)) (connection broker) = (reply, conn)"
    by fastforce
  have law: "xread_law W ?R" and ids: "ids_ok (xrange ?R ?key conn)"
    using laws by (simp_all add: redis_laws_def)
  have g: "grows W ?R (connection broker) conn"
    by (rule xread_lawD(1) [OF law x])
  have pos': "at_position i n (xrange ?R ?key conn)"
    using at_position_prefix [OF pos] growsD(1) [OF g] by (simp add: entries_def)
  have keys: "keys = first_after ?R conn (?key, i)" if "reply = Inr keys" for keys
    using xread_lawD(2) [OF law x that] at_position_known [OF pos] by (simp add: entries_def)
  have n: "n \<le> length (xrange ?R ?key conn)"
    using pos' by (simp add: at_position_def)
  show ?thesis
  proof (cases reply)
    case (Inl e)
    then show ?thesis
      using run x g pos' by (auto simp: consume_blocking_once_def entries_def)
  next
    case (Inr ks)
    then show ?thesis
      using run x g pos' n keys [OF Inr] first_after_position [OF ids pos']
      by (auto simp: consume_blocking_once_def entries_def reads_next_def split: if_splits)
  qed
qed

definition stream_reader :: "'p BrokerStream \<Rightarrow> string \<Rightarrow> nat \<Rightarrow> 'r Broker \<Rightarrow> bool" where
  "stream_reader stream i n broker \<longleftrightarrow>
     redis_laws {} (redis broker) \<and> at_position i n (entries stream broker)"

lemma event_try_from_no_timeout: "event_try_from stream e \<noteq> Err ConsumeTimeout"
  by (cases "map_of (snd e) ''payload''"; cases "from_json stream (the (map_of (snd e) ''payload''))")
    (auto simp: event_try_from_def)

text \<open>Consuming one entry moves the reader of its stream by one.\<close>

lemma stream_reader_next:
  assumes "stream_reader stream i n broker" and "get_at (entries stream broker) n = Some e"
    and "event_try_from stream e = Ok ev"
  shows "stream_reader stream (ev_id ev) (Suc n) broker"
  using assms at_position_next [of n "entries stream broker"] event_try_from_id [OF assms(3)]
  by (auto simp: stream_reader_def get_at_eq split: if_splits)

lemma grows_refl: "grows W R r r"
  by (simp add: grows_def)

lemma grows_trans: "\<lbrakk>grows W R r1 r2; grows W R r2 r3\<rbrakk> \<Longrightarrow> grows W R r1 r3"
  unfolding grows_def by (metis prefix_order.trans)

definition broker_grows :: "'r Broker \<Rightarrow> 'r Broker \<Rightarrow> bool" where
  "broker_grows b b' \<longleftrightarrow> redis b' = redis b \<and> grows {} (redis b) (connection b) (connection b')"

lemma broker_grows_trans: "\<lbrakk>broker_grows b1 b2; broker_grows b2 b3\<rbrakk> \<Longrightarrow> broker_grows b1 b3"
  using grows_trans by (auto simp: broker_grows_def)

lemma broker_grows_prefix: "broker_grows b b' \<Longrightarrow> prefix (entries stream b) (entries stream b')"
  using growsD(1) [of "{}" "redis b"] by (auto simp: broker_grows_def entries_def)

lemma consume_blocking_once_reader:
  assumes "stream_reader stream i n broker" and "consume_blocking_once stream i broker = (r, broker')"
  shows "stream_reader stream i n broker' \<and> broker_grows broker broker' \<and>
    ((\<exists>e. r = Err (ConnectionError e)) \<or>
     r = Err ConsumeTimeout \<and> n = length (entries stream broker') \<or>
     reads_next stream n broker' r)"
  using assms consume_blocking_once_cases [of "{}" broker i n stream r broker']
  by (auto simp: stream_reader_def broker_grows_def)

lemma consume_blocking_cases:
  assumes "consume_blocking stream i broker = Some y" and "stream_reader stream i n broker"
  shows "stream_reader stream i n (snd y) \<and> broker_grows broker (snd y) \<and>
    ((\<exists>e. fst y = Err (ConnectionError e)) \<or> reads_next stream n (snd y) (fst y))"
  using assms
proof (induction rule: consume_blocking.raw_induct [rotated 1, consumes 1, case_names step])
  case (step rec stream i broker y)
  obtain r broker' where once: "consume_blocking_once stream i broker = (r, broker')"
    by fastforce
  note reader = consume_blocking_once_reader [OF step.prems once]
  show ?case
  proof (cases "r = Err ConsumeTimeout")
    case True
    then have "rec stream i broker' = Some y"
      using step.hyps once by simp
    then show ?thesis
      using step.IH reader broker_grows_trans by blast
  next
    case False
    then have "y = (r, broker')"
      using step.hyps once by simp
    then show ?thesis
      using reader False by auto
  qed
qed

lemma consume_blocking_returns:
  assumes "stream_reader stream i n broker" and "n < length (entries stream broker)"
  shows "\<exists>y. consume_blocking stream i broker = Some y"
proof -
  obtain r broker' where once: "consume_blocking_once stream i broker = (r, broker')"
    by fastforce
  note reader = consume_blocking_once_reader [OF assms(1) once]
  then have "length (entries stream broker) \<le> length (entries stream broker')"
    using broker_grows_prefix prefix_length_le by blast
  then have "r \<noteq> Err ConsumeTimeout \<or> reads_next stream n broker' r"
    using reader assms(2) by auto
  then have "r \<noteq> Err ConsumeTimeout"
    by (metis reads_next_def event_try_from_no_timeout)
  then show ?thesis
    using once by (simp add: consume_blocking.simps)
qed


text \<open>The payloads are those of the first entries of a stream.\<close>

definition taken :: "'p BrokerStream \<Rightarrow> StreamId list \<Rightarrow> 'p list \<Rightarrow> bool" where
  "taken stream es ps \<longleftrightarrow> length ps \<le> length es \<and>
     (\<forall>k < length ps. \<exists>ev. event_try_from stream (es ! k) = Ok ev \<and> ev_payload ev = ps ! k)"

lemma taken_prefix: "\<lbrakk>taken stream es ps; prefix es es'\<rbrakk> \<Longrightarrow> taken stream es' ps"
  by (auto simp: taken_def prefix_def nth_append)

lemma taken_next:
  "\<lbrakk>taken stream es ps; length ps < length es; event_try_from stream (es ! length ps) = Ok ev\<rbrakk> \<Longrightarrow>
   taken stream es (ps @ [ev_payload ev])"
  by (auto simp: taken_def nth_append less_Suc_eq)

section \<open>The indexer reads both streams\<close>

definition indexer_at :: "nat \<Rightarrow> nat \<Rightarrow> 'r Broker \<times> IndexerState \<Rightarrow> bool" where
  "indexer_at k m s \<longleftrightarrow>
     stream_reader (ix_inputs_stream (snd s)) (inputs_last_id (snd s)) k (fst s) \<and>
     stream_reader (ix_outputs_stream (snd s)) (outputs_last_id (snd s)) m (fst s) \<and>
     stream_key (ix_inputs_stream (snd s)) \<noteq> stream_key (ix_outputs_stream (snd s))"

definition remaining_inputs :: "nat \<Rightarrow> 'r Broker \<times> IndexerState \<Rightarrow> StreamId list" where
  "remaining_inputs k s = drop k (entries (ix_inputs_stream (snd s)) (fst s))"

definition remaining_outputs :: "nat \<Rightarrow> 'r Broker \<times> IndexerState \<Rightarrow> StreamId list" where
  "remaining_outputs m s = drop m (entries (ix_outputs_stream (snd s)) (fst s))"

lemma stream_reader_grows:
  assumes "stream_reader stream i n broker" and "grows W (redis broker) (connection broker) conn"
  shows "stream_reader stream i n (broker\<lparr>connection := conn\<rparr>)"
  using assms at_position_prefix growsD(1) [OF assms(2)]
  by (auto simp: stream_reader_def entries_def)

lemma indexer_reply:
  assumes at: "indexer_at k m (broker, state)"
    and x: "xread_options (redis broker)
      [(stream_key (ix_inputs_stream state), inputs_last_id state),
       (stream_key (ix_outputs_stream state), outputs_last_id state)] t (connection broker) = (reply, conn)"
  shows "indexer_at k m (broker\<lparr>connection := conn\<rparr>, state)"
    and "reply = Inr keys \<Longrightarrow>
      pop_stream_id (stream_key (ix_inputs_stream state)) keys =
        get_at (entries (ix_inputs_stream state) (broker\<lparr>connection := conn\<rparr>)) k \<and>
      pop_stream_id (stream_key (ix_outputs_stream state)) keys =
        get_at (entries (ix_outputs_stream state) (broker\<lparr>connection := conn\<rparr>)) m"
proof -
  let ?R = "redis broker"
  let ?ik = "stream_key (ix_inputs_stream state)" and ?ok = "stream_key (ix_outputs_stream state)"
  have law: "xread_law {} ?R" and ids: "ids_ok (xrange ?R key r)" for key r
    using at by (auto simp: indexer_at_def stream_reader_def redis_laws_def)
  have g: "grows {} ?R (connection broker) conn"
    by (rule xread_lawD(1) [OF law x])
  show at': "indexer_at k m (broker\<lparr>connection := conn\<rparr>, state)"
    using at stream_reader_grows [OF _ g, of "ix_inputs_stream state"]
      stream_reader_grows [OF _ g, of "ix_outputs_stream state"]
    by (simp add: indexer_at_def)
  then have pi: "at_position (inputs_last_id state) k (xrange ?R ?ik conn)"
    and po: "at_position (outputs_last_id state) m (xrange ?R ?ok conn)"
    and neq: "?ik \<noteq> ?ok"
    by (simp_all add: indexer_at_def stream_reader_def entries_def)
  have known: "known_id (snd q) (xrange ?R (fst q) (connection broker))"
    if "q \<in> set [(?ik, inputs_last_id state), (?ok, outputs_last_id state)]" for q
    using that at at_position_known by (auto simp: indexer_at_def stream_reader_def entries_def)
  assume "reply = Inr keys"
  then have "keys = first_after ?R conn (?ik, inputs_last_id state) @ first_after ?R conn (?ok, outputs_last_id state)"
    using xread_lawD(2) [OF law x _ known] by simp
  then show "pop_stream_id ?ik keys = get_at (entries (ix_inputs_stream state) (broker\<lparr>connection := conn\<rparr>)) k \<and>
      pop_stream_id ?ok keys = get_at (entries (ix_outputs_stream state) (broker\<lparr>connection := conn\<rparr>)) m"
    using neq first_after_position [OF ids pi] first_after_position [OF ids po]
    by (auto simp: pop_stream_id_def entries_def get_at_eq)
qed

lemma indexer_consume_steps:
  assumes "indexer_at k m s" and "indexer_consume s = (r, s')"
  shows "ix_inputs_stream (snd s') = ix_inputs_stream (snd s) \<and>
    ix_outputs_stream (snd s') = ix_outputs_stream (snd s) \<and>
    (case r of
       Ok (IndexerInput ev) \<Rightarrow> indexer_at (Suc k) m s' \<and>
         map (event_try_from (ix_inputs_stream (snd s))) (take 1 (remaining_inputs k s')) = [Ok ev]
     | Ok (IndexerOutput ev) \<Rightarrow> indexer_at k (Suc m) s' \<and> remaining_inputs k s' = [] \<and>
         map (event_try_from (ix_outputs_stream (snd s))) (take 1 (remaining_outputs m s')) = [Ok ev]
     | Err e \<Rightarrow> indexer_at k m s' \<and>
         (e = ConsumeTimeout \<longrightarrow> remaining_inputs k s' = [] \<and> remaining_outputs m s' = [])
     | Panic \<Rightarrow> False)"
proof -
  obtain broker state where s: "s = (broker, state)"
    by fastforce
  let ?ins = "ix_inputs_stream state" and ?outs = "ix_outputs_stream state"
  obtain reply conn where x: "xread_options (redis broker)
      [(stream_key ?ins, inputs_last_id state), (stream_key ?outs, outputs_last_id state)]
      (Some (consume_timeout broker)) (connection broker) = (reply, conn)"
    by fastforce
  let ?b = "broker\<lparr>connection := conn\<rparr>"
  have at: "indexer_at k m (broker, state)"
    using assms(1) s by simp
  have at': "indexer_at k m (?b, state)"
    by (rule indexer_reply(1) [OF at x])
  show ?thesis
  proof (cases reply)
    case (Inl e)
    then show ?thesis
      using assms(2) s x at' by (auto simp: indexer_consume_def)
  next
    case (Inr keys)
    note pops = indexer_reply(2) [OF at x Inr]
    show ?thesis
    proof (cases "get_at (entries ?ins ?b) k")
      case (Some e)
      then show ?thesis
        using assms(2) s x Inr pops at' stream_reader_next [of ?ins _ k ?b e] get_at_Some_drop [OF Some]
          event_try_from_no_panic [of ?ins e] event_try_from_no_timeout [of ?ins e]
        by (cases "event_try_from ?ins e")
          (auto simp: indexer_consume_def indexer_at_def remaining_inputs_def Let_def)
    next
      case None
      show ?thesis
      proof (cases "get_at (entries ?outs ?b) m")
        case (Some e)
        then show ?thesis
          using assms(2) s x Inr pops at' None get_at_None_drop [OF None] stream_reader_next [of ?outs _ m ?b e] get_at_Some_drop [OF Some]
            event_try_from_no_panic [of ?outs e] event_try_from_no_timeout [of ?outs e]
          by (cases "event_try_from ?outs e")
            (auto simp: indexer_consume_def indexer_at_def remaining_inputs_def remaining_outputs_def Let_def)
      next
        case out: None
        then show ?thesis
          using assms(2) s x Inr pops at' None get_at_None_drop [OF None] get_at_None_drop [OF out]
          by (auto simp: indexer_consume_def remaining_inputs_def remaining_outputs_def Let_def)
      qed
    qed
  qed
qed

text \<open>The indexer consumes each of its two streams in order, without a gap or a
  repetition, and takes an output only when every input of the input stream has been
  consumed: an input event is the next one of the input stream, an output event comes
  with no input remaining, a timeout means that both streams are exhausted, and an
  error leaves both positions where they were.\<close>

theorem indexer_consume_order:
  assumes "indexer_at k m s" and "indexer_consume s = (r, s')"
  shows "ix_inputs_stream (snd s') = ix_inputs_stream (snd s) \<and>
    ix_outputs_stream (snd s') = ix_outputs_stream (snd s) \<and>
    (case r of
       Ok (IndexerInput ev) \<Rightarrow> indexer_at (Suc k) m s' \<and>
         map (event_try_from (ix_inputs_stream (snd s))) (take 1 (remaining_inputs k s')) = [Ok ev]
     | Ok (IndexerOutput ev) \<Rightarrow> indexer_at k (Suc m) s' \<and> remaining_inputs k s' = [] \<and>
         map (event_try_from (ix_outputs_stream (snd s))) (take 1 (remaining_outputs m s')) = [Ok ev]
     | Err e \<Rightarrow> indexer_at k m s' \<and>
         (e = ConsumeTimeout \<longrightarrow> remaining_inputs k s' = [] \<and> remaining_outputs m s' = [])
     | Panic \<Rightarrow> False)"
  by (rule indexer_consume_steps [OF assms])

section \<open>A server in memory\<close>

text \<open>
  A server that satisfies \<open>redis_laws\<close>, for the concrete instances of the theorems: a
  stream is a list of field lists, and the id of an entry is its position, counted
  from one.  \<open>numbered_stream\<close> is a codec for any countable payload.
\<close>

type_synonym mem_server = "string \<Rightarrow> (string \<times> string) list list"

definition mem_entries :: "(string \<times> string) list list \<Rightarrow> StreamId list" where
  "mem_entries xs = map (\<lambda>n. (show_nat (Suc n), xs ! n)) [0..<length xs]"

definition mem_redis :: "mem_server Redis" where
  "mem_redis = \<lparr>
     xadd = (\<lambda>k fs r. (Inr (show_nat (Suc (length (r k)))), r(k := r k @ [fs]))),
     xrevrange_count = (\<lambda>k r. (Inr (if r k = [] then [] else [last (mem_entries (r k))]), r)),
     xread_options = (\<lambda>qs t r. (Inr (concat (map (\<lambda>q.
        case after_id (snd q) (mem_entries (r (fst q))) of [] \<Rightarrow> [] | e # _ \<Rightarrow> [(fst q, [e])]) qs)), r)),
     xrange = (\<lambda>k r. mem_entries (r k)) \<rparr>"

definition numbered_stream :: "string \<Rightarrow> 'p::countable BrokerStream" where
  "numbered_stream k = \<lparr> stream_key = k, to_json = (\<lambda>p. Inr (show_nat (to_nat p))),
     from_json = (\<lambda>s. Inr (from_nat (read_digits s))) \<rparr>"

lemma mem_entries_append:
  "mem_entries (xs @ [fs]) = mem_entries xs @ [(show_nat (Suc (length xs)), fs)]"
  by (auto simp: mem_entries_def nth_append)

lemma mem_entries_Nil_iff: "mem_entries xs = [] \<longleftrightarrow> xs = []"
  by (auto simp: mem_entries_def)

lemma read_digits_initial: "read_digits INITIAL_ID = 0"
  by (simp add: read_digits_def INITIAL_ID_def)

lemma show_nat_Suc_not_initial: "show_nat (Suc n) \<noteq> INITIAL_ID"
  by (metis read_show_nat read_digits_initial old.nat.distinct(2))

lemma mem_entries_ids_ok: "ids_ok (mem_entries xs)"
  using show_nat_Suc_not_initial [symmetric]
  by (auto simp: ids_ok_def mem_entries_def distinct_map inj_on_def show_nat_inject comp_def)

lemma mem_redis_laws: "redis_laws W mem_redis"
  by (auto simp: redis_laws_def xadd_law_def xrevrange_law_def xread_law_def grows_def mem_redis_def
      mem_entries_append mem_entries_Nil_iff mem_entries_ids_ok first_after_def [abs_def])

lemma numbered_stream_codec: "codec_laws (numbered_stream k)"
  by (simp add: codec_laws_def numbered_stream_def)

definition mem_broker :: "mem_server \<Rightarrow> mem_server Broker" where
  "mem_broker r = \<lparr> connection = r, redis = mem_redis, consume_timeout = 5000 \<rparr>"

lemma mem_broker_simps [simp]:
  "redis (mem_broker r) = mem_redis" "connection (mem_broker r) = r"
  "entries stream (mem_broker r) = mem_entries (r (stream_key stream))"
  by (simp_all add: mem_broker_def entries_def mem_redis_def)

lemma numbered_stream_key [simp]: "stream_key (numbered_stream k) = k"
  by (simp add: numbered_stream_def)

lemma mem_own_stream: "r k = [] \<Longrightarrow> own_stream (numbered_stream k) (mem_broker r)"
  by (simp add: own_stream_def mem_redis_laws numbered_stream_codec decodes_def mem_entries_def)

lemma mem_consume:
  assumes "after_id i (mem_entries (r (stream_key stream))) = e # es"
  shows "consume_blocking stream i (mem_broker r) = Some (event_try_from stream e, mem_broker r)"
proof -
  have "consume_blocking_once stream i (mem_broker r) = (event_try_from stream e, mem_broker r)"
    using assms by (simp add: consume_blocking_once_def mem_broker_def mem_redis_def)
  then show ?thesis
    using event_try_from_no_timeout [of stream e] by (subst consume_blocking.simps) simp
qed

definition mem_one :: "mem_server Broker" where
  "mem_one = mem_broker (\<lambda>_. [[(''payload'', show_nat (to_nat (7 :: nat)))]])"

lemma mem_one_entries: "entries stream mem_one = [(show_nat 1, [(''payload'', show_nat (to_nat (7 :: nat)))])]"
  by (simp add: mem_one_def mem_entries_def)


definition mem_input :: RollupsInput where
  "mem_input = \<lparr> parent_id = INITIAL_ID, epoch_index = 0, inputs_sent_count = 0, ri_data = FinishEpoch \<rparr>"

definition mem_indexer :: "mem_server Broker \<times> IndexerState" where
  "mem_indexer =
     (mem_broker ((\<lambda>_. [])(''in'' := [[(''payload'', show_nat (to_nat mem_input))]],
        ''out'' := [[(''payload'', show_nat 0)]])),
      indexer_state_new (numbered_stream ''in'') (numbered_stream ''out''))"

theorem indexer_consume_order_witness:
  "indexer_at 0 0 mem_indexer \<and>
   fst (indexer_consume mem_indexer) = Ok (IndexerInput \<lparr> ev_id = show_nat 1, ev_payload = mem_input \<rparr>) \<and>
   indexer_at 1 0 (snd (indexer_consume mem_indexer))"
proof -
  have at: "indexer_at 0 0 mem_indexer"
    by (simp add: indexer_at_def mem_indexer_def indexer_state_new_def stream_reader_def
        at_position_initial mem_redis_laws)
  have run: "fst (indexer_consume mem_indexer) = Ok (IndexerInput \<lparr> ev_id = show_nat 1, ev_payload = mem_input \<rparr>)"
    by (simp add: indexer_consume_def mem_indexer_def indexer_state_new_def mem_broker_def mem_redis_def
        mem_entries_def after_id_def pop_stream_id_def event_try_from_def numbered_stream_def Let_def)
  show ?thesis
    using indexer_consume_order [OF at prod.collapse [symmetric]] at run by simp
qed

end
