(* ===== verification/Types_Foldables.thy ===== *)
theory Types_Foldables
  imports Rollups_Events "HOL-Library.Multiset"
begin

text \<open>
  The crate \<open>types\<close>: the state that the state-fold library keeps for the input box
  contract (\<open>foldables.rs\<close>), the pool of shared addresses (\<open>user_data.rs\<close>) and the
  merging iterator (\<open>utils.rs\<close>).  The Ethereum provider is a parameter: the query for
  the events of the contract, the query for a block by its hash and the two bloom
  filter tests.  Reference counting (\<open>Arc\<close>) is transparent.
\<close>

section \<open>Data\<close>

record Block =
  blk_hash :: Hash
  blk_number :: u64
  blk_parent_hash :: Hash
  blk_timestamp :: U256
  blk_logs_bloom :: "byte list"

record InputBoxInitialState =
  is_dapp_address :: Address
  is_input_box_address :: Address

record Input =
  inp_sender :: Address
  inp_payload :: "byte list"
  inp_block_added :: Block
  inp_dapp :: Address
  inp_tx_hash :: Hash

record DAppInputBox =
  dib_inputs :: "Input list"

record InputBox =
  ib_dapp_address :: Address
  ib_input_box_address :: Address
  dapp_input_boxes :: "Address \<rightharpoonup> DAppInputBox"

text \<open>The event \<open>InputAdded\<close> of the contract and the position of its log.\<close>

record InputAddedFilter =
  iaf_dapp :: Address
  iaf_sender :: Address
  iaf_input :: "byte list"

record LogMeta =
  lm_block_hash :: Hash
  lm_block_number :: u64
  lm_transaction_hash :: Hash

datatype FoldableError =
    QueryEventsError string
  | QueryBlockError string
  | BlockHashMismatch
  | BlockNumberMismatch

type_synonym InputQuery = "Address \<Rightarrow> Address \<Rightarrow> string + (InputAddedFilter \<times> LogMeta) list"

section \<open>User data (user_data.rs)\<close>

record UserData =
  addresses :: "Address set"

definition user_data_get :: "Address \<Rightarrow> UserData \<Rightarrow> Address \<times> UserData" where
  "user_data_get address ud =
     (if address \<in> addresses ud then (address, ud)
      else (address, ud\<lparr>addresses := insert address (addresses ud)\<rparr>))"

section \<open>Building inputs (foldables.rs)\<close>

definition meta_consistent_with_block :: "LogMeta \<Rightarrow> Block \<Rightarrow> (FoldableError, unit) outcome" where
  "meta_consistent_with_block meta block =
     bind_outcome (ensure (lm_block_hash meta = blk_hash block) BlockHashMismatch) (\<lambda>_.
       ensure (lm_block_number meta = blk_number block) BlockNumberMismatch)"

definition build_input ::
  "(Hash \<Rightarrow> string + Block) \<Rightarrow> InputAddedFilter \<Rightarrow> LogMeta \<Rightarrow> Block option \<Rightarrow> UserData
   \<Rightarrow> (UserData, FoldableError, Input) action" where
  "build_input block_with_hash event meta block_opt ud =
     and_then
       (case block_opt of
          Some b \<Rightarrow> (Ok b, ud)
        | None \<Rightarrow> (from_result QueryBlockError (block_with_hash (lm_block_hash meta)), ud))
       (\<lambda>block ud.
         and_then (meta_consistent_with_block meta block, ud) (\<lambda>_ ud.
           let (sender, ud) = user_data_get (iaf_sender event) ud;
               (dapp, ud) = user_data_get (iaf_dapp event) ud
           in (Ok \<lparr> inp_sender = sender, inp_payload = iaf_input event, inp_block_added = block,
                   inp_dapp = dapp, inp_tx_hash = lm_transaction_hash meta \<rparr>, ud)))"

fun build_inputs ::
  "(Hash \<Rightarrow> string + Block) \<Rightarrow> Block option \<Rightarrow> (InputAddedFilter \<times> LogMeta) list \<Rightarrow> UserData
   \<Rightarrow> (UserData, FoldableError, Input list) action" where
  "build_inputs block_with_hash block_opt [] ud = (Ok [], ud)"
| "build_inputs block_with_hash block_opt ((event, meta) # events) ud =
     and_then (build_input block_with_hash event meta block_opt ud) (\<lambda>input ud.
       and_then (build_inputs block_with_hash block_opt events ud) (\<lambda>inputs ud.
         (Ok (input # inputs), ud)))"

definition fetch_all_new_inputs ::
  "InputQuery \<Rightarrow> (Hash \<Rightarrow> string + Block) \<Rightarrow> Address \<Rightarrow> Address \<Rightarrow> Block option \<Rightarrow> UserData
   \<Rightarrow> (UserData, FoldableError, Input list) action" where
  "fetch_all_new_inputs provider block_with_hash contract_address dapp_addr block_opt ud =
     and_then (from_result QueryEventsError (provider contract_address dapp_addr), ud) (\<lambda>events ud.
       build_inputs block_with_hash block_opt events ud)"

definition push_input :: "(Address \<rightharpoonup> DAppInputBox) \<Rightarrow> Input \<Rightarrow> (Address \<rightharpoonup> DAppInputBox)" where
  "push_input input_boxes input =
     (case input_boxes (inp_dapp input) of
        Some i \<Rightarrow> input_boxes(inp_dapp input \<mapsto> i\<lparr>dib_inputs := dib_inputs i @ [input]\<rparr>)
      | None \<Rightarrow> input_boxes(inp_dapp input \<mapsto> \<lparr> dib_inputs = [input] \<rparr>))"

definition updated_inputs ::
  "(Address \<rightharpoonup> DAppInputBox) option \<Rightarrow> InputQuery \<Rightarrow> (Hash \<Rightarrow> string + Block) \<Rightarrow> Address \<Rightarrow> Address
   \<Rightarrow> Block option \<Rightarrow> UserData \<Rightarrow> (UserData, FoldableError, Address \<rightharpoonup> DAppInputBox) action" where
  "updated_inputs previous_input_boxes provider block_with_hash contract_address dapp_addr block_opt ud =
     (let input_boxes = (case previous_input_boxes of Some b \<Rightarrow> b | None \<Rightarrow> Map.empty) in
      and_then (fetch_all_new_inputs provider block_with_hash contract_address dapp_addr block_opt ud)
        (\<lambda>new_inputs ud. (Ok (foldl push_input input_boxes new_inputs), ud)))"

definition sync ::
  "InputQuery \<Rightarrow> (Hash \<Rightarrow> string + Block) \<Rightarrow> InputBoxInitialState \<Rightarrow> UserData
   \<Rightarrow> (UserData, FoldableError, InputBox) action" where
  "sync access block_with_hash initial_state ud =
     and_then
       (updated_inputs None access block_with_hash (is_input_box_address initial_state)
          (is_dapp_address initial_state) None ud)
       (\<lambda>boxes ud.
         (Ok \<lparr> ib_dapp_address = is_dapp_address initial_state,
              ib_input_box_address = is_input_box_address initial_state,
              dapp_input_boxes = boxes \<rparr>, ud))"

text \<open>
  The bloom filter tests of the library, and the topic of the event's signature.
\<close>

record BloomTests =
  contains_address :: "byte list \<Rightarrow> Address \<Rightarrow> bool"
  contains_topic :: "byte list \<Rightarrow> byte list \<Rightarrow> bool"
  input_added_signature :: "byte list"

definition fold_state ::
  "BloomTests \<Rightarrow> InputQuery \<Rightarrow> (Hash \<Rightarrow> string + Block) \<Rightarrow> InputBox \<Rightarrow> Block \<Rightarrow> UserData
   \<Rightarrow> (UserData, FoldableError, InputBox) action" where
  "fold_state bloom access block_with_hash previous_state block ud =
     (if \<not> contains_address bloom (blk_logs_bloom block) (ib_input_box_address previous_state)
         \<or> \<not> contains_topic bloom (blk_logs_bloom block) (ib_dapp_address previous_state)
         \<or> \<not> contains_topic bloom (blk_logs_bloom block) (input_added_signature bloom)
      then (Ok previous_state, ud)
      else
        and_then
          (updated_inputs (Some (dapp_input_boxes previous_state)) access block_with_hash
             (ib_input_box_address previous_state) (ib_dapp_address previous_state) None ud)
          (\<lambda>boxes ud.
            (Ok \<lparr> ib_dapp_address = ib_dapp_address previous_state,
                 ib_input_box_address = ib_input_box_address previous_state,
                 dapp_input_boxes = boxes \<rparr>, ud)))"

section \<open>Merging two ascending iterators (utils.rs)\<close>

text \<open>The items that the two iterators still hold.\<close>

record 'a MergeAscending =
  left :: "'a list"
  right :: "'a list"

fun merge_next :: "'a::linorder MergeAscending \<Rightarrow> 'a option \<times> 'a MergeAscending" where
  "merge_next it =
     (case (left it, right it) of
        (l # ls, r # rs) \<Rightarrow>
          if l \<le> r then (Some l, it\<lparr>left := ls\<rparr>) else (Some r, it\<lparr>right := rs\<rparr>)
      | (l # ls, []) \<Rightarrow> (Some l, it\<lparr>left := ls\<rparr>)
      | ([], r # rs) \<Rightarrow> (Some r, it\<lparr>right := rs\<rparr>)
      | ([], []) \<Rightarrow> (None, it))"

fun merge_size_hint ::
  "u64 \<times> u64 option \<Rightarrow> u64 \<times> u64 option \<Rightarrow> u64 \<times> u64 option" where
  "merge_size_hint (ll, lu) (rl, ru) =
     (ll + rl, case (lu, ru) of (Some l, Some r) \<Rightarrow> Some (l + r) | _ \<Rightarrow> None)"

text \<open>Draining the iterator, as a \<open>for\<close> loop over it does.\<close>

function drain :: "'a::linorder MergeAscending \<Rightarrow> 'a list" where
  "drain it =
     (case merge_next it of (None, _) \<Rightarrow> [] | (Some x, it') \<Rightarrow> x # drain it')"
  by pat_completeness auto

termination drain
  by (relation "measure (\<lambda>it. length (left it) + length (right it))")
    (auto split: list.splits if_splits)

section \<open>The input boxes only grow\<close>

definition inputs_of :: "(Address \<rightharpoonup> DAppInputBox) \<Rightarrow> Address \<Rightarrow> Input list" where
  "inputs_of boxes d = (case boxes d of None \<Rightarrow> [] | Some b \<Rightarrow> dib_inputs b)"

text \<open>An input that a log of the chain justifies.\<close>

definition input_from_log ::
  "(Hash \<Rightarrow> string + Block) \<Rightarrow> InputAddedFilter \<times> LogMeta \<Rightarrow> Input \<Rightarrow> bool" where
  "input_from_log block_with_hash log input \<longleftrightarrow>
     block_with_hash (lm_block_hash (snd log)) = Inr (inp_block_added input) \<and>
     blk_hash (inp_block_added input) = lm_block_hash (snd log) \<and>
     blk_number (inp_block_added input) = lm_block_number (snd log) \<and>
     inp_sender input = iaf_sender (fst log) \<and> inp_payload input = iaf_input (fst log) \<and>
     inp_dapp input = iaf_dapp (fst log) \<and> inp_tx_hash input = lm_transaction_hash (snd log)"

text \<open>The bloom filter of a block has no false negatives.\<close>

definition bloom_complete ::
  "BloomTests \<Rightarrow> Block \<Rightarrow> Address \<Rightarrow> Address \<Rightarrow> (InputAddedFilter \<times> LogMeta) list \<Rightarrow> bool" where
  "bloom_complete bloom block contract dapp events \<longleftrightarrow>
     (events \<noteq> [] \<longrightarrow>
        contains_address bloom (blk_logs_bloom block) contract \<and>
        contains_topic bloom (blk_logs_bloom block) dapp \<and>
        contains_topic bloom (blk_logs_bloom block) (input_added_signature bloom))"

lemma user_data_get_fst [simp]: "fst (user_data_get a ud) = a"
  by (simp add: user_data_get_def)

lemma user_data_get_interns:
  "addresses (snd (user_data_get a ud)) = insert a (addresses ud)"
  by (auto simp: user_data_get_def)

lemma inputs_of_push:
  "inputs_of (push_input boxes i) d = inputs_of boxes d @ (if inp_dapp i = d then [i] else [])"
  by (auto simp: inputs_of_def push_input_def split: option.splits)

lemma inputs_of_pushes:
  "inputs_of (foldl push_input boxes ins) d = inputs_of boxes d @ filter (\<lambda>i. inp_dapp i = d) ins"
  by (induction ins arbitrary: boxes) (auto simp: inputs_of_push)

lemma build_input_Ok:
  assumes "build_input bwh event meta None ud = (Ok input, ud')"
  shows "input_from_log bwh (event, meta) input"
proof (cases "bwh (lm_block_hash meta)")
  case (Inl e)
  then show ?thesis
    using assms by (simp add: build_input_def)
next
  case (Inr block)
  then show ?thesis
    using assms
    by (auto simp: build_input_def and_then_Ok_iff meta_consistent_with_block_def bind_outcome_Ok_iff
        input_from_log_def user_data_get_def Let_def split: if_splits)
qed

lemma build_inputs_Ok:
  "build_inputs bwh None events ud = (Ok inputs, ud') \<Longrightarrow> list_all2 (input_from_log bwh) events inputs"
  by (induction bwh "None :: Block option" events ud arbitrary: inputs ud' rule: build_inputs.induct)
    (auto simp: and_then_Ok_iff dest: build_input_Ok)

lemma build_inputs_append:
  "build_inputs bwh b (es @ es') ud =
     and_then (build_inputs bwh b es ud) (\<lambda>ins ud.
       and_then (build_inputs bwh b es' ud) (\<lambda>ins' ud. (Ok (ins @ ins'), ud)))"
proof (induction es arbitrary: ud)
  case Nil
  show ?case by simp
next
  case (Cons e es)
  then show ?case
    by (cases e) (simp add: and_then_assoc)
qed

text \<open>Folding a block into the state only appends: the inputs of every dapp grow by
  new inputs at the end, in the order of the logs, each justified by a log of the block
  whose hash and number agree with the block it names; the addresses of the state stay.\<close>

theorem fold_appends:
  assumes "fold_state bloom access bwh st block ud = (Ok st', ud')"
  shows "ib_dapp_address st' = ib_dapp_address st \<and> ib_input_box_address st' = ib_input_box_address st \<and>
    (\<exists>logs news. list_all2 (input_from_log bwh) logs news \<and>
       (logs \<noteq> [] \<longrightarrow> access (ib_input_box_address st) (ib_dapp_address st) = Inr logs) \<and>
       (\<forall>d. inputs_of (dapp_input_boxes st') d =
            inputs_of (dapp_input_boxes st) d @ filter (\<lambda>i. inp_dapp i = d) news))"
proof (cases "st' = st")
  case True
  then show ?thesis
    by (auto intro!: exI [of _ "[]"])
next
  case False
  then obtain logs news where q: "access (ib_input_box_address st) (ib_dapp_address st) = Inr logs"
    and "build_inputs bwh None logs ud = (Ok news, ud')"
    and st': "st' = st\<lparr>dapp_input_boxes := foldl push_input (dapp_input_boxes st) news\<rparr>"
    using assms
    by (cases "access (ib_input_box_address st) (ib_dapp_address st)")
      (auto simp: fold_state_def updated_inputs_def fetch_all_new_inputs_def and_then_Ok_iff Let_def
        split: if_splits)
  then show ?thesis
    using build_inputs_Ok by (auto simp: inputs_of_pushes intro!: exI [of _ logs] exI [of _ news])
qed

text \<open>C17: folding a block into a synchronized state gives what synchronizing again over
  the longer history gives, errors and the pool of addresses included, as long as the
  bloom filter of the block has no false negatives.\<close>

theorem fold_after_sync:
  assumes "sync access0 bwh init ud = (Ok st, ud0)"
    and "access0 (is_input_box_address init) (is_dapp_address init) = Inr es0"
    and "access1 (is_input_box_address init) (is_dapp_address init) = Inr es1"
    and "access (is_input_box_address init) (is_dapp_address init) = Inr (es0 @ es1)"
    and "bloom_complete bloom block (is_input_box_address init) (is_dapp_address init) es1"
  shows "fold_state bloom access1 bwh st block ud0 = sync access bwh init ud"
proof -
  obtain ins where b: "build_inputs bwh None es0 ud = (Ok ins, ud0)"
    and st: "st = \<lparr> ib_dapp_address = is_dapp_address init, ib_input_box_address = is_input_box_address init,
      dapp_input_boxes = foldl push_input Map.empty ins \<rparr>"
    using assms(1,2) by (auto simp: sync_def updated_inputs_def fetch_all_new_inputs_def and_then_Ok_iff)
  then show ?thesis
    using assms(2-5)
    by (cases "es1 = []")
      (auto simp: fold_state_def sync_def updated_inputs_def fetch_all_new_inputs_def
        build_inputs_append and_then_assoc bloom_complete_def)
qed

definition example_block :: Block where
  "example_block = \<lparr> blk_hash = [1], blk_number = 5, blk_parent_hash = [0], blk_timestamp = 100,
     blk_logs_bloom = [] \<rparr>"

definition example_log :: "InputAddedFilter \<times> LogMeta" where
  "example_log = (\<lparr> iaf_dapp = [7], iaf_sender = [8], iaf_input = [9] \<rparr>,
     \<lparr> lm_block_hash = [1], lm_block_number = 5, lm_transaction_hash = [2] \<rparr>)"

definition example_bloom :: BloomTests where
  "example_bloom = \<lparr> contains_address = (\<lambda>_ _. True), contains_topic = (\<lambda>_ _. True),
     input_added_signature = [] \<rparr>"

definition example_init :: InputBoxInitialState where
  "example_init = \<lparr> is_dapp_address = [7], is_input_box_address = [6] \<rparr>"

definition example_box :: InputBox where
  "example_box = \<lparr> ib_dapp_address = [7], ib_input_box_address = [6], dapp_input_boxes = Map.empty \<rparr>"

lemmas example_defs = example_block_def example_log_def example_bloom_def example_init_def example_box_def

definition example_fold :: "(UserData, FoldableError, InputBox) action" where
  "example_fold = fold_state example_bloom (\<lambda>_ _. Inr [example_log]) (\<lambda>_. Inr example_block) example_box
     example_block \<lparr> addresses = {} \<rparr>"

definition example_folded :: InputBox where
  "example_folded = example_box\<lparr>dapp_input_boxes := [[7] \<mapsto> \<lparr> dib_inputs = [\<lparr> inp_sender = [8], inp_payload = [9],
     inp_block_added = example_block, inp_dapp = [7], inp_tx_hash = [2] \<rparr>] \<rparr>]\<rparr>"

lemma example_fold_eq: "example_fold = (Ok example_folded, \<lparr> addresses = {[7], [8]} \<rparr>)"
  by (auto simp: example_fold_def example_folded_def example_defs fold_state_def updated_inputs_def
      fetch_all_new_inputs_def build_input_def meta_consistent_with_block_def user_data_get_def push_input_def)

theorem fold_appends_witness:
  "\<exists>logs news. list_all2 (input_from_log (\<lambda>_. Inr example_block)) logs news \<and>
     inputs_of (dapp_input_boxes example_folded) [7] = filter (\<lambda>i. inp_dapp i = [7]) news"
proof -
  have "inputs_of (dapp_input_boxes example_box) d = []" for d
    by (simp add: example_box_def inputs_of_def)
  then show ?thesis
    using fold_appends [OF example_fold_eq [unfolded example_fold_def]] by (metis append_Nil)
qed

theorem fold_after_sync_witness:
  "fold_state example_bloom (\<lambda>_ _. Inr [example_log]) (\<lambda>_. Inr example_block) example_box example_block
     \<lparr> addresses = {} \<rparr>
   = sync (\<lambda>_ _. Inr [example_log]) (\<lambda>_. Inr example_block) example_init \<lparr> addresses = {} \<rparr>"
proof -
  have sync0: "sync (\<lambda>_ _. Inr []) (\<lambda>_. Inr example_block) example_init \<lparr> addresses = {} \<rparr>
      = (Ok example_box, \<lparr> addresses = {} \<rparr>)"
    by (simp add: sync_def updated_inputs_def fetch_all_new_inputs_def example_init_def example_box_def)
  have bloom: "bloom_complete example_bloom example_block (is_input_box_address example_init)
      (is_dapp_address example_init) [example_log]"
    by (simp add: bloom_complete_def example_bloom_def)
  show ?thesis
    by (rule fold_after_sync [OF sync0 _ _ _ bloom]) simp_all
qed

section \<open>Merging\<close>

declare drain.simps [simp del]

lemma drain_merge:
  assumes "sorted (left it)" and "sorted (right it)"
  shows "sorted (drain it) \<and> mset (drain it) = mset (left it) + mset (right it)"
  using assms
proof (induction it rule: drain.induct)
  case (1 it)
  show ?case
  proof (cases "merge_next it")
    case (Pair x it')
    show ?thesis
    proof (cases x)
      case None
      then show ?thesis
        using Pair by (subst (1 2) drain.simps) (auto split: list.splits if_splits)
    next
      case (Some y)
      have srt: "sorted (left it')" "sorted (right it')"
        and ms: "mset (left it) + mset (right it) = add_mset y (mset (left it') + mset (right it'))"
        and least: "\<forall>z \<in> set (left it') \<union> set (right it'). y \<le> z"
        using "1.prems" Pair Some by (fastforce split: list.splits if_splits)+
      note IH = "1.IH" [OF Pair [symmetric] Some srt]
      then have "set (drain it') = set (left it') \<union> set (right it')"
        by (metis set_mset_mset set_mset_union)
      moreover have "drain it = y # drain it'"
        using Pair Some by (subst drain.simps) simp
      ultimately show ?thesis
        using IH ms least by simp
    qed
  qed
qed

text \<open>The merging iterator yields every item of both sides exactly once, and yields
  them in ascending order when both sides are ascending.\<close>

theorem merge_ascending_sorted:
  assumes "sorted xs" and "sorted ys"
  shows "sorted (drain \<lparr> left = xs, right = ys \<rparr>) \<and>
    mset (drain \<lparr> left = xs, right = ys \<rparr>) = mset xs + mset ys"
  using drain_merge [of "\<lparr> left = xs, right = ys \<rparr>"] assms by simp

theorem merge_ascending_sorted_witness:
  "sorted (drain \<lparr> left = [1, 4], right = [2, 3 :: nat] \<rparr>) \<and>
   mset (drain \<lparr> left = [1, 4], right = [2, 3 :: nat] \<rparr>) = mset [1, 4, 2, 3]"
  using merge_ascending_sorted [of "[1, 4]" "[2, 3 :: nat]"] by simp

end
