(* ===== verification/Dispatcher_Facade.thy ===== *)
theory Dispatcher_Facade
  imports Broker Types_Foldables
begin

text \<open>
  The broker facade of the dispatcher (\<open>machine/mod.rs\<close> and
  \<open>machine/rollups_broker.rs\<close>).  The facade owns the inputs stream: before each
  event it reads the last one and continues the chain of parent ids, epoch numbers and
  input counts from there.  \<open>inputs_chain\<close> says what a well-formed inputs stream is, and
  the locale \<open>broker_send\<close> is the contract of the trait \<open>BrokerSend\<close> that the drivers
  rely on.
\<close>

section \<open>The interface (machine/mod.rs)\<close>

record RollupStatus =
  rs_inputs_sent_count :: u64

datatype BrokerFacadeError =
    BrokerConnectionError BrokerError
  | PeekInputError BrokerError
  | ProduceInputError BrokerError
  | ProduceFinishError BrokerError

text \<open>The trait \<open>BrokerSend\<close>: its two operations on a broker of any type.\<close>

record 'b BrokerSend =
  send_input :: "u64 \<Rightarrow> Input \<Rightarrow> 'b \<Rightarrow> ('b, BrokerFacadeError, unit) action"
  send_finish :: "u64 \<Rightarrow> 'b \<Rightarrow> ('b, BrokerFacadeError, unit) action"

section \<open>The facade (machine/rollups_broker.rs)\<close>

record 'r BrokerFacade =
  bf_broker :: "'r Broker"
  inputs_stream :: "RollupsInput BrokerStream"

record BrokerStreamStatus =
  bss_id :: string
  epoch_number :: u64
  bss_status :: RollupStatus

definition with_broker ::
  "('r Broker \<Rightarrow> ('r Broker, BrokerError, 'a) action) \<Rightarrow> (BrokerError \<Rightarrow> BrokerFacadeError)
   \<Rightarrow> 'r BrokerFacade \<Rightarrow> ('r BrokerFacade, BrokerFacadeError, 'a) action" where
  "with_broker f err facade =
     (case f (bf_broker facade) of (r, b) \<Rightarrow> (map_err err r, facade\<lparr>bf_broker := b\<rparr>))"

definition broker_facade_new ::
  "(string + 'r Broker) \<Rightarrow> RollupsInput BrokerStream \<Rightarrow> (BrokerFacadeError, 'r BrokerFacade) outcome" where
  "broker_facade_new connected stream =
     bind_outcome (from_result (\<lambda>e. BrokerConnectionError (ConnectionError e)) connected) (\<lambda>b.
       Ok \<lparr> bf_broker = b, inputs_stream = stream \<rparr>)"

definition peek ::
  "'r BrokerFacade \<Rightarrow> ('r BrokerFacade, BrokerFacadeError, RollupsInput Event option) action" where
  "peek facade = with_broker (peek_latest (inputs_stream facade)) PeekInputError facade"

definition rollup_status_from :: "RollupsInput \<Rightarrow> RollupStatus" where
  "rollup_status_from payload = \<lparr> rs_inputs_sent_count = inputs_sent_count payload \<rparr>"

definition stream_status_from_event :: "RollupsInput Event \<Rightarrow> BrokerStreamStatus" where
  "stream_status_from_event event =
     (let payload = ev_payload event in
      case ri_data payload of
        AdvanceStateInput _ \<Rightarrow>
          \<lparr> bss_id = ev_id event, epoch_number = epoch_index payload,
            bss_status = rollup_status_from payload \<rparr>
      | FinishEpoch \<Rightarrow>
          \<lparr> bss_id = ev_id event, epoch_number = epoch_index payload + 1,
            bss_status = rollup_status_from payload \<rparr>)"

fun stream_status_from :: "RollupsInput Event option \<Rightarrow> BrokerStreamStatus" where
  "stream_status_from (Some e) = stream_status_from_event e"
| "stream_status_from None =
     \<lparr> bss_id = INITIAL_ID, epoch_number = 0, bss_status = \<lparr> rs_inputs_sent_count = 0 \<rparr> \<rparr>"

definition broker_status ::
  "'r BrokerFacade \<Rightarrow> ('r BrokerFacade, BrokerFacadeError, BrokerStreamStatus) action" where
  "broker_status facade =
     and_then (peek facade) (\<lambda>event facade.
       let old_epoch_index = (case event of Some e \<Rightarrow> epoch_index (ev_payload e) | None \<Rightarrow> 0);
           status = stream_status_from event;
           new_epoch_index = epoch_number status
       in and_then
            (assert_that (new_epoch_index = old_epoch_index \<or> new_epoch_index = old_epoch_index + 1), facade)
            (\<lambda>_ facade. (Ok status, facade)))"

definition facade_status ::
  "'r BrokerFacade \<Rightarrow> ('r BrokerFacade, BrokerFacadeError, RollupStatus) action" where
  "facade_status facade =
     and_then (broker_status facade) (\<lambda>status facade. (Ok (bss_status status), facade))"

definition input_sanity_check :: "RollupsInput \<Rightarrow> u64 \<Rightarrow> ('e, unit) outcome" where
  "input_sanity_check event input_index =
     bind_outcome (assert_that (inputs_sent_count event = input_index + 1)) (\<lambda>_.
       bind_outcome
         (assert_that (case ri_data event of
            AdvanceStateInput a \<Rightarrow> im_epoch_index (adv_metadata a) = 0 | FinishEpoch \<Rightarrow> False)) (\<lambda>_.
         assert_that (case ri_data event of
            AdvanceStateInput a \<Rightarrow> im_input_index (adv_metadata a) = input_index | FinishEpoch \<Rightarrow> False)))"

definition epoch_sanity_check :: "RollupsInput \<Rightarrow> u64 \<Rightarrow> ('e, unit) outcome" where
  "epoch_sanity_check event sent_count =
     bind_outcome (assert_that (inputs_sent_count event = sent_count)) (\<lambda>_.
       assert_that (ri_data event = FinishEpoch))"

text \<open>\<open>U256::as_u64\<close> panics on a value that does not fit.\<close>

definition u256_as_u64 :: "U256 \<Rightarrow> ('e, u64) outcome" where
  "u256_as_u64 w = (if unat w < 2 ^ 64 then Ok (ucast w) else Panic)"

definition build_next_input :: "Input \<Rightarrow> BrokerStreamStatus \<Rightarrow> ('e, RollupsInput) outcome" where
  "build_next_input input status =
     bind_outcome (u256_as_u64 (blk_timestamp (inp_block_added input))) (\<lambda>timestamp.
       let metadata =
             \<lparr> msg_sender = inp_sender input,
               im_block_number = blk_number (inp_block_added input),
               im_timestamp = timestamp,
               im_epoch_index = 0,
               im_input_index = rs_inputs_sent_count (bss_status status) \<rparr>
       in Ok \<lparr> parent_id = bss_id status,
               epoch_index = epoch_number status,
               inputs_sent_count = rs_inputs_sent_count (bss_status status) + 1,
               ri_data = AdvanceStateInput
                 \<lparr> adv_metadata = metadata, adv_payload = inp_payload input,
                   adv_tx_hash = inp_tx_hash input \<rparr> \<rparr>)"

definition build_next_finish_epoch :: "BrokerStreamStatus \<Rightarrow> RollupsInput" where
  "build_next_finish_epoch status =
     \<lparr> parent_id = bss_id status,
       epoch_index = epoch_number status,
       inputs_sent_count = rs_inputs_sent_count (bss_status status),
       ri_data = FinishEpoch \<rparr>"

definition facade_enqueue_input ::
  "u64 \<Rightarrow> Input \<Rightarrow> 'r BrokerFacade \<Rightarrow> ('r BrokerFacade, BrokerFacadeError, unit) action" where
  "facade_enqueue_input input_index input facade =
     and_then (broker_status facade) (\<lambda>status facade.
       and_then (build_next_input input status, facade) (\<lambda>event facade.
         and_then (input_sanity_check event input_index, facade) (\<lambda>_ facade.
           and_then (with_broker (produce (inputs_stream facade) event) ProduceInputError facade) (\<lambda>_ facade.
             (Ok (), facade)))))"

definition facade_finish_epoch ::
  "u64 \<Rightarrow> 'r BrokerFacade \<Rightarrow> ('r BrokerFacade, BrokerFacadeError, unit) action" where
  "facade_finish_epoch sent_count facade =
     and_then (broker_status facade) (\<lambda>status facade.
       let event = build_next_finish_epoch status in
       and_then (epoch_sanity_check event sent_count, facade) (\<lambda>_ facade.
         and_then (with_broker (produce (inputs_stream facade) event) ProduceFinishError facade) (\<lambda>_ facade.
           (Ok (), facade))))"

definition facade_send :: "'r BrokerFacade BrokerSend" where
  "facade_send = \<lparr> send_input = facade_enqueue_input, send_finish = facade_finish_epoch \<rparr>"

section \<open>Well-formed inputs streams\<close>

definition is_advance :: "RollupsData \<Rightarrow> bool" where
  "is_advance d = (case d of AdvanceStateInput _ \<Rightarrow> True | FinishEpoch \<Rightarrow> False)"

definition count_inputs :: "RollupsData list \<Rightarrow> nat" where
  "count_inputs ds = length (filter is_advance ds)"

definition count_finishes :: "RollupsData list \<Rightarrow> nat" where
  "count_finishes ds = length (filter (\<lambda>d. \<not> is_advance d) ds)"

definition log_data :: "RollupsInput Event list \<Rightarrow> RollupsData list" where
  "log_data evs = map (ri_data \<circ> ev_payload) evs"

text \<open>The status that follows from the whole stream, not only from its last event.\<close>

definition status_of :: "RollupsInput Event list \<Rightarrow> BrokerStreamStatus" where
  "status_of evs =
     \<lparr> bss_id = (if evs = [] then INITIAL_ID else ev_id (last evs)),
       epoch_number = of_nat (count_finishes (log_data evs)),
       bss_status = \<lparr> rs_inputs_sent_count = of_nat (count_inputs (log_data evs)) \<rparr> \<rparr>"

text \<open>An event that continues a stream with a given status.\<close>

definition continues :: "BrokerStreamStatus \<Rightarrow> RollupsInput \<Rightarrow> bool" where
  "continues st p \<longleftrightarrow>
     parent_id p = bss_id st \<and> epoch_index p = epoch_number st \<and>
     (case ri_data p of
        AdvanceStateInput a \<Rightarrow>
          inputs_sent_count p = rs_inputs_sent_count (bss_status st) + 1 \<and>
          im_input_index (adv_metadata a) = rs_inputs_sent_count (bss_status st) \<and>
          im_epoch_index (adv_metadata a) = 0
      | FinishEpoch \<Rightarrow> inputs_sent_count p = rs_inputs_sent_count (bss_status st))"

definition inputs_chain :: "RollupsInput Event list \<Rightarrow> bool" where
  "inputs_chain evs \<longleftrightarrow>
     (\<forall>k < length evs. continues (status_of (take k evs)) (ev_payload (evs ! k)))"

definition advance_data :: "u64 \<Rightarrow> Input \<Rightarrow> RollupsData" where
  "advance_data i input = AdvanceStateInput
     \<lparr> adv_metadata =
         \<lparr> msg_sender = inp_sender input, im_block_number = blk_number (inp_block_added input),
           im_timestamp = ucast (blk_timestamp (inp_block_added input)), im_epoch_index = 0,
           im_input_index = i \<rparr>,
       adv_payload = inp_payload input, adv_tx_hash = inp_tx_hash input \<rparr>"

definition timestamp_fits :: "Input \<Rightarrow> bool" where
  "timestamp_fits input \<longleftrightarrow> unat (blk_timestamp (inp_block_added input)) < 2 ^ 64"

definition facade_log :: "'r BrokerFacade \<Rightarrow> RollupsInput Event list" where
  "facade_log f = stream_log (inputs_stream f) (bf_broker f)"

definition facade_inv :: "'r BrokerFacade \<Rightarrow> bool" where
  "facade_inv f \<longleftrightarrow> own_stream (inputs_stream f) (bf_broker f) \<and> inputs_chain (facade_log f)"

definition facade_sent :: "'r BrokerFacade \<Rightarrow> RollupsData list" where
  "facade_sent f = log_data (facade_log f)"

lemma count_inputs_simps [simp]:
  "count_inputs [] = 0"
  "count_inputs (ds @ ds') = count_inputs ds + count_inputs ds'"
  "count_inputs [AdvanceStateInput a] = 1"
  "count_inputs [FinishEpoch] = 0"
  by (simp_all add: count_inputs_def is_advance_def)

lemma count_finishes_simps [simp]:
  "count_finishes [] = 0"
  "count_finishes (ds @ ds') = count_finishes ds + count_finishes ds'"
  "count_finishes [AdvanceStateInput a] = 0"
  "count_finishes [FinishEpoch] = 1"
  by (simp_all add: count_finishes_def is_advance_def)

lemma log_data_simps [simp]:
  "log_data [] = []"
  "log_data (evs @ evs') = log_data evs @ log_data evs'"
  "log_data [ev] = [ri_data (ev_payload ev)]"
  by (simp_all add: log_data_def)

lemma inputs_chain_Nil [simp]: "inputs_chain []"
  by (simp add: inputs_chain_def)

lemma inputs_chain_snoc:
  "inputs_chain (evs @ [ev]) \<longleftrightarrow> inputs_chain evs \<and> continues (status_of evs) (ev_payload ev)"
  by (auto simp: inputs_chain_def nth_append less_Suc_eq)

text \<open>In a well-formed stream the last event alone determines the status.\<close>

lemma stream_status_from_snoc:
  "continues (status_of evs) (ev_payload ev) \<Longrightarrow>
   stream_status_from (Some ev) = status_of (evs @ [ev])"
  by (cases "ri_data (ev_payload ev)")
    (auto simp: stream_status_from_event_def rollup_status_from_def continues_def status_of_def Let_def)

lemma stream_status_from_last:
  "inputs_chain evs \<Longrightarrow>
   stream_status_from (if evs = [] then None else Some (last evs)) = status_of evs"
proof (induction evs rule: rev_induct)
  case Nil
  then show ?case by (simp add: status_of_def)
next
  case (snoc ev evs)
  then show ?case
    using stream_status_from_snoc by (simp add: inputs_chain_snoc)
qed

lemma epoch_number_continuous:
  "epoch_number (stream_status_from event) = (case event of Some e \<Rightarrow> epoch_index (ev_payload e) | None \<Rightarrow> 0) \<or>
   epoch_number (stream_status_from event) = (case event of Some e \<Rightarrow> epoch_index (ev_payload e) | None \<Rightarrow> 0) + 1"
  by (cases event) (auto simp: stream_status_from_event_def Let_def split: RollupsData.splits)

text \<open>Reading the status never panics; it returns the status of the whole stream.\<close>

lemma broker_status_cases:
  assumes "facade_inv f"
  obtains (Ok) f' where "broker_status f = (Ok (status_of (facade_log f)), f')"
      and "facade_inv f'" and "facade_log f' = facade_log f" and "inputs_stream f' = inputs_stream f"
    | (Err) e f' where "broker_status f = (Err e, f')" and "facade_inv f'" and "facade_log f' = facade_log f"
proof -
  let ?s = "inputs_stream f"
  have own: "own_stream ?s (bf_broker f)" and chain: "inputs_chain (facade_log f)"
    using assms by (simp_all add: facade_inv_def)
  from own show ?thesis
  proof (cases rule: own.peek_cases)
    case (Ok b)
    then have "peek f = (Ok (if facade_log f = [] then None else Some (last (facade_log f))), f\<lparr>bf_broker := b\<rparr>)"
      by (simp add: peek_def with_broker_def facade_log_def)
    then have "broker_status f = (Ok (status_of (facade_log f)), f\<lparr>bf_broker := b\<rparr>)"
      using epoch_number_continuous [of "if facade_log f = [] then None else Some (last (facade_log f))"]
      by (auto simp: broker_status_def Let_def stream_status_from_last [OF chain])
    then show ?thesis
      using Ok chain by (intro that(1) [of "f\<lparr>bf_broker := b\<rparr>"]) (auto simp: facade_inv_def facade_log_def)
  next
    case (Err e b)
    then have "broker_status f = (Err (PeekInputError e), f\<lparr>bf_broker := b\<rparr>)"
      by (simp add: broker_status_def peek_def with_broker_def)
    then show ?thesis
      using Err chain by (intro that(2) [of _ "f\<lparr>bf_broker := b\<rparr>"]) (auto simp: facade_inv_def facade_log_def)
  qed
qed

text \<open>Producing an event that continues the stream keeps it well-formed.\<close>

lemma produce_continues_cases:
  assumes "facade_inv f" and "continues (status_of (facade_log f)) p"
  obtains (Ok) i f' where "with_broker (produce (inputs_stream f) p) err f = (Ok i, f')"
      and "facade_inv f'" and "facade_sent f' = facade_sent f @ [ri_data p]"
    | (Err) e f' where "with_broker (produce (inputs_stream f) p) err f = (Err e, f')"
      and "facade_inv f'" and "facade_sent f' = facade_sent f \<or> facade_sent f' = facade_sent f @ [ri_data p]"
proof -
  let ?s = "inputs_stream f"
  have own: "own_stream ?s (bf_broker f)" and chain: "inputs_chain (facade_log f)"
    using assms by (simp_all add: facade_inv_def)
  have ext: "inputs_chain (facade_log f @ [\<lparr> ev_id = i, ev_payload = p \<rparr>])" for i
    using chain assms(2) by (simp add: inputs_chain_snoc)
  from own show ?thesis
  proof (cases rule: own.put_cases [where p = p])
    case (Ok i b)
    then show ?thesis
      using ext by (intro that(1) [of i "f\<lparr>bf_broker := b\<rparr>"])
        (auto simp: with_broker_def facade_inv_def facade_log_def facade_sent_def)
  next
    case (Err e b)
    then show ?thesis
      using ext chain by (intro that(2) [of "err e" "f\<lparr>bf_broker := b\<rparr>"])
        (auto simp: with_broker_def facade_inv_def facade_log_def facade_sent_def)
  qed
qed

section \<open>The contract of the trait BrokerSend\<close>

text \<open>
  Sending the next input appends its data, finishing an epoch appends \<open>FinishEpoch\<close>, and
  a failure leaves the log as it was or with that event; none of them panics when the
  index and the count that the caller passes agree with the log.
\<close>

locale broker_send =
  fixes B :: "'b BrokerSend" and inv :: "'b \<Rightarrow> bool" and sent :: "'b \<Rightarrow> RollupsData list"
  assumes send_input_step: "\<lbrakk>inv b; timestamp_fits x; i = of_nat (count_inputs (sent b))\<rbrakk> \<Longrightarrow>
      (\<exists>b'. send_input B i x b = (Ok (), b') \<and> inv b' \<and> sent b' = sent b @ [advance_data i x]) \<or>
      (\<exists>e b'. send_input B i x b = (Err e, b') \<and> inv b' \<and>
         (sent b' = sent b \<or> sent b' = sent b @ [advance_data i x]))"
    and send_finish_step: "\<lbrakk>inv b; i = of_nat (count_inputs (sent b))\<rbrakk> \<Longrightarrow>
      (\<exists>b'. send_finish B i b = (Ok (), b') \<and> inv b' \<and> sent b' = sent b @ [FinishEpoch]) \<or>
      (\<exists>e b'. send_finish B i b = (Err e, b') \<and> inv b' \<and>
         (sent b' = sent b \<or> sent b' = sent b @ [FinishEpoch]))"

lemma build_next_input_Ok:
  assumes "timestamp_fits x" and "rs_inputs_sent_count (bss_status st) = i"
  shows "\<exists>p. (build_next_input x st :: (BrokerFacadeError, RollupsInput) outcome) = Ok p \<and> continues st p \<and>
    ri_data p = advance_data i x \<and> (input_sanity_check p i :: (BrokerFacadeError, unit) outcome) = Ok ()"
  using assms
  by (auto simp: build_next_input_def u256_as_u64_def timestamp_fits_def continues_def advance_data_def
      input_sanity_check_def Let_def)

lemma build_next_finish_epoch_continues:
  "continues st (build_next_finish_epoch st)"
  "ri_data (build_next_finish_epoch st) = FinishEpoch"
  "rs_inputs_sent_count (bss_status st) = i \<Longrightarrow> epoch_sanity_check (build_next_finish_epoch st) i = Ok ()"
  by (simp_all add: build_next_finish_epoch_def continues_def epoch_sanity_check_def)

lemma status_of_count: "rs_inputs_sent_count (bss_status (status_of (facade_log f))) = of_nat (count_inputs (facade_sent f))"
  by (simp add: status_of_def facade_sent_def)

interpretation facade: broker_send facade_send facade_inv facade_sent
proof (standard, goal_cases)
  case (1 f x i)
  from \<open>facade_inv f\<close> show ?case
  proof (cases rule: broker_status_cases)
    case (Ok f')
    obtain p where p: "build_next_input x (status_of (facade_log f)) = (Ok p :: (BrokerFacadeError, _) outcome)"
      "continues (status_of (facade_log f)) p" "ri_data p = advance_data i x"
      "input_sanity_check p i = (Ok () :: (BrokerFacadeError, _) outcome)"
      using build_next_input_Ok [OF 1(2) status_of_count] 1(3) by blast
    have "continues (status_of (facade_log f')) p"
      using p(2) Ok(3) by simp
    with Ok(2) show ?thesis
      by (cases rule: produce_continues_cases [where err = ProduceInputError])
        (use Ok p in \<open>auto simp: facade_send_def facade_enqueue_input_def facade_sent_def\<close>)
  next
    case (Err e f')
    then show ?thesis
      by (auto simp: facade_send_def facade_enqueue_input_def facade_sent_def)
  qed
next
  case (2 f i)
  from \<open>facade_inv f\<close> show ?case
  proof (cases rule: broker_status_cases)
    case (Ok f')
    let ?p = "build_next_finish_epoch (status_of (facade_log f))"
    have p: "continues (status_of (facade_log f')) ?p" "ri_data ?p = FinishEpoch" "epoch_sanity_check ?p i = (Ok () :: (BrokerFacadeError, _) outcome)"
      using build_next_finish_epoch_continues status_of_count 2(2) Ok(3) by metis+
    from Ok(2) p(1) show ?thesis
      by (cases rule: produce_continues_cases [where err = ProduceFinishError])
        (use Ok p in \<open>auto simp: facade_send_def facade_finish_epoch_def facade_sent_def Let_def\<close>)
  next
    case (Err e f')
    then show ?thesis
      by (auto simp: facade_send_def facade_finish_epoch_def facade_sent_def)
  qed
qed

end
