(* ===== verification/Types_Config.thy ===== *)
theory Types_Config
  imports Rollups_Events
begin

text \<open>
  The blockchain configuration of the crate \<open>types\<close> (\<open>blockchain_config.rs\<close>): the values
  given on the command line, completed by the values of two deployment files.  The
  JSON reader and the file system are parameters.
\<close>

datatype BlockchainConfigError =
    JsonDeserializeError string
  | JsonReadError string string
  | ReadFileError string string
  | MissingConfig string

record BlockchainCLIConfig =
  cli_dapp_address :: "string option"
  cli_input_box_deployment_block_number :: "u64 option"
  cli_history_address :: "string option"
  cli_authority_address :: "string option"
  cli_input_box_address :: "string option"
  cli_dapp_deployment_file :: "string option"
  cli_rollups_deployment_file :: "string option"

record BlockchainConfig =
  bc_dapp_address :: Address
  bc_input_box_deployment_block_number :: u64
  bc_history_address :: Address
  bc_authority_address :: Address
  bc_input_box_address :: Address

record Contract =
  ct_address :: "Address option"
  ct_block_number :: "u64 option"

record RollupsContracts =
  ct_history :: "Contract option"
  ct_authority :: "Contract option"
  ct_input_box :: "Contract option"

record RollupsDeployment =
  contracts :: RollupsContracts

text \<open>The file system and the JSON reader: opening a file may fail, and so may its parsing.\<close>

record DeploymentFiles =
  json_address :: "string \<Rightarrow> string + Address"
  open_file :: "string \<Rightarrow> string + string"
  json_contract :: "string \<Rightarrow> string + Contract"
  json_deployment :: "string \<Rightarrow> string + RollupsDeployment"

definition deserialize_address ::
  "DeploymentFiles \<Rightarrow> string \<Rightarrow> (BlockchainConfigError, Address) outcome" where
  "deserialize_address fs s = from_result JsonDeserializeError (json_address fs s)"

definition read_file ::
  "DeploymentFiles \<Rightarrow> (string \<Rightarrow> string + 'a) \<Rightarrow> string \<Rightarrow> (BlockchainConfigError, 'a) outcome" where
  "read_file fs parse path =
     bind_outcome (from_result (ReadFileError path) (open_file fs path)) (\<lambda>file.
       from_result (JsonReadError path) (parse file))"

text \<open>\<open>Option::map\<close> followed by \<open>transpose\<close> and \<open>?\<close>.\<close>

fun traverse_option :: "('a \<Rightarrow> ('e, 'b) outcome) \<Rightarrow> 'a option \<Rightarrow> ('e, 'b option) outcome" where
  "traverse_option f None = Ok None"
| "traverse_option f (Some a) = map_ok Some (f a)"

fun or_else :: "'a option \<Rightarrow> 'a option \<Rightarrow> 'a option" where
  "or_else (Some a) _ = Some a"
| "or_else None b = b"

text \<open>A value that is not set yet is replaced by the value of the file, if there is a file.\<close>

fun or_from_file :: "'a option \<Rightarrow> ('f \<Rightarrow> 'a option) \<Rightarrow> 'f option \<Rightarrow> 'a option" where
  "or_from_file v get (Some file) = or_else v (get file)"
| "or_from_file v get None = v"

definition contract_address :: "Contract option \<Rightarrow> Address option" where
  "contract_address c = Option.bind c ct_address"

definition check_missing :: "string \<Rightarrow> 'a option \<Rightarrow> (BlockchainConfigError, 'a) outcome" where
  "check_missing name v = ok_or (MissingConfig name) v"

definition blockchain_config_try_from ::
  "DeploymentFiles \<Rightarrow> BlockchainCLIConfig \<Rightarrow> (BlockchainConfigError, BlockchainConfig) outcome" where
  "blockchain_config_try_from fs cli =
     bind_outcome (traverse_option (deserialize_address fs) (cli_dapp_address cli)) (\<lambda>dapp.
     bind_outcome (traverse_option (deserialize_address fs) (cli_history_address cli)) (\<lambda>history.
     bind_outcome (traverse_option (deserialize_address fs) (cli_authority_address cli)) (\<lambda>authority.
     bind_outcome (traverse_option (deserialize_address fs) (cli_input_box_address cli)) (\<lambda>input_box.
     bind_outcome (traverse_option (read_file fs (json_contract fs)) (cli_dapp_deployment_file cli)) (\<lambda>dapp_file.
     let dapp = or_from_file dapp ct_address dapp_file in
     bind_outcome (traverse_option (read_file fs (json_deployment fs)) (cli_rollups_deployment_file cli)) (\<lambda>rollups_file.
     let history = or_from_file history (contract_address \<circ> ct_history \<circ> contracts) rollups_file;
         authority = or_from_file authority (contract_address \<circ> ct_authority \<circ> contracts) rollups_file;
         input_box = or_from_file input_box (contract_address \<circ> ct_input_box \<circ> contracts) rollups_file
     in
     bind_outcome (check_missing ''dapp_address'' dapp) (\<lambda>dapp.
     bind_outcome (check_missing ''input_box_deployment_block_number'' (cli_input_box_deployment_block_number cli)) (\<lambda>number.
     bind_outcome (check_missing ''history_address'' history) (\<lambda>history.
     bind_outcome (check_missing ''authority_address'' authority) (\<lambda>authority.
     bind_outcome (check_missing ''input_box_address'' input_box) (\<lambda>input_box.
       Ok \<lparr> bc_dapp_address = dapp, bc_input_box_deployment_block_number = number,
            bc_history_address = history, bc_authority_address = authority,
            bc_input_box_address = input_box \<rparr>)))))))))))"

section \<open>Properties\<close>

lemma or_from_file_Some [simp]: "or_from_file (Some v) get f = Some v"
  by (cases f) simp_all

lemma check_missing_Ok [simp]: "check_missing n v = Ok a \<longleftrightarrow> v = Some a"
  by (cases v) (auto simp: check_missing_def)

text \<open>A value given on the command line takes precedence over the deployment files:
  the configuration that is built carries the decoded command line addresses wherever
  they are given, and the block number always comes from the command line.\<close>

theorem cli_values_win:
  assumes "blockchain_config_try_from fs cli = Ok c"
  shows "(\<forall>s. cli_dapp_address cli = Some s \<longrightarrow> deserialize_address fs s = Ok (bc_dapp_address c)) \<and>
    (\<forall>s. cli_history_address cli = Some s \<longrightarrow> deserialize_address fs s = Ok (bc_history_address c)) \<and>
    (\<forall>s. cli_authority_address cli = Some s \<longrightarrow> deserialize_address fs s = Ok (bc_authority_address c)) \<and>
    (\<forall>s. cli_input_box_address cli = Some s \<longrightarrow> deserialize_address fs s = Ok (bc_input_box_address c)) \<and>
    cli_input_box_deployment_block_number cli = Some (bc_input_box_deployment_block_number c)"
  using assms
  by (auto simp: blockchain_config_try_from_def bind_outcome_Ok_iff Let_def)

definition example_files :: DeploymentFiles where
  "example_files = \<lparr> json_address = (\<lambda>s. Inr (map (of_nat \<circ> of_char) s)), open_file = (\<lambda>p. Inr ''''),
     json_contract = (\<lambda>_. Inr \<lparr> ct_address = Some [1], ct_block_number = None \<rparr>),
     json_deployment = (\<lambda>_. Inr \<lparr> contracts = \<lparr> ct_history = Some \<lparr> ct_address = Some [2], ct_block_number = None \<rparr>,
       ct_authority = Some \<lparr> ct_address = Some [3], ct_block_number = None \<rparr>,
       ct_input_box = None \<rparr> \<rparr>) \<rparr>"

definition example_cli :: BlockchainCLIConfig where
  "example_cli = \<lparr> cli_dapp_address = Some ''a'', cli_input_box_deployment_block_number = Some 10,
     cli_history_address = None, cli_authority_address = Some ''b'', cli_input_box_address = Some ''c'',
     cli_dapp_deployment_file = Some ''d.json'', cli_rollups_deployment_file = Some ''r.json'' \<rparr>"

theorem cli_values_win_witness:
  "blockchain_config_try_from example_files example_cli =
     Ok \<lparr> bc_dapp_address = [97], bc_input_box_deployment_block_number = 10, bc_history_address = [2],
       bc_authority_address = [98], bc_input_box_address = [99] \<rparr> \<and>
   deserialize_address example_files ''a'' = Ok [97]"
proof -
  have run: "blockchain_config_try_from example_files example_cli =
     Ok \<lparr> bc_dapp_address = [97], bc_input_box_deployment_block_number = 10, bc_history_address = [2],
       bc_authority_address = [98], bc_input_box_address = [99] \<rparr>"
    by (simp add: blockchain_config_try_from_def example_files_def example_cli_def deserialize_address_def
        read_file_def contract_address_def check_missing_def Let_def)
  then show ?thesis
    using cli_values_win [OF run] by (simp add: example_cli_def)
qed

end
