(* ===== verification/Dispatcher.thy ===== *)
theory Dispatcher
  imports Dispatcher_Facade Types_Config
begin

text \<open>
  The dispatcher (\<open>drivers/context.rs\<close>, \<open>drivers/machine.rs\<close>, \<open>dispatcher.rs\<close> and
  \<open>setup.rs\<close>): it turns the inputs of the dapp, block by block, into the events of the
  inputs stream.  The state server is a parameter (its two queries), and so is the
  subscription, given by the chunks of items it delivers.
\<close>

section \<open>The context (drivers/context.rs)\<close>

text \<open>The calls of \<open>inc\<close> on each counter, by label.\<close>

record DispatcherMetrics =
  advance_inputs_sent :: "DAppMetadata \<Rightarrow> nat"
  finish_epochs_sent :: "DAppMetadata \<Rightarrow> nat"

record Context =
  inputs_sent :: u64
  last_input_epoch :: "u64 option"
  last_finished_epoch :: "u64 option"
  genesis_block :: u64
  epoch_length :: u64
  ctx_dapp_metadata :: DAppMetadata
  metrics :: DispatcherMetrics

definition context_new ::
  "u64 \<Rightarrow> u64 \<Rightarrow> DAppMetadata \<Rightarrow> DispatcherMetrics \<Rightarrow> ('e, Context) outcome" where
  "context_new genesis epoch_len dapp_metadata m =
     bind_outcome (assert_that (0 < epoch_len)) (\<lambda>_.
       Ok \<lparr> inputs_sent = 0, last_input_epoch = None, last_finished_epoch = None,
            genesis_block = genesis, epoch_length = epoch_len,
            ctx_dapp_metadata = dapp_metadata, metrics = m \<rparr>)"

definition calculate_epoch :: "Context \<Rightarrow> u64 \<Rightarrow> ('e, u64) outcome" where
  "calculate_epoch c block_number =
     bind_outcome (assert_that (genesis_block c \<le> block_number)) (\<lambda>_.
       if epoch_length c = 0 then Panic
       else Ok ((block_number - genesis_block c) div epoch_length c))"

definition should_finish_epoch :: "Context \<Rightarrow> u64 \<Rightarrow> ('e, bool) outcome" where
  "should_finish_epoch c epoch =
     (if last_finished_epoch c = last_input_epoch c then Ok False
      else
        bind_outcome (unwrap (last_input_epoch c)) (\<lambda>last_input.
          if epoch = last_input then Ok False
          else Ok (epoch > (case last_finished_epoch c of Some f \<Rightarrow> f | None \<Rightarrow> 0))))"

definition inc_finish_epochs_sent :: "Context \<Rightarrow> Context" where
  "inc_finish_epochs_sent c =
     c\<lparr>metrics := (metrics c)\<lparr>finish_epochs_sent :=
        (finish_epochs_sent (metrics c))(ctx_dapp_metadata c :=
           Suc (finish_epochs_sent (metrics c) (ctx_dapp_metadata c)))\<rparr>\<rparr>"

definition inc_advance_inputs_sent :: "Context \<Rightarrow> Context" where
  "inc_advance_inputs_sent c =
     c\<lparr>metrics := (metrics c)\<lparr>advance_inputs_sent :=
        (advance_inputs_sent (metrics c))(ctx_dapp_metadata c :=
           Suc (advance_inputs_sent (metrics c) (ctx_dapp_metadata c)))\<rparr>\<rparr>"

text \<open>An operation of the broker, run inside a driver that also holds the context.\<close>

definition call_broker ::
  "('b \<Rightarrow> ('b, 'e, 'a) action) \<Rightarrow> Context \<times> 'b \<Rightarrow> (Context \<times> 'b, 'e, 'a) action" where
  "call_broker f s = (case f (snd s) of (r, b) \<Rightarrow> (r, fst s, b))"

definition finish_epoch ::
  "'b BrokerSend \<Rightarrow> Context \<times> 'b \<Rightarrow> (Context \<times> 'b, BrokerFacadeError, unit) action" where
  "finish_epoch B s =
     and_then
       (assert_that (case (last_input_epoch (fst s), last_finished_epoch (fst s)) of
            (Some input_epoch, Some finished_epoch) \<Rightarrow> input_epoch > finished_epoch
          | (Some _, None) \<Rightarrow> True
          | (None, _) \<Rightarrow> False), s)
       (\<lambda>_ s.
         and_then (call_broker (send_finish B (inputs_sent (fst s))) s) (\<lambda>_ s.
           let c = inc_finish_epochs_sent (fst s) in
           (Ok (), c\<lparr>last_finished_epoch := last_input_epoch c\<rparr>, snd s)))"

definition finish_epoch_if_needed ::
  "'b BrokerSend \<Rightarrow> u64 \<Rightarrow> Context \<times> 'b \<Rightarrow> (Context \<times> 'b, BrokerFacadeError, unit) action" where
  "finish_epoch_if_needed B block_number s =
     and_then (calculate_epoch (fst s) block_number, s) (\<lambda>epoch s.
       and_then (should_finish_epoch (fst s) epoch, s) (\<lambda>needed s.
         if needed then finish_epoch B s else (Ok (), s)))"

text \<open>The part of \<open>enqueue_input\<close> that follows the call of the broker.\<close>

definition note_input_sent ::
  "u64 \<Rightarrow> Context \<times> 'b \<Rightarrow> (Context \<times> 'b, BrokerFacadeError, unit) action" where
  "note_input_sent input_block_number s =
     (let c = inc_advance_inputs_sent (fst s);
          c = c\<lparr>inputs_sent := inputs_sent c + 1\<rparr>
      in and_then (calculate_epoch c input_block_number, c, snd s) (\<lambda>input_epoch s.
           and_then
             (assert_that (case last_finished_epoch (fst s) of
                Some last_finished \<Rightarrow> input_epoch > last_finished | None \<Rightarrow> True), s)
             (\<lambda>_ s. (Ok (), (fst s)\<lparr>last_input_epoch := Some input_epoch\<rparr>, snd s))))"

definition enqueue_input ::
  "'b BrokerSend \<Rightarrow> Input \<Rightarrow> Context \<times> 'b \<Rightarrow> (Context \<times> 'b, BrokerFacadeError, unit) action" where
  "enqueue_input B input s =
     (let input_block_number = blk_number (inp_block_added input) in
      and_then (finish_epoch_if_needed B input_block_number s) (\<lambda>_ s.
        and_then (call_broker (send_input B (inputs_sent (fst s)) input) s) (\<lambda>_ s.
          note_input_sent input_block_number s)))"

section \<open>The machine driver (drivers/machine.rs)\<close>

record MachineDriver =
  md_dapp_address :: Address

fun enqueue_inputs ::
  "'b BrokerSend \<Rightarrow> Input list \<Rightarrow> Context \<times> 'b \<Rightarrow> (Context \<times> 'b, BrokerFacadeError, unit) action" where
  "enqueue_inputs B [] s = (Ok (), s)"
| "enqueue_inputs B (input # input_slice) s =
     and_then (enqueue_input B input s) (\<lambda>_ s. enqueue_inputs B input_slice s)"

definition process_inputs ::
  "'b BrokerSend \<Rightarrow> DAppInputBox \<Rightarrow> Context \<times> 'b \<Rightarrow> (Context \<times> 'b, BrokerFacadeError, unit) action" where
  "process_inputs B dapp_input_box s =
     enqueue_inputs B (drop (unat (inputs_sent (fst s))) (dib_inputs dapp_input_box)) s"

definition react ::
  "'b BrokerSend \<Rightarrow> MachineDriver \<Rightarrow> Block \<Rightarrow> InputBox \<Rightarrow> Context \<times> 'b
   \<Rightarrow> (Context \<times> 'b, BrokerFacadeError, unit) action" where
  "react B driver block input_box s =
     and_then
       (case dapp_input_boxes input_box (md_dapp_address driver) of
          None \<Rightarrow> (Ok (), s)
        | Some dapp_input_box \<Rightarrow> process_inputs B dapp_input_box s)
       (\<lambda>_ s. finish_epoch_if_needed B (blk_number block) s)"

section \<open>Set-up (setup.rs)\<close>

datatype DispatcherError =
    DispatcherBrokerError BrokerFacadeError
  | StateServerError string
  | DirtyBrokerError
  | Whatever string

record DispatcherConfig =
  dc_blockchain_config :: BlockchainConfig
  dc_epoch_length :: u64
  dc_chain_id :: u64

datatype BlockStreamItem = NewBlock Block | Reorg "Block list"

definition BUFFER_LEN :: nat where
  "BUFFER_LEN = 256"

text \<open>The filter over the chunks of ready items of the subscription.\<close>

definition last_of_chunk :: "'a list \<Rightarrow> 'a option" where
  "last_of_chunk x = (if length x = BUFFER_LEN then None else if x = [] then None else Some (last x))"

definition block_subscription :: "'a list list \<Rightarrow> 'a list" where
  "block_subscription chunks = List.map_filter last_of_chunk chunks"

definition create_context ::
  "DispatcherConfig \<Rightarrow> (u64 \<Rightarrow> string + Block) \<Rightarrow> ('b \<Rightarrow> ('b, BrokerFacadeError, RollupStatus) action)
   \<Rightarrow> DAppMetadata \<Rightarrow> DispatcherMetrics \<Rightarrow> 'b \<Rightarrow> ('b, DispatcherError, Context) action" where
  "create_context config query_block status dapp_metadata m b =
     and_then
       (from_result StateServerError
          (query_block (bc_input_box_deployment_block_number (dc_blockchain_config config))), b)
       (\<lambda>genesis b.
         and_then (case status b of (r, b) \<Rightarrow> (map_err DispatcherBrokerError r, b)) (\<lambda>st b.
           and_then (ensure (rs_inputs_sent_count st = 0) DirtyBrokerError, b) (\<lambda>_ b.
             (context_new (blk_number genesis) (dc_epoch_length config) dapp_metadata m, b))))"

section \<open>The main loop (dispatcher.rs)\<close>

record BlockState =
  bs_block :: Block
  bs_state :: InputBox

definition process_block ::
  "'b BrokerSend \<Rightarrow> (InputBoxInitialState \<Rightarrow> Hash \<Rightarrow> string + BlockState) \<Rightarrow> InputBoxInitialState
   \<Rightarrow> MachineDriver \<Rightarrow> Block \<Rightarrow> Context \<times> 'b \<Rightarrow> (Context \<times> 'b, DispatcherError, unit) action" where
  "process_block B query_state initial_state driver block s =
     and_then (from_result StateServerError (query_state initial_state (blk_hash block)), s) (\<lambda>state s.
       case react B driver (bs_block state) (bs_state state) s of
         (r, s) \<Rightarrow> (map_err DispatcherBrokerError r, s))"

text \<open>The loop over the items of the subscription; the end of the list is its end.\<close>

fun dispatcher_loop ::
  "'b BrokerSend \<Rightarrow> (InputBoxInitialState \<Rightarrow> Hash \<Rightarrow> string + BlockState) \<Rightarrow> InputBoxInitialState
   \<Rightarrow> MachineDriver \<Rightarrow> (string + BlockStreamItem) list \<Rightarrow> Context \<times> 'b
   \<Rightarrow> (Context \<times> 'b, DispatcherError, unit) action" where
  "dispatcher_loop B qs ini driver [] s = (Err (Whatever ''subscription closed''), s)"
| "dispatcher_loop B qs ini driver (Inr (NewBlock b) # items) s =
     and_then (process_block B qs ini driver b s) (\<lambda>_ s. dispatcher_loop B qs ini driver items s)"
| "dispatcher_loop B qs ini driver (Inr (Reorg bs) # items) s = (Err (Whatever ''deep blockchain reorg''), s)"
| "dispatcher_loop B qs ini driver (Inl e # items) s = dispatcher_loop B qs ini driver items s"

definition start ::
  "DispatcherConfig \<Rightarrow> 'b BrokerSend \<Rightarrow> ('b \<Rightarrow> ('b, BrokerFacadeError, RollupStatus) action)
   \<Rightarrow> (u64 \<Rightarrow> string + Block) \<Rightarrow> (InputBoxInitialState \<Rightarrow> Hash \<Rightarrow> string + BlockState)
   \<Rightarrow> (string + BlockStreamItem) list list \<Rightarrow> DispatcherMetrics \<Rightarrow> 'b \<Rightarrow> ('b, DispatcherError, unit) action" where
  "start config B status query_block query_state chunks m b =
     (let bc = dc_blockchain_config config;
          dapp_metadata = \<lparr> chain_id = dc_chain_id config, dapp_address = bc_dapp_address bc \<rparr>;
          driver = \<lparr> md_dapp_address = bc_dapp_address bc \<rparr>;
          initial_state = \<lparr> is_dapp_address = bc_dapp_address bc,
            is_input_box_address = bc_input_box_address bc \<rparr>
      in and_then (create_context config query_block status dapp_metadata m b) (\<lambda>c b.
           case dispatcher_loop B query_state initial_state driver (block_subscription chunks) (c, b) of
             (r, s) \<Rightarrow> (r, snd s)))"

section \<open>What the dispatcher should produce\<close>

definition epoch_of :: "u64 \<Rightarrow> u64 \<Rightarrow> u64 \<Rightarrow> u64" where
  "epoch_of g l n = (n - g) div l"

definition input_epoch :: "u64 \<Rightarrow> u64 \<Rightarrow> Input \<Rightarrow> u64" where
  "input_epoch g l x = epoch_of g l (blk_number (inp_block_added x))"

text \<open>
  The events for a list of inputs: each input with its index, and the end of the epoch
  between two inputs of different epochs.
\<close>

definition stream_item :: "(Input \<Rightarrow> u64) \<Rightarrow> Input list \<Rightarrow> nat \<Rightarrow> RollupsData list" where
  "stream_item ep xs k =
     (if 0 < k \<and> ep (xs ! (k - 1)) \<noteq> ep (xs ! k) then [FinishEpoch] else []) @
     [advance_data (of_nat k) (xs ! k)]"

definition epoch_stream :: "(Input \<Rightarrow> u64) \<Rightarrow> Input list \<Rightarrow> RollupsData list" where
  "epoch_stream ep xs = concat (map (stream_item ep xs) [0..<length xs])"

text \<open>The last epoch is closed as soon as a block of a later epoch is known.\<close>

definition closing :: "(Input \<Rightarrow> u64) \<Rightarrow> Input list \<Rightarrow> u64 \<Rightarrow> RollupsData list" where
  "closing ep xs e = (if xs \<noteq> [] \<and> ep (last xs) \<noteq> e then [FinishEpoch] else [])"

definition dispatched :: "(Input \<Rightarrow> u64) \<Rightarrow> Input list \<Rightarrow> u64 \<Rightarrow> RollupsData list" where
  "dispatched ep xs e = epoch_stream ep xs @ closing ep xs e"

definition driver_inv ::
  "('b \<Rightarrow> bool) \<Rightarrow> ('b \<Rightarrow> RollupsData list) \<Rightarrow> u64 \<Rightarrow> u64 \<Rightarrow> Input list \<Rightarrow> u64 \<Rightarrow> Context \<times> 'b \<Rightarrow> bool" where
  "driver_inv valid sent g l xs e s \<longleftrightarrow>
     (let c = fst s; ep = input_epoch g l in
      genesis_block c = g \<and> epoch_length c = l \<and> 0 < l \<and> valid (snd s) \<and>
      inputs_sent c = of_nat (length xs) \<and>
      last_input_epoch c = (if xs = [] then None else Some (ep (last xs))) \<and>
      (if xs = [] then last_finished_epoch c = None
       else ep (last xs) \<le> e \<and>
         (if ep (last xs) = e then \<forall>f. last_finished_epoch c = Some f \<longrightarrow> f < e
          else last_finished_epoch c = Some (ep (last xs)))) \<and>
      sent (snd s) = dispatched ep xs e)"

lemma epoch_stream_snoc:
  "epoch_stream ep (xs @ [x]) =
     epoch_stream ep xs @ closing ep xs (ep x) @ [advance_data (of_nat (length xs)) x]"
proof -
  have "map (stream_item ep (xs @ [x])) [0..<length xs] = map (stream_item ep xs) [0..<length xs]"
    by (intro map_cong refl) (auto simp: stream_item_def nth_append)
  moreover have "stream_item ep (xs @ [x]) (length xs) =
      closing ep xs (ep x) @ [advance_data (of_nat (length xs)) x]"
    by (cases "xs = []") (auto simp: stream_item_def closing_def nth_append last_conv_nth)
  ultimately show ?thesis
    by (simp add: epoch_stream_def del: map_eq_conv)
qed

lemma dispatched_snoc:
  "dispatched ep (xs @ [x]) (ep x) = dispatched ep xs (ep x) @ [advance_data (of_nat (length xs)) x]"
  by (simp add: dispatched_def epoch_stream_snoc closing_def)

lemma count_inputs_dispatched: "count_inputs (dispatched ep xs e) = length xs"
proof -
  have "count_inputs (closing ep xs e) = 0" for xs e
    by (simp add: closing_def)
  moreover from this have "count_inputs (epoch_stream ep xs) = length xs"
    by (induction xs rule: rev_induct) (simp_all add: epoch_stream_snoc advance_data_def, simp add: epoch_stream_def)
  ultimately show ?thesis
    by (simp add: dispatched_def)
qed

lemma dispatched_later:
  assumes "xs \<noteq> [] \<Longrightarrow> ep (last xs) \<le> e" and "e \<le> e'"
  shows "prefix (dispatched ep xs e) (dispatched ep xs e')"
  using assms by (auto simp: dispatched_def closing_def)

lemma epoch_of_mono: "\<lbrakk>g \<le> m; m \<le> n\<rbrakk> \<Longrightarrow> epoch_of g l m \<le> epoch_of g l n"
  by (simp add: epoch_of_def word_le_nat_alt unat_div_distrib unat_sub div_le_mono diff_le_mono)

lemma calculate_epoch_Ok:
  "\<lbrakk>genesis_block c = g; epoch_length c = l; 0 < l; g \<le> n\<rbrakk> \<Longrightarrow> calculate_epoch c n = Ok (epoch_of g l n)"
  by (auto simp: calculate_epoch_def epoch_of_def)

section \<open>The drivers keep the invariant\<close>

text \<open>
  The lemmas hold for every broker that satisfies the contract.  Each operation either
  succeeds and moves the invariant forward, or fails with a log that is a prefix of what
  success would have produced; it never panics.
\<close>

definition step_ok ::
  "('b \<Rightarrow> bool) \<Rightarrow> ('b \<Rightarrow> RollupsData list) \<Rightarrow> u64 \<Rightarrow> u64 \<Rightarrow> Input list \<Rightarrow> u64
   \<Rightarrow> (Context \<times> 'b, 'e, unit) action \<Rightarrow> bool" where
  "step_ok valid sent g l xs e a \<longleftrightarrow>
     (case a of
        (Ok _, s) \<Rightarrow> driver_inv valid sent g l xs e s
      | (Err _, s) \<Rightarrow> valid (snd s) \<and> prefix (sent (snd s)) (dispatched (input_epoch g l) xs e)
      | (Panic, _) \<Rightarrow> False)"

lemma step_ok_simps [simp]:
  "step_ok valid sent g l xs e (Ok u, s) = driver_inv valid sent g l xs e s"
  "step_ok valid sent g l xs e (Err err, s) =
     (valid (snd s) \<and> prefix (sent (snd s)) (dispatched (input_epoch g l) xs e))"
  "step_ok valid sent g l xs e (Panic, s) = False"
  by (simp_all add: step_ok_def)

text \<open>Sequencing two steps whose targets extend each other.\<close>

lemma step_ok_and_then:
  assumes "step_ok valid sent g l xs e a"
    and "prefix (dispatched (input_epoch g l) xs e) (dispatched (input_epoch g l) ys e')"
    and "\<And>u s. a = (Ok u, s) \<Longrightarrow> driver_inv valid sent g l xs e s \<Longrightarrow> step_ok valid sent g l ys e' (f u s)"
  shows "step_ok valid sent g l ys e' (and_then a f)"
  using assms
  by (cases "(a, f)" rule: and_then.cases) (auto intro: prefix_order.trans)

lemma driver_inv_order:
  "\<lbrakk>driver_inv valid sent g l xs e s; xs \<noteq> []\<rbrakk> \<Longrightarrow> input_epoch g l (last xs) \<le> e"
  by (auto simp: driver_inv_def Let_def)

lemma inc_metrics_simps [simp]:
  "genesis_block (inc_finish_epochs_sent c) = genesis_block c"
  "epoch_length (inc_finish_epochs_sent c) = epoch_length c"
  "inputs_sent (inc_finish_epochs_sent c) = inputs_sent c"
  "last_input_epoch (inc_finish_epochs_sent c) = last_input_epoch c"
  "last_finished_epoch (inc_finish_epochs_sent c) = last_finished_epoch c"
  "genesis_block (inc_advance_inputs_sent c) = genesis_block c"
  "epoch_length (inc_advance_inputs_sent c) = epoch_length c"
  "inputs_sent (inc_advance_inputs_sent c) = inputs_sent c"
  "last_input_epoch (inc_advance_inputs_sent c) = last_input_epoch c"
  "last_finished_epoch (inc_advance_inputs_sent c) = last_finished_epoch c"
  by (simp_all add: inc_finish_epochs_sent_def inc_advance_inputs_sent_def)

text \<open>When the invariant holds, an epoch is finished exactly when the last input's epoch is over.\<close>

lemma should_finish_epoch_inv:
  assumes "driver_inv valid sent g l xs e s" and "e \<le> e'"
  shows "should_finish_epoch (fst s) e' =
    Ok (xs \<noteq> [] \<and> input_epoch g l (last xs) = e \<and> e \<noteq> e')"
proof -
  have "f < e'" if "f < e" for f :: u64
    using that assms(2) by simp
  moreover have "0 < e'" if "e \<noteq> e'"
    using assms(2) that by (metis order.not_eq_order_implies_strict order.strict_trans1 word_zero_le)
  ultimately show ?thesis
    using assms
    by (cases "last_finished_epoch (fst s)")
      (auto simp: driver_inv_def should_finish_epoch_def Let_def split: if_splits)
qed

context broker_send
begin

lemma finish_epoch_step:
  assumes "driver_inv inv sent g l xs e s" and "xs \<noteq> []" and "input_epoch g l (last xs) = e" and "e < e'"
  shows "step_ok inv sent g l xs e' (finish_epoch B s)"
proof -
  obtain c b where s: "s = (c, b)"
    by fastforce
  have b: "inv b" "inputs_sent c = of_nat (count_inputs (sent b))"
    using assms(1) s by (simp_all add: driver_inv_def count_inputs_dispatched Let_def)
  have "finish_epoch B s = and_then (call_broker (send_finish B (inputs_sent c)) s) (\<lambda>_ s.
      (Ok (), (inc_finish_epochs_sent (fst s))\<lparr>last_finished_epoch := last_input_epoch (fst s)\<rparr>, snd s))"
    using assms s by (auto simp: finish_epoch_def driver_inv_def Let_def split: option.splits)
  moreover have "dispatched (input_epoch g l) xs e' = dispatched (input_epoch g l) xs e @ [FinishEpoch]"
    using assms(2-4) by (auto simp: dispatched_def closing_def)
  ultimately show ?thesis
    using send_finish_step [OF b] assms s
    by (auto simp: call_broker_def driver_inv_def Let_def)
qed

lemma finish_epoch_if_needed_step:
  assumes "driver_inv inv sent g l xs e s" and "g \<le> n" and "e \<le> epoch_of g l n"
  shows "step_ok inv sent g l xs (epoch_of g l n) (finish_epoch_if_needed B n s)"
proof -
  have calc: "calculate_epoch (fst s) n = (Ok (epoch_of g l n) :: (BrokerFacadeError, _) outcome)"
    using assms(1,2) by (intro calculate_epoch_Ok) (simp_all add: driver_inv_def Let_def)
  show ?thesis
  proof (cases "xs \<noteq> [] \<and> input_epoch g l (last xs) = e \<and> e \<noteq> epoch_of g l n")
    case True
    then have "e < epoch_of g l n"
      using assms(3) by (simp add: order.not_eq_order_implies_strict)
    then show ?thesis
      using finish_epoch_step [OF assms(1)] True
      by (simp add: finish_epoch_if_needed_def calc should_finish_epoch_inv [OF assms(1,3)])
  next
    case False
    then have "driver_inv inv sent g l xs (epoch_of g l n) s"
      using assms(1,3) order.antisym [OF assms(3)]
      by (auto simp: driver_inv_def dispatched_def closing_def Let_def split: if_splits)
    then show ?thesis
      using False by (auto simp: finish_epoch_if_needed_def calc should_finish_epoch_inv [OF assms(1,3)])
  qed
qed

lemma note_input_sent_step:
  assumes I: "driver_inv inv sent g l xs (input_epoch g l x) (c, b)"
    and "g \<le> blk_number (inp_block_added x)"
    and "inv b'" and "sent b' = sent b @ [advance_data (inputs_sent c) x]"
  shows "step_ok inv sent g l (xs @ [x]) (input_epoch g l x)
    (note_input_sent (blk_number (inp_block_added x)) (c, b'))"
proof -
  let ?n = "blk_number (inp_block_added x)" and ?e = "input_epoch g l x"
  have calc: "calculate_epoch c' ?n = (Ok ?e :: (BrokerFacadeError, _) outcome)"
    if "genesis_block c' = genesis_block c" "epoch_length c' = epoch_length c" for c'
    using I assms(2) that
    by (auto simp: driver_inv_def Let_def input_epoch_def intro!: calculate_epoch_Ok)
  have "f < ?e" if "last_finished_epoch c = Some f" for f
    using I that driver_inv_order [OF I]
    by (auto simp: driver_inv_def Let_def order.not_eq_order_implies_strict split: if_splits)
  then show ?thesis
    using I assms(3,4) dispatched_snoc [of "input_epoch g l" xs x]
    by (auto simp: note_input_sent_def calc driver_inv_def Let_def split: option.splits)
qed

lemma enqueue_input_step:
  assumes "driver_inv inv sent g l xs e s" and n: "g \<le> blk_number (inp_block_added x)"
    and "e \<le> input_epoch g l x" and "timestamp_fits x"
  shows "step_ok inv sent g l (xs @ [x]) (input_epoch g l x) (enqueue_input B x s)"
proof -
  let ?n = "blk_number (inp_block_added x)" and ?e = "input_epoch g l x"
  have fin: "step_ok inv sent g l xs ?e (finish_epoch_if_needed B ?n s)"
    using finish_epoch_if_needed_step [OF assms(1,2)] assms(3) by (simp add: input_epoch_def)
  have "step_ok inv sent g l (xs @ [x]) ?e
      (and_then (call_broker (send_input B (inputs_sent (fst s')) x) s') (\<lambda>_. note_input_sent ?n))"
    if I: "driver_inv inv sent g l xs ?e s'" for s'
  proof -
    obtain c b where s': "s' = (c, b)"
      by fastforce
    have b: "inv b" "inputs_sent c = of_nat (count_inputs (sent b))"
      and target: "dispatched (input_epoch g l) (xs @ [x]) ?e = sent b @ [advance_data (inputs_sent c) x]"
      using I s' by (simp_all add: driver_inv_def count_inputs_dispatched dispatched_snoc Let_def)
    from send_input_step [OF b(1) assms(4) b(2)] show ?thesis
      using note_input_sent_step [OF I [unfolded s'] n] s' target by (auto simp: call_broker_def)
  qed
  then show ?thesis
    unfolding enqueue_input_def Let_def
    by (intro step_ok_and_then [OF fin]) (simp_all add: dispatched_snoc)
qed

end

section \<open>Blocks one after the other\<close>

lemma dispatched_extend:
  assumes "xs \<noteq> [] \<Longrightarrow> ep (last xs) \<le> e" and "sorted (e # map ep ys)"
  shows "prefix (dispatched ep xs e) (dispatched ep (xs @ ys) (last (e # map ep ys)))"
  using assms
proof (induction ys arbitrary: xs e)
  case (Cons y ys)
  have "prefix (dispatched ep xs e) (dispatched ep xs (ep y))"
    using Cons.prems by (intro dispatched_later) auto
  also have "prefix \<dots> (dispatched ep (xs @ [y]) (ep y))"
    by (simp add: dispatched_snoc)
  also have "prefix \<dots> (dispatched ep ((xs @ [y]) @ ys) (last (ep y # map ep ys)))"
    using Cons.prems by (intro Cons.IH) auto
  finally show ?case
    by simp
qed simp

text \<open>
  The views of the state server over time: each is the list of the dapp's inputs and the
  number of the block.  A view extends the one before by inputs whose blocks lie between
  the two.
\<close>

fun history_ok :: "Input list \<Rightarrow> u64 \<Rightarrow> (Input list \<times> u64) list \<Rightarrow> bool" where
  "history_ok xs n [] \<longleftrightarrow> True"
| "history_ok xs n ((ys, m) # vs) \<longleftrightarrow>
     prefix xs ys \<and> length ys < 2 ^ 64 \<and>
     sorted (n # map (blk_number \<circ> inp_block_added) (drop (length xs) ys) @ [m]) \<and>
     list_all timestamp_fits (drop (length xs) ys) \<and>
     history_ok ys m vs"

definition view_of :: "Address \<Rightarrow> BlockState \<Rightarrow> Input list \<times> u64" where
  "view_of dapp st = (inputs_of (dapp_input_boxes (bs_state st)) dapp, blk_number (bs_block st))"

fun views ::
  "(InputBoxInitialState \<Rightarrow> Hash \<Rightarrow> string + BlockState) \<Rightarrow> InputBoxInitialState \<Rightarrow> Address
   \<Rightarrow> (string + BlockStreamItem) list \<Rightarrow> (Input list \<times> u64) list" where
  "views qs ini dapp [] = []"
| "views qs ini dapp (Inr (NewBlock b) # items) =
     (case qs ini (blk_hash b) of
        Inr st \<Rightarrow> view_of dapp st # views qs ini dapp items
      | Inl e \<Rightarrow> views qs ini dapp items)"
| "views qs ini dapp (Inr (Reorg bs) # items) = views qs ini dapp items"
| "views qs ini dapp (Inl e # items) = views qs ini dapp items"

lemma sorted_epochs:
  assumes "sorted (n # map f ys @ [m])" and "g \<le> n"
  shows "sorted (epoch_of g l n # map (epoch_of g l \<circ> f) ys @ [epoch_of g l m])"
proof -
  have ge: "\<forall>k \<in> set (n # map f ys @ [m]). g \<le> k"
    using assms by auto
  have "sorted_wrt (\<lambda>a b. epoch_of g l a \<le> epoch_of g l b) (n # map f ys @ [m])"
    by (rule sorted_wrt_mono_rel [OF _ assms(1)]) (use ge in \<open>auto intro: epoch_of_mono\<close>)
  then have "sorted (map (epoch_of g l) (n # map f ys @ [m]))"
    unfolding sorted_map .
  then show ?thesis
    by simp
qed

text \<open>A new view, as a step in epochs.\<close>

lemma history_view:
  assumes "history_ok xs n [(ys, m)]" and "g \<le> n"
    and "xs \<noteq> [] \<Longrightarrow> input_epoch g l (last xs) \<le> epoch_of g l n"
  obtains zs where "ys = xs @ zs"
    and "sorted (epoch_of g l n # map (input_epoch g l) zs @ [epoch_of g l m])"
    and "ys \<noteq> [] \<Longrightarrow> input_epoch g l (last ys) \<le> last (epoch_of g l n # map (input_epoch g l) zs)"
    and "last (epoch_of g l n # map (input_epoch g l) zs) \<le> epoch_of g l m"
proof -
  obtain zs where zs: "ys = xs @ zs"
    using assms(1) by (auto elim: prefixE)
  have srt: "sorted (epoch_of g l n # map (input_epoch g l) zs @ [epoch_of g l m])"
    using sorted_epochs [of n "blk_number \<circ> inp_block_added" zs m g l] assms zs
    by (simp add: comp_def input_epoch_def [abs_def])
  show ?thesis
    using srt assms(3) zs by (intro that [OF zs srt]) (auto simp: last_map sorted_append)
qed

lemma history_order:
  assumes "history_ok xs n [(ys, m)]" and "g \<le> n"
    and "xs \<noteq> [] \<Longrightarrow> input_epoch g l (last xs) \<le> epoch_of g l n" and "ys \<noteq> []"
  shows "input_epoch g l (last ys) \<le> epoch_of g l m"
  by (rule history_view [OF assms(1-3)]) (use assms(4) in \<open>auto intro: order_trans\<close>)

lemma dispatched_history:
  assumes "history_ok xs n vs" and "g \<le> n" and "xs \<noteq> [] \<Longrightarrow> input_epoch g l (last xs) \<le> epoch_of g l n"
  shows "prefix (dispatched (input_epoch g l) xs (epoch_of g l n))
    (case last ((xs, n) # vs) of (ys, m) \<Rightarrow> dispatched (input_epoch g l) ys (epoch_of g l m))"
  using assms
proof (induction vs arbitrary: xs n)
  case (Cons v vs)
  obtain ys m where v: "v = (ys, m)"
    by fastforce
  let ?ep = "input_epoch g l"
  have h: "history_ok xs n [(ys, m)]" "history_ok ys m vs"
    using Cons.prems(1) v by simp_all
  obtain zs where zs: "ys = xs @ zs" and srt: "sorted (epoch_of g l n # map ?ep zs @ [epoch_of g l m])"
    and order: "ys \<noteq> [] \<Longrightarrow> ?ep (last ys) \<le> last (epoch_of g l n # map ?ep zs)"
    and le: "last (epoch_of g l n # map ?ep zs) \<le> epoch_of g l m"
    using history_view [OF h(1) Cons.prems(2,3)] by blast
  have "prefix (dispatched ?ep xs (epoch_of g l n)) (dispatched ?ep ys (last (epoch_of g l n # map ?ep zs)))"
    unfolding zs by (rule dispatched_extend) (use Cons.prems(3) srt in \<open>auto simp: sorted_append\<close>)
  also have "prefix \<dots> (dispatched ?ep ys (epoch_of g l m))"
    by (rule dispatched_later) (use order le in auto)
  also have "prefix \<dots> (case last ((ys, m) # vs) of (ys, m) \<Rightarrow> dispatched ?ep ys (epoch_of g l m))"
  proof (rule Cons.IH [OF h(2)])
    show "g \<le> m"
      using h(1) Cons.prems(2) by auto
  qed (use history_order [OF h(1) Cons.prems(2,3)] in blast)
  finally show ?case
    using v by simp
qed simp

context broker_send
begin

lemma enqueue_inputs_step:
  assumes "driver_inv inv sent g l xs e s" and "sorted (e # map (input_epoch g l) ys)"
    and "list_all timestamp_fits ys" and "\<forall>y \<in> set ys. g \<le> blk_number (inp_block_added y)"
  shows "step_ok inv sent g l (xs @ ys) (last (e # map (input_epoch g l) ys)) (enqueue_inputs B ys s)"
  using assms
proof (induction ys arbitrary: xs e s)
  case (Cons y ys)
  let ?ep = "input_epoch g l"
  have first: "step_ok inv sent g l (xs @ [y]) (?ep y) (enqueue_input B y s)"
    using Cons.prems by (intro enqueue_input_step [of g l xs e]) simp_all
  have ext: "prefix (dispatched ?ep (xs @ [y]) (?ep y)) (dispatched ?ep (xs @ y # ys) (last (e # map ?ep (y # ys))))"
    using dispatched_extend [of "xs @ [y]" ?ep "?ep y" ys] Cons.prems(2) by simp
  show ?case
    unfolding enqueue_inputs.simps
  proof (rule step_ok_and_then [OF first ext])
    fix u s'
    assume "driver_inv inv sent g l (xs @ [y]) (?ep y) s'"
    then show "step_ok inv sent g l (xs @ y # ys) (last (e # map ?ep (y # ys))) (enqueue_inputs B ys s')"
      using Cons.IH [of "xs @ [y]" "?ep y" s'] Cons.prems by simp
  qed
qed simp

lemma react_step:
  assumes I: "driver_inv inv sent g l xs (epoch_of g l n) s" and "g \<le> n"
    and hist: "history_ok xs n [(inputs_of (dapp_input_boxes ib) (md_dapp_address driver), blk_number block)]"
  shows "step_ok inv sent g l (inputs_of (dapp_input_boxes ib) (md_dapp_address driver))
    (epoch_of g l (blk_number block)) (react B driver block ib s)"
proof -
  let ?ep = "input_epoch g l" and ?m = "blk_number block" and ?zs = "inputs_of (dapp_input_boxes ib) (md_dapp_address driver)"
  obtain ys where zs: "?zs = xs @ ys"
    using hist by (auto elim: prefixE)
  have srt: "sorted (epoch_of g l n # map ?ep ys @ [epoch_of g l ?m])"
    using sorted_epochs [of n "blk_number \<circ> inp_block_added" ys ?m g l] hist zs assms(2)
    by (simp add: comp_def input_epoch_def [abs_def])
  have later: "\<forall>y \<in> set ys. g \<le> blk_number (inp_block_added y)" "g \<le> ?m"
    using hist zs assms(2) by auto
  let ?e = "last (epoch_of g l n # map ?ep ys)"
  have le: "?e \<le> epoch_of g l ?m"
    using srt by (auto simp: last_map sorted_append)
  have inputs: "step_ok inv sent g l ?zs ?e
      (case dapp_input_boxes ib (md_dapp_address driver) of
         None \<Rightarrow> (Ok (), s) | Some box \<Rightarrow> process_inputs B box s)"
  proof (cases "dapp_input_boxes ib (md_dapp_address driver)")
    case None
    then show ?thesis
      using I zs by (simp add: inputs_of_def)
  next
    case (Some box)
    have "inputs_sent (fst s) = of_nat (length xs)" and "length xs < 2 ^ 64"
      using I hist zs by (simp_all add: driver_inv_def Let_def)
    then have "drop (unat (inputs_sent (fst s))) (dib_inputs box) = ys"
      using Some zs unat_of_nat_small [of "length xs", where 'a = 64] by (simp add: inputs_of_def)
    then show ?thesis
      using Some enqueue_inputs_step [OF I, of ys] srt hist later zs
      by (simp add: process_inputs_def sorted_append)
  qed
  have "prefix (dispatched ?ep ?zs ?e) (dispatched ?ep ?zs (epoch_of g l ?m))"
    using le driver_inv_order [OF I] by (intro dispatched_later) (auto simp: zs last_map)
  with inputs show ?thesis
    unfolding react_def
    by (rule step_ok_and_then) (use later le in \<open>auto intro: finish_epoch_if_needed_step\<close>)
qed

lemma process_block_step:
  assumes "driver_inv inv sent g l xs (epoch_of g l n) s" and "g \<le> n"
    and "qs ini (blk_hash b) = Inr st" and "view_of (md_dapp_address driver) st = (ys, m)"
    and "history_ok xs n [(ys, m)]"
  shows "step_ok inv sent g l ys (epoch_of g l m) (process_block B qs ini driver b s)"
proof -
  obtain r s' where run: "react B driver (bs_block st) (bs_state st) s = (r, s')"
    by (metis surj_pair)
  have "step_ok inv sent g l ys (epoch_of g l m) (react B driver (bs_block st) (bs_state st) s)"
    using react_step [OF assms(1,2)] assms(4,5) by (auto simp: view_of_def)
  then show ?thesis
    using run assms(3) by (cases r) (simp_all add: process_block_def)
qed

lemma dispatcher_loop_prefix:
  assumes "driver_inv inv sent g l xs (epoch_of g l n) s" and "g \<le> n"
    and "history_ok xs n (views qs ini (md_dapp_address driver) items)"
    and "last ((xs, n) # views qs ini (md_dapp_address driver) items) = (ys, m)"
    and "dispatcher_loop B qs ini driver items s = (r, s')"
  shows "(\<exists>e. r = Err e) \<and> inv (snd s') \<and>
    prefix (sent (snd s')) (dispatched (input_epoch g l) ys (epoch_of g l m)) \<and>
    (r = Err (Whatever ''subscription closed'') \<longrightarrow>
       sent (snd s') = dispatched (input_epoch g l) ys (epoch_of g l m))"
  using assms
proof (induction items arbitrary: xs n s)
  case Nil
  then show ?case
    by (auto simp: driver_inv_def Let_def)
next
  case (Cons item items)
  let ?vs = "views qs ini (md_dapp_address driver)" and ?D = "\<lambda>xs n. dispatched (input_epoch g l) xs (epoch_of g l n)"
  note now = Cons.prems(1)
  have here: "inv (snd s)" "sent (snd s) = ?D xs n"
    using now by (simp_all add: driver_inv_def Let_def)
  have stay: "prefix (?D xs n) (?D ys m)" if "history_ok xs n vs" "last ((xs, n) # vs) = (ys, m)" for vs
    using dispatched_history [OF that(1) Cons.prems(2) driver_inv_order [OF now]] that(2) by simp
  consider (new) b st where "item = Inr (NewBlock b)" "qs ini (blk_hash b) = Inr st"
    | (fail) b e where "item = Inr (NewBlock b)" "qs ini (blk_hash b) = Inl e"
    | (reorg) bs where "item = Inr (Reorg bs)"
    | (err) e where "item = Inl e"
    by (metis BlockStreamItem.exhaust sum.exhaust)
  then show ?case
  proof cases
    case new
    obtain zs k where v: "view_of (md_dapp_address driver) st = (zs, k)"
      by fastforce
    have h: "history_ok xs n [(zs, k)]" "history_ok zs k (?vs items)" "last ((zs, k) # ?vs items) = (ys, m)"
      using Cons.prems(3,4) new v by simp_all
    have k: "g \<le> k"
      using h(1) Cons.prems(2) by auto
    obtain r1 s1 where run: "process_block B qs ini driver b s = (r1, s1)"
      by (metis surj_pair)
    have step: "step_ok inv sent g l zs (epoch_of g l k) (r1, s1)"
      using process_block_step [OF now Cons.prems(2), where qs = qs and ini = ini, OF new(2) v h(1)] run by simp
    show ?thesis
    proof (cases r1)
      case (Ok u)
      then show ?thesis
        using Cons.IH [of zs k s1] step k h(2,3) Cons.prems(5) new(1) run by simp
    next
      case (Err e)
      have "prefix (?D zs k) (?D ys m)"
        using dispatched_history [OF h(2) k history_order [OF h(1) Cons.prems(2) driver_inv_order [OF now]]] h(3)
        by simp
      moreover have "e \<noteq> Whatever ''subscription closed''"
        using run new(2) Err by (auto simp: process_block_def map_err_Err split: prod.splits)
      ultimately show ?thesis
        using Err step Cons.prems(5) new(1) run by (auto intro: prefix_order.trans)
    next
      case Panic
      then show ?thesis
        using step by simp
    qed
  next
    case fail
    then show ?thesis
      using here stay Cons.prems(3-5) by (auto simp: process_block_def)
  next
    case reorg
    then show ?thesis
      using here stay Cons.prems(3-5) by auto
  next
    case err
    then show ?thesis
      using Cons.IH [OF now Cons.prems(2)] Cons.prems(3-5) by simp
  qed
qed

end

section \<open>Starting the dispatcher on the inputs stream\<close>

lemma facade_status_cases:
  assumes "facade_inv f"
  shows "(\<exists>f'. facade_status f = (Ok \<lparr> rs_inputs_sent_count = of_nat (count_inputs (facade_sent f)) \<rparr>, f') \<and>
      facade_inv f' \<and> facade_log f' = facade_log f) \<or>
    (\<exists>e f'. facade_status f = (Err e, f') \<and> facade_inv f' \<and> facade_log f' = facade_log f)"
  using assms
proof (cases rule: broker_status_cases)
  case (Ok f')
  then show ?thesis
    by (auto simp: facade_status_def status_of_def facade_sent_def)
next
  case (Err e f')
  then show ?thesis
    by (auto simp: facade_status_def)
qed

lemma create_context_cases:
  assumes "facade_inv f" and "0 < dc_epoch_length config"
    and "query_block (bc_input_box_deployment_block_number (dc_blockchain_config config)) = Inr genesis"
  shows "(\<exists>f'. create_context config query_block facade_status md m f =
        (Ok \<lparr> inputs_sent = 0, last_input_epoch = None, last_finished_epoch = None,
            genesis_block = blk_number genesis, epoch_length = dc_epoch_length config,
            ctx_dapp_metadata = md, metrics = m \<rparr>, f') \<and>
        (of_nat (count_inputs (facade_sent f)) :: u64) = 0 \<and>
        facade_inv f' \<and> facade_log f' = facade_log f) \<or>
    (\<exists>e f'. create_context config query_block facade_status md m f = (Err e, f') \<and>
        (e = DirtyBrokerError \<or> (\<exists>b. e = DispatcherBrokerError b)) \<and>
        facade_inv f' \<and> facade_log f' = facade_log f)"
  using facade_status_cases [OF assms(1)] assms(2,3)
  by (auto simp: create_context_def context_new_def ensure_def)

definition dapp_of :: "DispatcherConfig \<Rightarrow> Address" where
  "dapp_of config = bc_dapp_address (dc_blockchain_config config)"

definition initial_state_of :: "DispatcherConfig \<Rightarrow> InputBoxInitialState" where
  "initial_state_of config = \<lparr> is_dapp_address = dapp_of config,
     is_input_box_address = bc_input_box_address (dc_blockchain_config config) \<rparr>"

text \<open>A run of the dispatcher on a clean broker.\<close>

lemma dispatcher_history:
  assumes "facade_inv f" and "facade_log f = []" and "0 < dc_epoch_length config"
    and "query_block (bc_input_box_deployment_block_number (dc_blockchain_config config)) = Inr genesis"
    and "history_ok [] (blk_number genesis)
      (views query_state (initial_state_of config) (dapp_of config) (block_subscription chunks))"
    and "last (([], blk_number genesis) #
      views query_state (initial_state_of config) (dapp_of config) (block_subscription chunks)) = (inputs, n)"
    and "start config facade_send facade_status query_block query_state chunks m f = (r, f')"
  shows "(\<exists>e. r = Err e) \<and> facade_inv f' \<and> inputs_chain (facade_log f') \<and>
    (let g = blk_number genesis; l = dc_epoch_length config;
         events = dispatched (input_epoch g l) inputs (epoch_of g l n)
     in prefix (facade_sent f') events \<and>
        (r = Err (Whatever ''subscription closed'') \<longrightarrow> facade_sent f' = events))"
proof -
  let ?g = "blk_number genesis" and ?l = "dc_epoch_length config"
  let ?md = "\<lparr> chain_id = dc_chain_id config, dapp_address = dapp_of config \<rparr>"
  have sent: "facade_sent f'' = []" if "facade_log f'' = facade_log f" for f'' :: "'a BrokerFacade"
    using that assms(2) by (simp add: facade_sent_def)
  consider (ctx) c f1 where "create_context config query_block facade_status ?md m f = (Ok c, f1)"
      and "facade_inv f1" "facade_sent f1 = []"
      and "inputs_sent c = 0" "last_input_epoch c = None" "last_finished_epoch c = None"
        "genesis_block c = ?g" "epoch_length c = ?l"
    | (err) e f1 where "create_context config query_block facade_status ?md m f = (Err e, f1)"
      and "facade_inv f1" "facade_sent f1 = []" "e \<noteq> Whatever ''subscription closed''"
    using create_context_cases [where query_block = query_block and md = ?md and m = m, OF assms(1,3,4)] sent
    by fastforce
  then show ?thesis
  proof cases
    case ctx
    obtain r' s' where loop: "dispatcher_loop facade_send query_state (initial_state_of config)
        \<lparr> md_dapp_address = dapp_of config \<rparr> (block_subscription chunks) (c, f1) = (r', s')"
      by (metis surj_pair)
    have "driver_inv facade_inv facade_sent ?g ?l [] (epoch_of ?g ?l ?g) (c, f1)"
      using ctx assms(3) by (simp add: driver_inv_def dispatched_def epoch_stream_def closing_def)
    note this = facade.dispatcher_loop_prefix [OF this order.refl _ _ loop, of inputs n]
    then have "(\<exists>e. r' = Err e) \<and> facade_inv (snd s') \<and>
        prefix (facade_sent (snd s')) (dispatched (input_epoch ?g ?l) inputs (epoch_of ?g ?l n)) \<and>
        (r' = Err (Whatever ''subscription closed'') \<longrightarrow>
           facade_sent (snd s') = dispatched (input_epoch ?g ?l) inputs (epoch_of ?g ?l n))"
      using assms(5,6) by simp
    moreover have "(r, f') = (r', snd s')"
      using assms(7) ctx(1) loop by (simp add: start_def dapp_of_def initial_state_of_def Let_def)
    ultimately show ?thesis
      by (simp add: facade_inv_def Let_def)
  next
    case err
    then have "(r, f') = (Err e, f1)"
      using assms(7) by (simp add: start_def dapp_of_def Let_def)
    then show ?thesis
      using err by (simp add: facade_inv_def Let_def)
  qed
qed


text \<open>C35: the dispatcher refuses a broker that already holds inputs: it stops with an error
  and leaves the stream as it found it.\<close>

theorem dirty_broker_refused:
  assumes "facade_inv f" and "0 < count_inputs (facade_sent f)" and "count_inputs (facade_sent f) < 2 ^ 64"
    and "start config facade_send facade_status query_block query_state chunks m f = (r, f')"
  shows "(\<exists>e. r = Err e) \<and> facade_log f' = facade_log f"
proof -
  let ?md = "\<lparr> chain_id = dc_chain_id config, dapp_address = bc_dapp_address (dc_blockchain_config config) \<rparr>"
  have "(of_nat (count_inputs (facade_sent f)) :: u64) \<noteq> 0"
    using of_nat_eq_small [of "count_inputs (facade_sent f)" 0, where 'a = 64] assms(2,3) by simp
  then have "\<exists>e f1. create_context config query_block facade_status ?md m f = (Err e, f1) \<and> facade_log f1 = facade_log f"
    using facade_status_cases [OF assms(1)]
    by (cases "query_block (bc_input_box_deployment_block_number (dc_blockchain_config config))")
      (auto simp: create_context_def)
  then show ?thesis
    using assms(4) by (auto simp: start_def Let_def)
qed

text \<open>Of the items that were ready together only the last one reaches the dispatcher,
  and none of them if they fill the buffer; a reorganization that is followed by a block
  in the same chunk is dropped, and the dispatcher goes on with the block.\<close>

theorem subscription_keeps_last:
  "block_subscription (chunks @ [xs @ [y]]) =
     block_subscription chunks @ (if Suc (length xs) = BUFFER_LEN then [] else [y]) \<and>
   block_subscription [[Inr (Reorg bs), Inr (NewBlock b)]] = [Inr (NewBlock b) :: string + BlockStreamItem]"
  by (simp add: block_subscription_def last_of_chunk_def map_filter_def BUFFER_LEN_def)

section \<open>Examples\<close>

definition example_input :: Input where
  "example_input = \<lparr> inp_sender = [8], inp_payload = [9], inp_block_added = example_block,
     inp_dapp = [7], inp_tx_hash = [2] \<rparr>"

definition example_facade :: "mem_server BrokerFacade" where
  "example_facade = \<lparr> bf_broker = mem_broker (\<lambda>_. []), inputs_stream = numbered_stream ''in'' \<rparr>"

definition example_config :: DispatcherConfig where
  "example_config = \<lparr> dc_blockchain_config = \<lparr> bc_dapp_address = [7], bc_input_box_deployment_block_number = 0,
       bc_history_address = [], bc_authority_address = [], bc_input_box_address = [6] \<rparr>,
     dc_epoch_length = 10, dc_chain_id = 1 \<rparr>"

definition example_genesis :: Block where
  "example_genesis = example_block\<lparr>blk_number := 0\<rparr>"

definition example_state :: BlockState where
  "example_state = \<lparr> bs_block = example_block\<lparr>blk_number := 15\<rparr>,
     bs_state = example_box\<lparr>dapp_input_boxes := [[7] \<mapsto> \<lparr> dib_inputs = [example_input] \<rparr>]\<rparr> \<rparr>"

definition example_metrics :: DispatcherMetrics where
  "example_metrics = \<lparr> advance_inputs_sent = (\<lambda>_. 0), finish_epochs_sent = (\<lambda>_. 0) \<rparr>"

definition example_start ::
  "mem_server BrokerFacade \<Rightarrow> (mem_server BrokerFacade, DispatcherError, unit) action" where
  "example_start = start example_config facade_send facade_status (\<lambda>_. Inr example_genesis)
     (\<lambda>_ _. Inr example_state) [[Inr (NewBlock example_block)]] example_metrics"

lemma example_facade_inv: "facade_inv example_facade" "facade_log example_facade = []"
  using mem_own_stream [of "\<lambda>_. []" "''in''"]
  by (simp_all add: facade_inv_def facade_log_def example_facade_def stream_log_def mem_entries_def)

lemma example_enqueue:
  "fst (facade_enqueue_input 0 example_input example_facade) = Ok ()"
  by (simp add: facade_enqueue_input_def broker_status_def peek_def with_broker_def peek_latest_def
      example_facade_def mem_broker_def mem_redis_def build_next_input_def u256_as_u64_def example_input_def
      example_block_def input_sanity_check_def produce_def numbered_stream_def mem_entries_def Let_def)

lemma example_timestamp: "timestamp_fits example_input"
  by (simp add: timestamp_fits_def example_input_def example_block_def)

lemma example_dirty:
  "facade_inv (snd (facade_enqueue_input 0 example_input example_facade)) \<and>
   facade_sent (snd (facade_enqueue_input 0 example_input example_facade)) = [advance_data 0 example_input]"
  using facade.send_input_step [OF example_facade_inv(1) example_timestamp, of 0] example_enqueue
  by (auto simp: facade_sent_def example_facade_inv facade_send_def)

theorem dirty_broker_refused_witness:
  "(\<exists>e. fst (example_start (snd (facade_enqueue_input 0 example_input example_facade))) = Err e) \<and>
   facade_log (snd (example_start (snd (facade_enqueue_input 0 example_input example_facade))))
     = facade_log (snd (facade_enqueue_input 0 example_input example_facade))"
proof -
  have "count_inputs (facade_sent (snd (facade_enqueue_input 0 example_input example_facade))) = 1"
    using example_dirty by (simp add: advance_data_def)
  then show ?thesis
    unfolding example_start_def
    by (intro dirty_broker_refused [OF _ _ _ prod.collapse [symmetric]]) (use example_dirty in simp_all)
qed

lemma example_views:
  "views (\<lambda>_ _. Inr example_state) (initial_state_of example_config) (dapp_of example_config)
     (block_subscription [[Inr (NewBlock example_block)]]) = [([example_input], 15)]"
  by (simp add: block_subscription_def last_of_chunk_def map_filter_def BUFFER_LEN_def view_of_def
      example_state_def inputs_of_def dapp_of_def example_config_def)


end
