(* ===== verification/Merkle.thy ===== *)
theory Merkle
  imports Rollups_Events
begin

text \<open>
  The Merkle trees of the host runner (\<open>merkle_tree/pristine.rs\<close>, \<open>complete.rs\<close>,
  \<open>proof.rs\<close>).  The hash function Keccak-256 is the parameter \<open>K\<close> of every definition.
  Sizes and addresses are \<open>usize\<close>: natural numbers below \<open>2 ^ 64\<close>, with the wrap-around of
  subtraction and the masked shift written out.

  The complete tree stores only the nodes that differ from a pristine tree and updates
  them incrementally.  \<open>tree_of\<close> is its closed form, \<open>node\<close> the node of the full binary
  tree over the leaves padded with pristine ones.
\<close>

section \<open>Machine arithmetic of usize\<close>

definition usize_sub :: "nat \<Rightarrow> nat \<Rightarrow> nat" where
  "usize_sub a b = (if b \<le> a then a - b else a + 2 ^ 64 - b)"

definition usize_shl1 :: "nat \<Rightarrow> nat" where
  "usize_shl1 k = 2 ^ (k mod 64)"

definition usize_shr :: "nat \<Rightarrow> nat \<Rightarrow> nat" where
  "usize_shr a k = a div 2 ^ (k mod 64)"

definition usize_shl :: "nat \<Rightarrow> nat \<Rightarrow> nat" where
  "usize_shl a k = (a * 2 ^ (k mod 64)) mod 2 ^ 64"

section \<open>Hashes (hash.rs, merkle_tree/mod.rs)\<close>

datatype MerkleError =
    TargetSizeGreaterThanRootSize
  | LeafSizeGreaterThanRootSize
  | WordSizeGreaterThanLeafSize
  | WordSizeGreaterThanRootSize
  | TreeTooLarge
  | TreeIsFull
  | TooManyLeaves
  | SizeOutOfRange
  | MisalignedAddress

type_synonym Hasher = "byte list \<Rightarrow> Hash"

definition hash_default :: Hash where
  "hash_default = replicate 32 0"

definition get_concat_hash :: "Hasher \<Rightarrow> Hash \<Rightarrow> Hash \<Rightarrow> Hash" where
  "get_concat_hash K l r = K (l @ r)"

section \<open>Pristine trees (merkle_tree/pristine.rs)\<close>

record PristineTree =
  pt_log2_root_size :: nat
  pt_log2_word_size :: nat
  pt_hashes :: "Hash list"

fun push_pristine :: "Hasher \<Rightarrow> nat \<Rightarrow> Hash list \<Rightarrow> Hash list" where
  "push_pristine K 0 hashes = hashes"
| "push_pristine K (Suc n) hashes =
     push_pristine K n
       (hashes @ [get_concat_hash K (hashes ! (length hashes - 1)) (hashes ! (length hashes - 1))])"

definition pristine_new :: "Hasher \<Rightarrow> nat \<Rightarrow> nat \<Rightarrow> (MerkleError, PristineTree) outcome" where
  "pristine_new K log2_root_size log2_word_size =
     bind_outcome (ensure (log2_word_size \<le> log2_root_size) WordSizeGreaterThanRootSize) (\<lambda>_.
       let num_hashes = log2_root_size - log2_word_size + 1;
           word = replicate (usize_shl1 log2_word_size) 0
       in Ok \<lparr> pt_log2_root_size = log2_root_size, pt_log2_word_size = log2_word_size,
               pt_hashes = push_pristine K (num_hashes - 1) [K word] \<rparr>)"

definition pristine_get_hash :: "PristineTree \<Rightarrow> nat \<Rightarrow> (MerkleError, Hash) outcome" where
  "pristine_get_hash pt log2_size =
     bind_outcome
       (ensure (pt_log2_word_size pt \<le> log2_size \<and> log2_size \<le> pt_log2_root_size pt) SizeOutOfRange)
       (\<lambda>_. unwrap (get_at (pt_hashes pt) (log2_size - pt_log2_word_size pt)))"

section \<open>Proofs (merkle_tree/proof.rs)\<close>

record MerkleProof =
  target_address :: nat
  log2_target_size :: nat
  target_hash :: Hash
  mp_log2_root_size :: nat
  root_hash :: Hash
  sibling_hashes :: "Hash list"

definition proof_new ::
  "nat \<Rightarrow> nat \<Rightarrow> Hash \<Rightarrow> nat \<Rightarrow> Hash \<Rightarrow> (MerkleError, MerkleProof) outcome" where
  "proof_new address log2_size hash log2_root root =
     bind_outcome (ensure (log2_size \<le> log2_root) TargetSizeGreaterThanRootSize) (\<lambda>_.
       Ok \<lparr> target_address = address, log2_target_size = log2_size, target_hash = hash,
            mp_log2_root_size = log2_root, root_hash = root,
            sibling_hashes = replicate (log2_root - log2_size) hash_default \<rparr>)"

definition log2_size_to_index :: "MerkleProof \<Rightarrow> nat \<Rightarrow> (MerkleError, nat) outcome" where
  "log2_size_to_index p log2_size =
     bind_outcome (ensure (log2_size < mp_log2_root_size p) SizeOutOfRange) (\<lambda>_.
     bind_outcome (ensure (log2_target_size p \<le> log2_size) SizeOutOfRange) (\<lambda>_.
       let index = log2_size - log2_target_size p in
       bind_outcome (ensure (index < length (sibling_hashes p)) SizeOutOfRange) (\<lambda>_. Ok index)))"

definition set_sibling_hash ::
  "Hash \<Rightarrow> nat \<Rightarrow> MerkleProof \<Rightarrow> (MerkleError, MerkleProof) outcome" where
  "set_sibling_hash hash log2_size p =
     bind_outcome (log2_size_to_index p log2_size) (\<lambda>index.
       Ok (p\<lparr>sibling_hashes := (sibling_hashes p)[index := hash]\<rparr>))"

section \<open>Complete trees (merkle_tree/complete.rs)\<close>

type_synonym Level = "Hash list"

record CompleteTree =
  ct_log2_root_size :: nat
  ct_log2_leaf_size :: nat
  pristine :: PristineTree
  levels :: "Level list"

definition complete_new :: "Hasher \<Rightarrow> nat \<Rightarrow> nat \<Rightarrow> nat \<Rightarrow> (MerkleError, CompleteTree) outcome" where
  "complete_new K log2_root_size log2_leaf_size log2_word_size =
     bind_outcome (ensure (log2_leaf_size \<le> log2_root_size) LeafSizeGreaterThanRootSize) (\<lambda>_.
     bind_outcome (ensure (log2_word_size \<le> log2_leaf_size) WordSizeGreaterThanLeafSize) (\<lambda>_.
     bind_outcome (ensure (log2_root_size \<le> 64) TreeTooLarge) (\<lambda>_.
     bind_outcome (pristine_new K log2_root_size log2_word_size) (\<lambda>p.
       Ok \<lparr> ct_log2_root_size = log2_root_size, ct_log2_leaf_size = log2_leaf_size, pristine = p,
            levels = replicate (log2_root_size - log2_leaf_size + 1) [] \<rparr>))))"

definition get_level_index :: "CompleteTree \<Rightarrow> nat \<Rightarrow> (MerkleError, nat) outcome" where
  "get_level_index t log2_size =
     bind_outcome
       (ensure (ct_log2_leaf_size t \<le> log2_size \<and> log2_size \<le> ct_log2_root_size t) SizeOutOfRange)
       (\<lambda>_. Ok (ct_log2_root_size t - log2_size))"

definition get_level :: "CompleteTree \<Rightarrow> nat \<Rightarrow> (MerkleError, Level) outcome" where
  "get_level t log2_size =
     bind_outcome (get_level_index t log2_size) (\<lambda>index. unwrap (get_at (levels t) index))"

text \<open>Storing through the reference of \<open>get_level_mut\<close>; its \<open>expect\<close> panics on an error.\<close>

definition set_level :: "nat \<Rightarrow> Level \<Rightarrow> CompleteTree \<Rightarrow> (MerkleError, CompleteTree) outcome" where
  "set_level log2_size level t =
     (case get_level_index t log2_size of
        Ok index \<Rightarrow>
          if index < length (levels t) then Ok (t\<lparr>levels := (levels t)[index := level]\<rparr>) else Panic
      | _ \<Rightarrow> Panic)"

fun expect :: "('e, 'a) outcome \<Rightarrow> ('e, 'a) outcome" where
  "expect (Ok a) = Ok a"
| "expect (Err e) = Panic"
| "expect Panic = Panic"

definition resize :: "nat \<Rightarrow> 'a \<Rightarrow> 'a list \<Rightarrow> 'a list" where
  "resize n d xs = take n xs @ replicate (n - length xs) d"

text \<open>The update of one level from the level below, with the pristine hash of that level.\<close>

definition bubble_level ::
  "Hasher \<Rightarrow> (MerkleError, Hash) outcome \<Rightarrow> Level \<Rightarrow> Level \<Rightarrow> (MerkleError, Level) outcome" where
  "bubble_level K prev_pristine prev next_level =
     (let first_entry = (if next_level = [] then 0 else length next_level - 1);
          next_level = resize ((length prev + 1) div 2) hash_default next_level;
          last_safe_entry = length prev div 2;
          next_level = foldl (\<lambda>next_level i.
             next_level[i := get_concat_hash K (prev ! (2 * i)) (prev ! (2 * i + 1))])
             next_level [first_entry..<last_safe_entry]
      in if length prev > 2 * last_safe_entry
         then bind_outcome (expect prev_pristine) (\<lambda>p.
                Ok (next_level[last_safe_entry := get_concat_hash K (prev ! (length prev - 1)) p]))
         else Ok next_level)"

definition bubble_step :: "Hasher \<Rightarrow> nat \<Rightarrow> CompleteTree \<Rightarrow> (MerkleError, CompleteTree) outcome" where
  "bubble_step K log2_prev_size t =
     (let log2_next_size = log2_prev_size + 1 in
      bind_outcome (expect (get_level t log2_next_size)) (\<lambda>next_level.
      bind_outcome (expect (get_level t log2_prev_size)) (\<lambda>prev.
      bind_outcome (bubble_level K (pristine_get_hash (pristine t) log2_prev_size) prev next_level) (\<lambda>next_level.
        set_level log2_next_size next_level t))))"

fun bubble_steps :: "Hasher \<Rightarrow> nat list \<Rightarrow> CompleteTree \<Rightarrow> (MerkleError, CompleteTree) outcome" where
  "bubble_steps K [] t = Ok t"
| "bubble_steps K (s # ss) t = bind_outcome (bubble_step K s t) (bubble_steps K ss)"

definition bubble_up :: "Hasher \<Rightarrow> CompleteTree \<Rightarrow> (MerkleError, CompleteTree) outcome" where
  "bubble_up K t = bubble_steps K [ct_log2_leaf_size t..<ct_log2_root_size t] t"

definition new_from_leaves ::
  "Hasher \<Rightarrow> nat \<Rightarrow> nat \<Rightarrow> nat \<Rightarrow> Level \<Rightarrow> (MerkleError, CompleteTree) outcome" where
  "new_from_leaves K log2_root_size log2_leaf_size log2_word_size leaves =
     (let max_len = usize_shl1 (usize_sub log2_root_size log2_leaf_size) in
      bind_outcome (ensure (length leaves \<le> max_len) TooManyLeaves) (\<lambda>_.
      bind_outcome (complete_new K log2_root_size log2_leaf_size log2_word_size) (\<lambda>tree.
      bind_outcome (set_level log2_leaf_size leaves tree) (\<lambda>tree.
        bubble_up K tree))))"

definition get_node_hash :: "CompleteTree \<Rightarrow> nat \<Rightarrow> nat \<Rightarrow> (MerkleError, Hash) outcome" where
  "get_node_hash t address log2_size =
     (let address = usize_shr address log2_size;
          bounds = usize_shl1 (usize_sub (ct_log2_root_size t) log2_size)
      in bind_outcome (ensure (address < bounds) SizeOutOfRange) (\<lambda>_.
         bind_outcome (get_level t log2_size) (\<lambda>level.
           if address < length level then Ok (level ! address)
           else pristine_get_hash (pristine t) log2_size)))"

definition get_root_hash :: "CompleteTree \<Rightarrow> (MerkleError, Hash) outcome" where
  "get_root_hash t = expect (get_node_hash t 0 (ct_log2_root_size t))"

fun set_siblings ::
  "CompleteTree \<Rightarrow> nat \<Rightarrow> nat list \<Rightarrow> MerkleProof \<Rightarrow> (MerkleError, MerkleProof) outcome" where
  "set_siblings t address [] p = Ok p"
| "set_siblings t address (s # ss) p =
     bind_outcome (get_node_hash t (Bit_Operations.xor address (usize_shl1 s)) s) (\<lambda>hash.
     bind_outcome (set_sibling_hash hash s p) (\<lambda>p.
       set_siblings t address ss p))"

definition get_proof :: "CompleteTree \<Rightarrow> nat \<Rightarrow> nat \<Rightarrow> (MerkleError, MerkleProof) outcome" where
  "get_proof t address log2_size =
     bind_outcome
       (ensure (ct_log2_leaf_size t \<le> log2_size \<and> log2_size \<le> ct_log2_root_size t) SizeOutOfRange) (\<lambda>_.
     bind_outcome
       (ensure (address = usize_shl (usize_shr address log2_size) log2_size) MisalignedAddress) (\<lambda>_.
     bind_outcome (get_node_hash t address log2_size) (\<lambda>hash.
     bind_outcome (get_root_hash t) (\<lambda>root.
     bind_outcome (proof_new address log2_size hash (ct_log2_root_size t) root) (\<lambda>p.
       set_siblings t address [log2_size..<ct_log2_root_size t] p)))))"

definition merkle_push :: "Hasher \<Rightarrow> Hash \<Rightarrow> CompleteTree \<Rightarrow> (CompleteTree, MerkleError, unit) action" where
  "merkle_push K leaf t =
     (let max_len = usize_shl1 (usize_sub (ct_log2_root_size t) (ct_log2_leaf_size t)) in
      case expect (get_level t (ct_log2_leaf_size t)) of
        Ok leaves \<Rightarrow>
          and_then (ensure (length leaves < max_len) TreeIsFull, t) (\<lambda>_ t.
            case bind_outcome (set_level (ct_log2_leaf_size t) (leaves @ [leaf]) t) (bubble_up K) of
              Ok t' \<Rightarrow> (Ok (), t')
            | Err e \<Rightarrow> (Err e, t)
            | Panic \<Rightarrow> (Panic, t))
      | Err e \<Rightarrow> (Err e, t)
      | Panic \<Rightarrow> (Panic, t))"

definition merkle_len :: "CompleteTree \<Rightarrow> (MerkleError, nat) outcome" where
  "merkle_len t = bind_outcome (expect (get_level t (ct_log2_leaf_size t))) (\<lambda>level. Ok (length level))"

section \<open>The closed form of the trees\<close>

definition pristine_hash :: "Hasher \<Rightarrow> nat \<Rightarrow> nat \<Rightarrow> Hash" where
  "pristine_hash K w d = ((\<lambda>h. get_concat_hash K h h) ^^ d) (K (replicate (usize_shl1 w) 0))"

definition pristine_of :: "Hasher \<Rightarrow> nat \<Rightarrow> nat \<Rightarrow> PristineTree" where
  "pristine_of K root w =
     \<lparr> pt_log2_root_size = root, pt_log2_word_size = w,
       pt_hashes = map (pristine_hash K w) [0..<Suc (root - w)] \<rparr>"

text \<open>The level above a level, with \<open>p\<close> for a missing right sibling.\<close>

definition level_above :: "Hasher \<Rightarrow> Hash \<Rightarrow> Level \<Rightarrow> Level" where
  "level_above K p prev =
     map (\<lambda>i. get_concat_hash K (prev ! (2 * i))
            (if 2 * i + 1 < length prev then prev ! (2 * i + 1) else p))
       [0..<(length prev + 1) div 2]"

text \<open>The level \<open>d\<close> steps above the leaves, whose pristine hash is that of height \<open>b\<close>.\<close>

fun level_at :: "Hasher \<Rightarrow> nat \<Rightarrow> nat \<Rightarrow> Level \<Rightarrow> nat \<Rightarrow> Level" where
  "level_at K w b leaves 0 = leaves"
| "level_at K w b leaves (Suc d) = level_above K (pristine_hash K w (b + d)) (level_at K w b leaves d)"

definition tree_of :: "Hasher \<Rightarrow> nat \<Rightarrow> nat \<Rightarrow> nat \<Rightarrow> Level \<Rightarrow> CompleteTree" where
  "tree_of K root leaf w leaves =
     \<lparr> ct_log2_root_size = root, ct_log2_leaf_size = leaf, pristine = pristine_of K root w,
       levels = map (\<lambda>j. level_at K w (leaf - w) leaves (root - leaf - j)) [0..<Suc (root - leaf)] \<rparr>"

definition sizes_ok :: "nat \<Rightarrow> nat \<Rightarrow> nat \<Rightarrow> bool" where
  "sizes_ok root leaf w \<longleftrightarrow> w \<le> leaf \<and> leaf \<le> root \<and> root < 64"

lemma push_pristine_eq:
  assumes "hashes = map (pristine_hash K w) [0..<Suc m]"
  shows "push_pristine K n hashes = map (pristine_hash K w) [0..<Suc (m + n)]"
  using assms
proof (induction n arbitrary: hashes m)
  case (Suc n)
  have "hashes ! (length hashes - 1) = pristine_hash K w m"
    using Suc.prems by (simp del: upt_Suc)
  then have ext: "hashes @ [get_concat_hash K (hashes ! (length hashes - 1)) (hashes ! (length hashes - 1))]
      = map (pristine_hash K w) [0..<Suc (Suc m)]"
    using Suc.prems by (simp add: pristine_hash_def)
  show ?case
    using Suc.IH [OF ext] by (simp del: upt_Suc)
qed simp

lemma pristine_new_eq: "w \<le> root \<Longrightarrow> pristine_new K root w = Ok (pristine_of K root w)"
proof -
  assume "w \<le> root"
  have "[K (replicate (usize_shl1 w) 0)] = map (pristine_hash K w) [0..<Suc 0]"
    by (simp add: pristine_hash_def)
  from push_pristine_eq [OF this, of "root - w"] show ?thesis
    using \<open>w \<le> root\<close> by (simp add: pristine_new_def pristine_of_def Let_def del: upt_Suc)
qed

lemma pristine_get_hash_eq:
  "\<lbrakk>w \<le> s; s \<le> root\<rbrakk> \<Longrightarrow> pristine_get_hash (pristine_of K root w) s = Ok (pristine_hash K w (s - w))"
  by (simp add: pristine_get_hash_def pristine_of_def get_at_eq del: upt_Suc)

lemma level_at_Nil [simp]: "level_at K w b [] d = []"
  by (induction d) (simp_all add: level_above_def)

lemma complete_new_eq:
  "sizes_ok root leaf w \<Longrightarrow> complete_new K root leaf w = Ok (tree_of K root leaf w [])"
  by (simp add: complete_new_def sizes_ok_def pristine_new_eq tree_of_def map_replicate_const del: upt_Suc)

lemma get_level_tree_of:
  "\<lbrakk>leaf \<le> s; s \<le> root\<rbrakk> \<Longrightarrow> get_level (tree_of K root leaf w leaves) s = Ok (level_at K w (leaf - w) leaves (s - leaf))"
  by (simp add: get_level_def get_level_index_def tree_of_def get_at_eq del: upt_Suc)

lemma length_level_above [simp]: "length (level_above K p prev) = (length prev + 1) div 2"
  by (simp add: level_above_def)

lemma nth_level_above:
  "i < (length prev + 1) div 2 \<Longrightarrow> level_above K p prev ! i =
     get_concat_hash K (prev ! (2 * i)) (if 2 * i + 1 < length prev then prev ! (2 * i + 1) else p)"
  by (simp add: level_above_def)

section \<open>Bubbling up\<close>

lemma foldl_update:
  "foldl (\<lambda>xs i. xs[i := f i]) xs [a..<b] =
     map (\<lambda>i. if a \<le> i \<and> i < b then f i else xs ! i) [0..<length xs]"
proof (induction b)
  case 0
  then show ?case by (simp add: map_nth)
next
  case (Suc b)
  then show ?case
    by (cases "a \<le> b") (auto intro!: nth_equalityI simp: nth_list_update less_Suc_eq)
qed

text \<open>
  The new level agrees with the old one except at its last entry and past it: the
  situation after leaves were appended.
\<close>

definition agrees :: "'a list \<Rightarrow> 'a list \<Rightarrow> bool" where
  "agrees xs ys \<longleftrightarrow> length xs \<le> length ys \<and> (\<forall>i. Suc i < length xs \<longrightarrow> xs ! i = ys ! i)"

lemma agrees_level_above:
  assumes "agrees prev prev'"
  shows "agrees (level_above K p prev) (level_above K p prev')"
  unfolding agrees_def
proof (intro conjI allI impI)
  show "length (level_above K p prev) \<le> length (level_above K p prev')"
    using assms by (auto simp: agrees_def)
  fix i
  assume i: "Suc i < length (level_above K p prev)"
  then have "Suc (2 * i + 1) < length prev" and "2 * i + 1 < length prev'"
    and "i < (length prev' + 1) div 2" and "i < (length prev + 1) div 2"
    using assms by (auto simp: agrees_def)
  then show "level_above K p prev ! i = level_above K p prev' ! i"
    using assms i by (simp add: nth_level_above agrees_def)
qed

lemma length_resize [simp]: "length (resize n d xs) = n"
  by (simp add: resize_def min_def)

lemma bubble_level_eq:
  assumes "agrees prev prev'" and "length prev' mod 2 = 1 \<Longrightarrow> pr = Ok p"
  shows "bubble_level K pr prev' (level_above K p prev) = Ok (level_above K p prev')"
proof -
  let ?old = "level_above K p prev" and ?n = "(length prev' + 1) div 2" and ?safe = "length prev' div 2"
  let ?first = "if ?old = [] then 0 else length ?old - 1"
  let ?f = "\<lambda>i. get_concat_hash K (prev' ! (2 * i)) (prev' ! (2 * i + 1))"
  let ?next = "resize ?n hash_default ?old"
  have old: "?old ! i = ?f i" if "i < ?first" for i
    using that agrees_level_above [OF assms(1), of K p] assms(1)
    by (auto simp: agrees_def nth_level_above split: if_splits)
  have len: "length ?next = ?n" and old_len: "length ?old \<le> ?n"
    using assms(1) by (auto simp: resize_def agrees_def)
  have upd: "foldl (\<lambda>xs i. xs[i := ?f i]) ?next [?first..<?safe] ! i = ?f i" if "i < ?safe" for i
    using that old [of i] len old_len
    by (auto simp: foldl_update resize_def nth_append)
  have upd_len: "length (foldl (\<lambda>xs i. xs[i := ?f i]) ?next [?first..<?safe]) = ?n"
    by (simp add: foldl_update len)
  show ?thesis
  proof (cases "even (length prev')")
    case True
    then have "?n = ?safe" "length prev' = 2 * ?safe"
      by auto
    then have "foldl (\<lambda>xs i. xs[i := ?f i]) ?next [?first..<?safe] = level_above K p prev'"
      using upd upd_len by (intro nth_equalityI) (auto simp: nth_level_above)
    then show ?thesis
      using \<open>length prev' = 2 * ?safe\<close> by (simp add: bubble_level_def Let_def)
  next
    case False
    then have n: "?n = Suc ?safe" "length prev' = Suc (2 * ?safe)" "length prev' - 1 = 2 * ?safe"
      by (auto elim: oddE)
    then have "(foldl (\<lambda>xs i. xs[i := ?f i]) ?next [?first..<?safe])[?safe := get_concat_hash K (prev' ! (length prev' - 1)) p]
        = level_above K p prev'"
      using upd upd_len by (intro nth_equalityI [where xs = "list_update _ _ _"])
        (auto simp: nth_level_above nth_list_update less_Suc_eq)
    moreover have "pr = Ok p" "2 * ?safe < length prev'"
      using n(2) assms(2) False by (simp_all add: odd_iff_mod_2_eq_one)
    ultimately show ?thesis
      unfolding bubble_level_def Let_def by (simp only: if_True expect.simps bind_outcome.simps)
  qed
qed

lemma agrees_level_at: "agrees old new \<Longrightarrow> agrees (level_at K w b old d) (level_at K w b new d)"
  by (induction d) (simp_all add: agrees_level_above)

lemma agrees_Nil: "agrees [] ys"
  by (simp add: agrees_def)

lemma agrees_snoc: "agrees xs (xs @ [x])"
  by (auto simp: agrees_def nth_append)

text \<open>The tree while the levels up to \<open>d\<close> have been updated from \<open>old\<close> to \<open>new\<close> leaves.\<close>

definition mixed_tree :: "Hasher \<Rightarrow> nat \<Rightarrow> nat \<Rightarrow> nat \<Rightarrow> Level \<Rightarrow> Level \<Rightarrow> nat \<Rightarrow> CompleteTree" where
  "mixed_tree K root leaf w old new d =
     (tree_of K root leaf w new)\<lparr>levels := map (\<lambda>j.
        level_at K w (leaf - w) (if root - leaf - j \<le> d then new else old) (root - leaf - j))
        [0..<Suc (root - leaf)]\<rparr>"

lemma get_level_mixed:
  "\<lbrakk>leaf \<le> s; s \<le> root\<rbrakk> \<Longrightarrow> get_level (mixed_tree K root leaf w old new d) s =
     Ok (level_at K w (leaf - w) (if s - leaf \<le> d then new else old) (s - leaf))"
  by (simp add: get_level_def get_level_index_def mixed_tree_def tree_of_def get_at_eq del: upt_Suc)

lemma mixed_tree_simps [simp]:
  "ct_log2_root_size (mixed_tree K root leaf w old new d) = root"
  "ct_log2_leaf_size (mixed_tree K root leaf w old new d) = leaf"
  "pristine (mixed_tree K root leaf w old new d) = pristine_of K root w"
  by (simp_all add: mixed_tree_def tree_of_def)

lemma set_level_mixed:
  assumes "d < root - leaf"
  shows "set_level (leaf + Suc d) (level_at K w (leaf - w) new (Suc d)) (mixed_tree K root leaf w old new d)
    = Ok (mixed_tree K root leaf w old new (Suc d))"
proof -
  have "(map (\<lambda>j. level_at K w (leaf - w) (if root - leaf - j \<le> d then new else old) (root - leaf - j))
        [0..<Suc (root - leaf)])[root - (leaf + Suc d) := level_at K w (leaf - w) new (Suc d)]
      = map (\<lambda>j. level_at K w (leaf - w) (if root - leaf - j \<le> Suc d then new else old) (root - leaf - j))
        [0..<Suc (root - leaf)]" (is "?xs[?i := ?v] = ?ys")
  proof (rule nth_equalityI)
    fix j
    assume "j < length (?xs[?i := ?v])"
    then have j: "j < Suc (root - leaf)"
      by (simp del: upt_Suc)
    show "?xs[?i := ?v] ! j = ?ys ! j"
    proof (cases "j = ?i")
      case True
      then have "root - leaf - j = Suc d"
        using assms by simp
      then show ?thesis
        using True j by (simp del: upt_Suc level_at.simps)
    next
      case False
      then have "root - leaf - j \<le> Suc d \<longleftrightarrow> root - leaf - j \<le> d"
        using assms j by linarith
      then show ?thesis
        using False j by (simp del: upt_Suc level_at.simps)
    qed
  qed simp
  moreover have "leaf + Suc d \<le> root"
    using assms by simp
  ultimately show ?thesis
    by (simp add: set_level_def get_level_index_def mixed_tree_def tree_of_def del: upt_Suc level_at.simps)
qed

lemma bubble_step_mixed:
  assumes "sizes_ok root leaf w" and "agrees old new" and "d < root - leaf"
  shows "bubble_step K (leaf + d) (mixed_tree K root leaf w old new d) = Ok (mixed_tree K root leaf w old new (Suc d))"
proof -
  let ?b = "leaf - w" and ?t = "mixed_tree K root leaf w old new d"
  have next_level: "get_level ?t (leaf + d + 1) = Ok (level_at K w ?b old (Suc d))"
    and prev: "get_level ?t (leaf + d) = Ok (level_at K w ?b new d)"
    using assms(3) by (simp_all add: get_level_mixed del: level_at.simps)
  have pr: "pristine_get_hash (pristine_of K root w) (leaf + d) = Ok (pristine_hash K w (?b + d))"
    using assms(1,3) by (simp add: pristine_get_hash_eq sizes_ok_def)
  have "bubble_level K (Ok (pristine_hash K w (?b + d))) (level_at K w ?b new d) (level_at K w ?b old (Suc d))
      = Ok (level_at K w ?b new (Suc d))"
    by (simp add: bubble_level_eq [OF agrees_level_at [OF assms(2)]])
  then show ?thesis
    using set_level_mixed [OF assms(3), of K w new old]
    unfolding bubble_step_def Let_def next_level prev by (simp add: pr del: level_at.simps)
qed

lemma bubble_steps_mixed:
  assumes "sizes_ok root leaf w" and "agrees old new" and "d \<le> root - leaf"
  shows "bubble_steps K [leaf + d..<root] (mixed_tree K root leaf w old new d)
    = Ok (mixed_tree K root leaf w old new (root - leaf))"
  using assms(3)
proof (induction "root - leaf - d" arbitrary: d)
  case 0
  then have "d = root - leaf"
    by simp
  then show ?case
    by simp
next
  case (Suc k)
  then have "d < root - leaf"
    by simp
  moreover from this have "[leaf + d..<root] = (leaf + d) # [leaf + Suc d..<root]"
    by (simp add: upt_conv_Cons)
  ultimately show ?case
    using bubble_step_mixed [OF assms(1,2), of d K] Suc(1) [of "Suc d"] Suc(2) by simp
qed

lemma mixed_tree_full: "mixed_tree K root leaf w old new (root - leaf) = tree_of K root leaf w new"
proof -
  have "root - leaf - j \<le> root - leaf" for j
    by simp
  then show ?thesis
    by (simp only: mixed_tree_def tree_of_def if_True) simp
qed

text \<open>Replacing the leaves of a tree and bubbling up gives the tree of the new leaves.\<close>

lemma bubble_up_eq:
  assumes "sizes_ok root leaf w" and "agrees old new"
  shows "bind_outcome (set_level leaf new (tree_of K root leaf w old)) (bubble_up K) = Ok (tree_of K root leaf w new)"
proof -
  have "(map (\<lambda>j. level_at K w (leaf - w) old (root - leaf - j)) [0..<Suc (root - leaf)])[root - leaf := new]
      = map (\<lambda>j. level_at K w (leaf - w) (if root - leaf - j \<le> 0 then new else old) (root - leaf - j))
        [0..<Suc (root - leaf)]"
    by (rule nth_equalityI) (auto simp: nth_list_update less_Suc_eq nth_append simp del: upt_Suc)
  then have "set_level leaf new (tree_of K root leaf w old) = Ok (mixed_tree K root leaf w old new 0)"
    using assms(1)
    by (simp add: set_level_def get_level_index_def tree_of_def mixed_tree_def sizes_ok_def del: upt_Suc)
  then show ?thesis
    using bubble_steps_mixed [OF assms, of 0 K] by (simp add: bubble_up_def mixed_tree_full)
qed

lemma max_len_eq: "sizes_ok root leaf w \<Longrightarrow> usize_shl1 (usize_sub root leaf) = 2 ^ (root - leaf)"
  by (auto simp: usize_shl1_def usize_sub_def sizes_ok_def less_imp_diff_less)

lemma new_from_leaves_eq:
  assumes "sizes_ok root leaf w"
  shows "new_from_leaves K root leaf w leaves =
    (if length leaves \<le> 2 ^ (root - leaf) then Ok (tree_of K root leaf w leaves) else Err TooManyLeaves)"
  using bubble_up_eq [OF assms agrees_Nil, where K = K and new = leaves]
  by (simp add: new_from_leaves_def max_len_eq [OF assms] complete_new_eq [OF assms])

lemma merkle_push_eq:
  assumes "sizes_ok root leaf w"
  shows "merkle_push K x (tree_of K root leaf w leaves) =
    (if length leaves < 2 ^ (root - leaf) then (Ok (), tree_of K root leaf w (leaves @ [x]))
     else (Err TreeIsFull, tree_of K root leaf w leaves))"
proof -
  have "get_level (tree_of K root leaf w leaves) leaf = Ok leaves"
    using get_level_tree_of [of leaf leaf root K w leaves] assms by (simp add: sizes_ok_def)
  moreover have "ct_log2_root_size (tree_of K root leaf w leaves) = root"
    "ct_log2_leaf_size (tree_of K root leaf w leaves) = leaf"
    by (simp_all add: tree_of_def)
  ultimately show ?thesis
    using bubble_up_eq [OF assms agrees_snoc [of leaves x], of K]
    by (simp add: merkle_push_def max_len_eq [OF assms])
qed

section \<open>The full binary tree\<close>

text \<open>
  Node \<open>i\<close> at height \<open>d\<close> above the leaves of the tree in which the leaves are followed by
  pristine ones without end.
\<close>

fun node :: "Hasher \<Rightarrow> nat \<Rightarrow> nat \<Rightarrow> Level \<Rightarrow> nat \<Rightarrow> nat \<Rightarrow> Hash" where
  "node K w b leaves 0 i = (if i < length leaves then leaves ! i else pristine_hash K w b)"
| "node K w b leaves (Suc d) i =
     get_concat_hash K (node K w b leaves d (2 * i)) (node K w b leaves d (2 * i + 1))"

lemma pristine_hash_Suc:
  "pristine_hash K w (Suc d) = get_concat_hash K (pristine_hash K w d) (pristine_hash K w d)"
  by (simp add: pristine_hash_def)

lemma node_level_at:
  "node K w b leaves d i =
     (if i < length (level_at K w b leaves d) then level_at K w b leaves d ! i
      else pristine_hash K w (b + d))"
proof (induction d arbitrary: i)
  case (Suc d)
  let ?L = "level_at K w b leaves d"
  have above: "i < (length ?L + 1) div 2 \<longleftrightarrow> 2 * i < length ?L"
    by linarith
  show ?case
  proof (cases "2 * i < length ?L")
    case True
    then show ?thesis
      using above by (simp add: Suc nth_level_above)
  next
    case False
    then show ?thesis
      using above by (simp add: Suc pristine_hash_Suc)
  qed
qed simp

lemma get_node_hash_eq:
  assumes "sizes_ok root leaf w" and "leaf \<le> s" and "s \<le> root"
  shows "get_node_hash (tree_of K root leaf w leaves) address s =
    (if address div 2 ^ s < 2 ^ (root - s)
     then Ok (node K w (leaf - w) leaves (s - leaf) (address div 2 ^ s)) else Err SizeOutOfRange)"
proof -
  have "pristine_get_hash (pristine_of K root w) s = Ok (pristine_hash K w (leaf - w + (s - leaf)))"
    using assms by (simp add: pristine_get_hash_eq sizes_ok_def)
  moreover have "usize_shr address s = address div 2 ^ s" "usize_shl1 (usize_sub root s) = 2 ^ (root - s)"
    using assms by (auto simp: usize_shr_def usize_shl1_def usize_sub_def sizes_ok_def less_imp_diff_less)
  moreover have "ct_log2_root_size (tree_of K root leaf w leaves) = root"
    "pristine (tree_of K root leaf w leaves) = pristine_of K root w"
    by (simp_all add: tree_of_def)
  ultimately show ?thesis
    using get_level_tree_of [OF assms(2,3), of K w leaves]
    by (simp add: get_node_hash_def node_level_at Let_def)
qed

lemma get_root_hash_eq:
  "sizes_ok root leaf w \<Longrightarrow>
   get_root_hash (tree_of K root leaf w leaves) = Ok (node K w (leaf - w) leaves (root - leaf) 0)"
  using get_node_hash_eq [of root leaf w root K leaves 0] by (simp add: get_root_hash_def sizes_ok_def tree_of_def)

section \<open>Proofs\<close>

text \<open>The siblings of node \<open>a\<close> at height \<open>d\<close> on the way up, and the check of a proof.\<close>

definition siblings :: "Hasher \<Rightarrow> nat \<Rightarrow> nat \<Rightarrow> Level \<Rightarrow> nat \<Rightarrow> nat \<Rightarrow> nat \<Rightarrow> Hash list" where
  "siblings K w b leaves d a n =
     map (\<lambda>k. node K w b leaves (d + k) (Bit_Operations.xor (a div 2 ^ k) 1)) [0..<n]"

fun roll_up :: "Hasher \<Rightarrow> Hash \<Rightarrow> nat \<Rightarrow> Hash list \<Rightarrow> Hash" where
  "roll_up K h a [] = h"
| "roll_up K h a (sib # sibs) =
     roll_up K (if even a then get_concat_hash K h sib else get_concat_hash K sib h) (a div 2) sibs"

definition proof_root :: "Hasher \<Rightarrow> MerkleProof \<Rightarrow> Hash" where
  "proof_root K p = roll_up K (target_hash p) (target_address p div 2 ^ log2_target_size p) (sibling_hashes p)"

lemma node_parent:
  "node K w b leaves (Suc d) (a div 2) =
     (if even a then get_concat_hash K (node K w b leaves d a) (node K w b leaves d (Bit_Operations.xor a 1))
      else get_concat_hash K (node K w b leaves d (Bit_Operations.xor a 1)) (node K w b leaves d a))"
  by (auto simp: xor_Suc_0_eq elim!: evenE oddE)

lemma siblings_Suc:
  "siblings K w b leaves d a (Suc n) =
     node K w b leaves d (Bit_Operations.xor a 1) # siblings K w b leaves (Suc d) (a div 2) n"
  by (simp add: siblings_def upt_conv_Cons map_Suc_upt [symmetric] div_mult2_eq [symmetric] comp_def
      del: upt_Suc)

lemma roll_up_siblings:
  "roll_up K (node K w b leaves d a) a (siblings K w b leaves d a n) = node K w b leaves (d + n) (a div 2 ^ n)"
proof (induction n arbitrary: d a)
  case 0
  then show ?case by (simp add: siblings_def)
next
  case (Suc n)
  have "roll_up K (node K w b leaves d a) a (siblings K w b leaves d a (Suc n)) =
      roll_up K (node K w b leaves (Suc d) (a div 2)) (a div 2) (siblings K w b leaves (Suc d) (a div 2) n)"
    by (simp only: siblings_Suc roll_up.simps node_parent)
  then show ?case
    using Suc [of "Suc d" "a div 2"] by (simp add: div_mult2_eq)
qed

lemma xor_pow2_div:
  "Bit_Operations.xor address (2 ^ m) div 2 ^ m = Bit_Operations.xor (address div 2 ^ m) (1 :: nat)"
proof -
  have "drop_bit m (Bit_Operations.xor address (2 ^ m)) = Bit_Operations.xor (drop_bit m address) (drop_bit m (2 ^ m))"
    by (rule drop_bit_xor)
  then show ?thesis
    by (simp add: drop_bit_eq_div)
qed

lemma xor_one_less: "\<lbrakk>c < 2 ^ n; 0 < n\<rbrakk> \<Longrightarrow> Bit_Operations.xor c 1 < (2 ^ n :: nat)"
proof -
  assume "c < 2 ^ n" "0 < n"
  then obtain m where "n = Suc m"
    by (cases n) auto
  with \<open>c < 2 ^ n\<close> show ?thesis
    by (auto simp: xor_Suc_0_eq elim!: evenE oddE)
qed

lemma sibling_node:
  assumes "sizes_ok root leaf w" and "leaf \<le> s" and "s + k < root" and "a < 2 ^ (root - s)"
  shows "get_node_hash (tree_of K root leaf w leaves)
      (Bit_Operations.xor (a * 2 ^ s) (usize_shl1 (s + k))) (s + k)
    = Ok (node K w (leaf - w) leaves (s - leaf + k) (Bit_Operations.xor (a div 2 ^ k) 1))"
proof -
  have "(s + k) mod 64 = s + k"
    using assms by (simp add: sizes_ok_def)
  then have "Bit_Operations.xor (a * 2 ^ s) (usize_shl1 (s + k)) div 2 ^ (s + k) = Bit_Operations.xor (a div 2 ^ k) 1"
    using xor_pow2_div [of "a * 2 ^ s" "s + k"] by (simp add: usize_shl1_def power_add div_mult2_eq)
  moreover have "a div 2 ^ k < 2 ^ (root - s - k)"
    using assms(3,4) by (simp add: less_mult_imp_div_less power_add [symmetric])
  then have "Bit_Operations.xor (a div 2 ^ k) 1 < 2 ^ (root - (s + k))"
    using xor_one_less [of "a div 2 ^ k" "root - s - k"] assms(3) by simp
  moreover have "s + k - leaf = s - leaf + k"
    using assms(2) by simp
  ultimately show ?thesis
    using get_node_hash_eq [OF assms(1), of "s + k"] assms(2,3) by simp
qed

lemma set_siblings_eq:
  assumes "sizes_ok root leaf w" and "leaf \<le> s" and "a < 2 ^ (root - s)" and "s + n = root" and "k \<le> n"
    and "mp_log2_root_size p = root" and "log2_target_size p = s"
    and "sibling_hashes p = siblings K w (leaf - w) leaves (s - leaf) a k @ replicate (n - k) hash_default"
  shows "set_siblings (tree_of K root leaf w leaves) (a * 2 ^ s) [s + k..<root] p =
    Ok (p\<lparr>sibling_hashes := siblings K w (leaf - w) leaves (s - leaf) a n\<rparr>)"
  using assms(5-8)
proof (induction "n - k" arbitrary: k p)
  case 0
  then have "k = n"
    by simp
  then show ?case
    using 0 assms(4) by simp
next
  case (Suc m)
  let ?sib = "\<lambda>k. siblings K w (leaf - w) leaves (s - leaf) a k"
  let ?h = "node K w (leaf - w) leaves (s - leaf + k) (Bit_Operations.xor (a div 2 ^ k) 1)"
  have k: "k < n" "s + k < root"
    using Suc(2) assms(4) by auto
  have len: "length (?sib k) = k"
    by (simp add: siblings_def)
  have "replicate (n - k) hash_default = hash_default # replicate (n - Suc k) hash_default"
    using k(1) by (metis Suc_diff_Suc replicate_Suc)
  then have "(sibling_hashes p)[k := ?h] = ?sib (Suc k) @ replicate (n - Suc k) hash_default"
    using Suc(6) len by (simp add: list_update_append siblings_def)
  moreover have "log2_size_to_index p (s + k) = Ok k"
    using Suc(4-6) k len by (simp add: log2_size_to_index_def Let_def)
  ultimately have set: "set_sibling_hash ?h (s + k) p =
      Ok (p\<lparr>sibling_hashes := ?sib (Suc k) @ replicate (n - Suc k) hash_default\<rparr>)"
    by (simp add: set_sibling_hash_def)
  have "[s + k..<root] = (s + k) # [s + Suc k..<root]"
    using k(2) by (simp add: upt_conv_Cons)
  then show ?case
    using Suc(1) [of "Suc k" "p\<lparr>sibling_hashes := ?sib (Suc k) @ replicate (n - Suc k) hash_default\<rparr>"]
      Suc(2,4,5) k set sibling_node [OF assms(1,2) k(2) assms(3), of K leaves]
    by simp
qed

lemma get_proof_eq:
  assumes "sizes_ok root leaf w" and "leaf \<le> s" and "s \<le> root" and "a < 2 ^ (root - s)"
  shows "get_proof (tree_of K root leaf w leaves) (a * 2 ^ s) s =
    Ok \<lparr> target_address = a * 2 ^ s, log2_target_size = s,
         target_hash = node K w (leaf - w) leaves (s - leaf) a, mp_log2_root_size = root,
         root_hash = node K w (leaf - w) leaves (root - leaf) 0,
         sibling_hashes = siblings K w (leaf - w) leaves (s - leaf) a (root - s) \<rparr>"
proof -
  let ?t = "tree_of K root leaf w leaves"
  have s64: "s mod 64 = s" "root < 64"
    using assms by (auto simp: sizes_ok_def)
  have "a * 2 ^ s < 2 ^ (root - s) * 2 ^ s"
    using assms(4) by simp
  also have "\<dots> = 2 ^ root"
    using assms(3) by (simp add: power_add [symmetric])
  also have "\<dots> < 2 ^ 64"
    using s64(2) by (rule power_strict_increasing) simp
  finally have "usize_shl (usize_shr (a * 2 ^ s) s) s = a * 2 ^ s"
    by (simp add: usize_shl_def usize_shr_def s64)
  moreover have "get_node_hash ?t (a * 2 ^ s) s = Ok (node K w (leaf - w) leaves (s - leaf) a)"
    using get_node_hash_eq [OF assms(1-3)] assms(4) by simp
  moreover have "ct_log2_root_size ?t = root" "ct_log2_leaf_size ?t = leaf"
    by (simp_all add: tree_of_def)
  moreover have "siblings K w (leaf - w) leaves (s - leaf) a 0 = []"
    by (simp add: siblings_def)
  ultimately show ?thesis
    using set_siblings_eq [OF assms(1,2,4), of "root - s" 0] assms(2,3)
    by (simp add: get_proof_def get_root_hash_eq [OF assms(1)] proof_new_def)
qed

section \<open>The contract of an append-only tree\<close>

text \<open>
  What a client of a Merkle tree relies on: leaves are appended up to a capacity, and the
  proof of a leaf carries that leaf and checks against the root.
\<close>

locale merkle_accumulator =
  fixes K :: Hasher
    and rep :: "'t \<Rightarrow> Hash list \<Rightarrow> bool"
    and capacity :: nat
    and push :: "Hash \<Rightarrow> 't \<Rightarrow> ('t, MerkleError, unit) action"
    and len :: "'t \<Rightarrow> (MerkleError, nat) outcome"
    and root :: "'t \<Rightarrow> (MerkleError, Hash) outcome"
    and prove :: "'t \<Rightarrow> nat \<Rightarrow> (MerkleError, MerkleProof) outcome"
  assumes rep_capacity: "rep t ls \<Longrightarrow> length ls \<le> capacity"
    and push_ok: "\<lbrakk>rep t ls; length ls < capacity\<rbrakk> \<Longrightarrow> \<exists>t'. push x t = (Ok (), t') \<and> rep t' (ls @ [x])"
    and push_full: "\<lbrakk>rep t ls; length ls = capacity\<rbrakk> \<Longrightarrow> push x t = (Err TreeIsFull, t)"
    and len_ok: "rep t ls \<Longrightarrow> len t = Ok (length ls)"
    and prove_ok: "\<lbrakk>rep t ls; i < length ls\<rbrakk> \<Longrightarrow>
      \<exists>p r. prove t i = Ok p \<and> root t = Ok r \<and> target_hash p = ls ! i \<and> root_hash p = r \<and> proof_root K p = r \<and>
        roll_up K (ls ! i) i (sibling_hashes p) = r"
begin

lemma push_cases:
  assumes "rep t ls"
  obtains (Ok) t' where "push x t = (Ok (), t')" and "rep t' (ls @ [x])" and "length ls < capacity"
    | (Full) "push x t = (Err TreeIsFull, t)" and "length ls = capacity"
  using push_ok [OF assms, of x] push_full [OF assms, of x] rep_capacity [OF assms]
  by (metis le_neq_implies_less)

lemma prove_pushed:
  assumes "rep t ls" and "push x t = (Ok (), t')"
  shows "\<exists>p r. prove t' (length ls) = Ok p \<and> root t' = Ok r \<and> target_hash p = x \<and> proof_root K p = r"
proof -
  have "rep t' (ls @ [x])"
    using assms by (cases rule: push_cases [where x = x]) auto
  then show ?thesis
    using prove_ok [of t' "ls @ [x]" "length ls"] by auto
qed

end

definition leaf_tree :: "Hasher \<Rightarrow> nat \<Rightarrow> nat \<Rightarrow> nat \<Rightarrow> CompleteTree \<Rightarrow> Hash list \<Rightarrow> bool" where
  "leaf_tree K root leaf w t ls \<longleftrightarrow>
     sizes_ok root leaf w \<and> length ls \<le> 2 ^ (root - leaf) \<and> t = tree_of K root leaf w ls"

lemma siblings_length [simp]: "length (siblings K w b leaves d a n) = n"
  by (simp add: siblings_def)

text \<open>The proof of any aligned node checks against the root.\<close>

lemma get_proof_checks:
  assumes "sizes_ok root leaf w" and "leaf \<le> s" and "s \<le> root" and "a < 2 ^ (root - s)"
  obtains p where "get_proof (tree_of K root leaf w leaves) (a * 2 ^ s) s = Ok p"
    and "target_hash p = node K w (leaf - w) leaves (s - leaf) a"
    and "root_hash p = node K w (leaf - w) leaves (root - leaf) 0"
    and "proof_root K p = root_hash p"
    and "length (sibling_hashes p) = root - s"
    and "target_address p = a * 2 ^ s" and "log2_target_size p = s"
proof -
  have "s - leaf + (root - s) = root - leaf" "a div 2 ^ (root - s) = 0"
    using assms by auto
  then show ?thesis
    using roll_up_siblings [of K w "leaf - w" leaves "s - leaf" a "root - s"]
    by (intro that [OF get_proof_eq [OF assms]]) (simp_all add: proof_root_def)
qed

interpretation leaves: merkle_accumulator K "leaf_tree K root leaf w" "2 ^ (root - leaf)"
    "merkle_push K" merkle_len get_root_hash "\<lambda>t i. get_proof t (i * 2 ^ leaf) leaf"
  for K root leaf w
proof (standard, goal_cases)
  case (1 t ls)
  then show ?case by (simp add: leaf_tree_def)
next
  case (2 t ls x)
  then show ?case by (auto simp: leaf_tree_def merkle_push_eq)
next
  case (3 t ls x)
  then show ?case by (auto simp: leaf_tree_def merkle_push_eq)
next
  case (4 t ls)
  then show ?case
    using get_level_tree_of [of leaf leaf root K w ls]
    by (auto simp: leaf_tree_def merkle_len_def sizes_ok_def tree_of_def)
next
  case (5 t ls i)
  then have ok: "sizes_ok root leaf w" and t: "t = tree_of K root leaf w ls" and i: "i < 2 ^ (root - leaf)"
    by (auto simp: leaf_tree_def)
  then have "leaf \<le> root"
    by (simp add: sizes_ok_def)
  then obtain p where p: "get_proof t (i * 2 ^ leaf) leaf = Ok p" "target_hash p = ls ! i"
    "get_root_hash t = Ok (root_hash p)" "proof_root K p = root_hash p"
    "target_address p = i * 2 ^ leaf" "log2_target_size p = leaf"
    using get_proof_checks [OF ok order.refl _ i, of K ls] 5(2) t get_root_hash_eq [OF ok, of K ls]
    by (metis diff_self_eq_0 node.simps(1))
  then have "roll_up K (ls ! i) i (sibling_hashes p) = root_hash p"
    by (simp add: proof_root_def)
  with p show ?case
    by blast
qed

section \<open>Properties\<close>

text \<open>Building a complete tree from leaves gives the full binary tree over the leaves
  padded with pristine ones: its root hash is the root of that tree and its length the
  number of leaves; more leaves than fit are refused.\<close>

theorem complete_tree_root:
  assumes "sizes_ok root leaf w"
  shows "(length leaves \<le> 2 ^ (root - leaf) \<longrightarrow>
      (\<exists>t. new_from_leaves K root leaf w leaves = Ok t \<and>
         get_root_hash t = Ok (node K w (leaf - w) leaves (root - leaf) 0) \<and>
         merkle_len t = Ok (length leaves))) \<and>
    (length leaves > 2 ^ (root - leaf) \<longrightarrow> new_from_leaves K root leaf w leaves = Err TooManyLeaves)"
  using new_from_leaves_eq [OF assms, of K leaves] get_root_hash_eq [OF assms, of K leaves]
    leaves.len_ok [of K root leaf w "tree_of K root leaf w leaves" leaves] assms
  by (auto simp: leaf_tree_def)

theorem complete_tree_root_witness:
  "\<exists>t. new_from_leaves (\<lambda>d. take 32 (d @ replicate 32 1)) 4 3 3 [replicate 32 5, replicate 32 6] = Ok t \<and>
     get_root_hash t = Ok (replicate 32 5)"
  using complete_tree_root [of 4 3 3 "[replicate 32 5, replicate 32 6]" "\<lambda>d. take 32 (d @ replicate 32 1)"]
  by (auto simp: sizes_ok_def get_concat_hash_def)

text \<open>C11: appending one leaf, which recomputes only the right edge of the tree, gives the
  same tree as building it again from all the leaves; a full tree refuses the leaf and
  stays as it is.\<close>

theorem push_equals_rebuild:
  assumes "sizes_ok root leaf w" and "new_from_leaves K root leaf w leaves = Ok t"
  shows "(length leaves < 2 ^ (root - leaf) \<longrightarrow>
      (\<exists>t'. merkle_push K x t = (Ok (), t') \<and> new_from_leaves K root leaf w (leaves @ [x]) = Ok t')) \<and>
    (length leaves = 2 ^ (root - leaf) \<longrightarrow> merkle_push K x t = (Err TreeIsFull, t))"
  using assms by (auto simp: new_from_leaves_eq merkle_push_eq split: if_splits)

theorem push_equals_rebuild_witness:
  "\<exists>t t'. new_from_leaves (\<lambda>d. d) 4 3 3 [[5]] = Ok t \<and> merkle_push (\<lambda>d. d) [6] t = (Ok (), t') \<and>
     new_from_leaves (\<lambda>d. d) 4 3 3 [[5], [6]] = Ok t'"
proof -
  have ok: "sizes_ok 4 3 3"
    by (simp add: sizes_ok_def)
  have "new_from_leaves (\<lambda>d. d) 4 3 3 [[5]] = Ok (tree_of (\<lambda>d. d) 4 3 3 [[5]])"
    by (simp add: new_from_leaves_eq [OF ok])
  then show ?thesis
    using push_equals_rebuild [OF ok, of "\<lambda>d. d" "[[5]]" "tree_of (\<lambda>d. d) 4 3 3 [[5]]" "[6]"] by auto
qed

text \<open>C23: the proof of a node checks against the root of the tree: hashing the node with the
  siblings of the proof along the bits of its address gives the root hash, and the target
  of the proof of leaf \<open>a\<close> is that leaf.  A size outside the tree and an address that is not
  a multiple of the size are refused.\<close>

theorem proof_checks:
  assumes "sizes_ok root leaf w" and "new_from_leaves K root leaf w leaves = Ok t"
  shows "(leaf \<le> s \<and> s \<le> root \<and> a < 2 ^ (root - s) \<longrightarrow>
      (\<exists>p r. get_proof t (a * 2 ^ s) s = Ok p \<and> get_root_hash t = Ok r \<and> root_hash p = r \<and>
         proof_root K p = r \<and> length (sibling_hashes p) = root - s \<and>
         (s = leaf \<and> a < length leaves \<longrightarrow> target_hash p = leaves ! a))) \<and>
    (s < leaf \<or> root < s \<longrightarrow> get_proof t address s = Err SizeOutOfRange) \<and>
    (leaf \<le> s \<and> s \<le> root \<and> address < 2 ^ 64 \<and> \<not> 2 ^ s dvd address \<longrightarrow>
       get_proof t address s = Err MisalignedAddress)"
proof (intro conjI impI)
  have t: "t = tree_of K root leaf w leaves"
    using assms by (simp add: new_from_leaves_eq split: if_splits)
  then have sizes: "ct_log2_leaf_size t = leaf" "ct_log2_root_size t = root"
    by (simp_all add: tree_of_def)
  show "\<exists>p r. get_proof t (a * 2 ^ s) s = Ok p \<and> get_root_hash t = Ok r \<and> root_hash p = r \<and>
      proof_root K p = r \<and> length (sibling_hashes p) = root - s \<and>
      (s = leaf \<and> a < length leaves \<longrightarrow> target_hash p = leaves ! a)"
    if "leaf \<le> s \<and> s \<le> root \<and> a < 2 ^ (root - s)"
    using get_proof_checks [OF assms(1), of s a K leaves] get_root_hash_eq [OF assms(1), of K leaves] that t
    by (metis diff_self_eq_0 node.simps(1))
  show "get_proof t address s = Err SizeOutOfRange" if "s < leaf \<or> root < s"
    using that by (auto simp: get_proof_def sizes)
  show "get_proof t address s = Err MisalignedAddress"
    if "leaf \<le> s \<and> s \<le> root \<and> address < 2 ^ 64 \<and> \<not> 2 ^ s dvd address"
  proof -
    have "s mod 64 = s"
      using that assms(1) by (simp add: sizes_ok_def)
    moreover have "address div 2 ^ s * 2 ^ s < 2 ^ 64"
      using that by (intro le_less_trans [OF div_times_less_eq_dividend]) simp
    ultimately have "usize_shl (usize_shr address s) s = address div 2 ^ s * 2 ^ s"
      by (simp add: usize_shl_def usize_shr_def)
    moreover have "address div 2 ^ s * 2 ^ s \<noteq> address"
      using that by (metis dvd_triv_right)
    ultimately show ?thesis
      using that by (simp add: get_proof_def sizes)
  qed
qed

theorem proof_checks_witness:
  "\<exists>t p. new_from_leaves (\<lambda>d. d) 4 3 3 [[5], [6]] = Ok t \<and> get_proof t 8 3 = Ok p \<and> target_hash p = [6] \<and>
     proof_root (\<lambda>d. d) p = [5, 6]"
proof -
  have ok: "sizes_ok 4 3 3"
    by (simp add: sizes_ok_def)
  have t: "new_from_leaves (\<lambda>d. d) 4 3 3 [[5], [6]] = Ok (tree_of (\<lambda>d. d) 4 3 3 [[5], [6]])"
    by (simp add: new_from_leaves_eq [OF ok])
  moreover have "get_root_hash (tree_of (\<lambda>d. d) 4 3 3 [[5], [6]]) = Ok [5, 6]"
    by (simp add: get_root_hash_eq [OF ok] get_concat_hash_def)
  ultimately show ?thesis
    using proof_checks [OF ok t, of 3 1] by auto
qed

text \<open>Two different pairs of hashes with the same hash are a collision of the hash function.\<close>

definition collision :: "Hasher \<Rightarrow> bool" where
  "collision K \<longleftrightarrow> (\<exists>x y. x \<noteq> y \<and> length x = 64 \<and> length y = 64 \<and> K x = K y)"

lemma concat_hash_inject:
  assumes "get_concat_hash K a b = get_concat_hash K c d"
    and "length a = 32" "length b = 32" "length c = 32" "length d = 32"
  shows "a = c \<and> b = d \<or> collision K"
proof (cases "a @ b = c @ d")
  case True
  then show ?thesis
    using assms by simp
next
  case False
  then show ?thesis
    using assms unfolding collision_def get_concat_hash_def by (metis length_append numeral_Bit0)
qed

lemma roll_up_inject:
  assumes "roll_up K h a sibs = roll_up K h' a sibs'" and "length sibs = length sibs'"
    and "length h = 32" "length h' = 32" "\<forall>s \<in> set sibs \<union> set sibs'. length s = 32"
    and "\<And>d. length (K d) = 32"
  shows "h = h' \<or> collision K"
  using assms(2,1,3-5)
proof (induction sibs sibs' arbitrary: h h' a rule: list_induct2)
  case (Cons s sibs s' sibs')
  let ?up = "\<lambda>h s. if even a then get_concat_hash K h s else get_concat_hash K s h"
  have "?up h s = ?up h' s' \<or> collision K"
    using Cons.prems by (intro Cons.IH [of _ "a div 2"]) (auto simp: get_concat_hash_def assms(6))
  then show ?case
    using concat_hash_inject [of K h s h' s'] concat_hash_inject [of K s h s' h'] Cons.prems
    by (auto split: if_splits)
qed simp



end
