(* ===== verification/Host_Model.thy ===== *)
theory Host_Model
  imports Merkle
begin

text \<open>
  The data of the host runner (\<open>model.rs\<close>), the hashes of vouchers and notices
  (\<open>driver.rs\<close>) and their proofs (\<open>proofs.rs\<close>).  As in \<open>Merkle\<close>, \<open>K\<close> is Keccak-256.
\<close>

section \<open>The preimages of voucher and notice hashes (driver.rs)\<close>

definition write_padding :: "nat \<Rightarrow> byte list" where
  "write_padding n = (let alignment = n mod 32 in if alignment \<noteq> 0 then replicate (32 - alignment) 0 else [])"

definition be_bytes :: "u64 \<Rightarrow> byte list" where
  "be_bytes v = map (\<lambda>i. ucast (drop_bit (8 * (7 - i)) v)) [0..<8]"

definition write_u64 :: "u64 \<Rightarrow> byte list" where
  "write_u64 v = write_padding 8 @ be_bytes v"

definition write_data :: "byte list \<Rightarrow> byte list" where
  "write_data d = write_padding (length d) @ d"

definition write_payload :: "byte list \<Rightarrow> byte list" where
  "write_payload payload = write_u64 (of_nat (length payload)) @ payload @ write_padding (length payload)"

definition voucher_preimage :: "byte list \<Rightarrow> byte list \<Rightarrow> byte list" where
  "voucher_preimage destination payload = write_data destination @ write_u64 64 @ write_payload payload"

definition notice_preimage :: "byte list \<Rightarrow> byte list" where
  "notice_preimage payload = write_u64 32 @ write_payload payload"

definition compute_voucher_hash :: "Hasher \<Rightarrow> byte list \<Rightarrow> byte list \<Rightarrow> Hash" where
  "compute_voucher_hash K destination payload = K (voucher_preimage destination payload)"

definition compute_notice_hash :: "Hasher \<Rightarrow> byte list \<Rightarrow> Hash" where
  "compute_notice_hash K payload = K (notice_preimage payload)"

section \<open>Requests and results (model.rs)\<close>

record AdvanceMetadata =
  am_msg_sender :: Address
  am_epoch_index :: u64
  am_input_index :: u64
  am_block_number :: u64
  am_timestamp :: u64

record AdvanceStateRequest =
  asr_metadata :: AdvanceMetadata
  asr_payload :: "byte list"

record HostVoucher =
  hv_destination :: Address
  hv_payload :: "byte list"
  hv_keccak :: Hash
  keccak_in_voucher_hashes :: "MerkleProof option"

definition host_voucher_new :: "Hasher \<Rightarrow> Address \<Rightarrow> byte list \<Rightarrow> HostVoucher" where
  "host_voucher_new K destination payload =
     \<lparr> hv_destination = destination, hv_payload = payload,
       hv_keccak = compute_voucher_hash K destination payload, keccak_in_voucher_hashes = None \<rparr>"

definition voucher_set_proof :: "MerkleProof \<Rightarrow> HostVoucher \<Rightarrow> HostVoucher" where
  "voucher_set_proof p v = v\<lparr>keccak_in_voucher_hashes := Some p\<rparr>"

record HostNotice =
  hn_payload :: "byte list"
  hn_keccak :: Hash
  keccak_in_notice_hashes :: "MerkleProof option"

definition host_notice_new :: "Hasher \<Rightarrow> byte list \<Rightarrow> HostNotice" where
  "host_notice_new K payload =
     \<lparr> hn_payload = payload, hn_keccak = compute_notice_hash K payload, keccak_in_notice_hashes = None \<rparr>"

definition notice_set_proof :: "MerkleProof \<Rightarrow> HostNotice \<Rightarrow> HostNotice" where
  "notice_set_proof p n = n\<lparr>keccak_in_notice_hashes := Some p\<rparr>"

record HostReport =
  hr_payload :: "byte list"

record RollupException =
  re_payload :: "byte list"

datatype CompletionStatus =
    CompletionAccepted "HostVoucher list" "HostNotice list"
  | CompletionRejected
  | CompletionException RollupException

record HostAdvanceResult =
  har_status :: CompletionStatus
  har_reports :: "HostReport list"
  voucher_hashes_in_epoch :: "MerkleProof option"
  voucher_root :: "Hash option"
  notice_hashes_in_epoch :: "MerkleProof option"
  notice_root :: "Hash option"

definition advance_result_new :: "CompletionStatus \<Rightarrow> HostReport list \<Rightarrow> HostAdvanceResult" where
  "advance_result_new status reports =
     \<lparr> har_status = status, har_reports = reports, voucher_hashes_in_epoch = None, voucher_root = None,
       notice_hashes_in_epoch = None, notice_root = None \<rparr>"

definition advance_accepted :: "HostVoucher list \<Rightarrow> HostNotice list \<Rightarrow> HostReport list \<Rightarrow> HostAdvanceResult" where
  "advance_accepted vouchers notices reports = advance_result_new (CompletionAccepted vouchers notices) reports"

definition advance_rejected :: "HostReport list \<Rightarrow> HostAdvanceResult" where
  "advance_rejected reports = advance_result_new CompletionRejected reports"

definition advance_exception :: "RollupException \<Rightarrow> HostReport list \<Rightarrow> HostAdvanceResult" where
  "advance_exception e reports = advance_result_new (CompletionException e) reports"

record InspectStateRequest =
  isr_payload :: "byte list"

datatype InspectStatus = InspectAccepted | InspectRejected | InspectException RollupException

record InspectResult =
  ir_status :: InspectStatus
  ir_reports :: "HostReport list"

definition inspect_accepted :: "HostReport list \<Rightarrow> InspectResult" where
  "inspect_accepted reports = \<lparr> ir_status = InspectAccepted, ir_reports = reports \<rparr>"

definition inspect_rejected :: "HostReport list \<Rightarrow> InspectResult" where
  "inspect_rejected reports = \<lparr> ir_status = InspectRejected, ir_reports = reports \<rparr>"

definition inspect_exception :: "HostReport list \<Rightarrow> RollupException \<Rightarrow> InspectResult" where
  "inspect_exception reports e = \<lparr> ir_status = InspectException e, ir_reports = reports \<rparr>"

datatype FinishStatus = Accept | Reject

datatype RollupRequest =
    AdvanceState AdvanceStateRequest
  | InspectState InspectStateRequest

section \<open>Proofs of outputs (proofs.rs)\<close>

definition LOG2_HASH_SIZE :: nat where "LOG2_HASH_SIZE = 5"
definition LOG2_WORD_SIZE :: nat where "LOG2_WORD_SIZE = 3"
definition LOG2_ROOT_SIZE :: nat where "LOG2_ROOT_SIZE = 16 + LOG2_HASH_SIZE"
definition WORD_SIZE :: nat where "WORD_SIZE = 2 ^ LOG2_WORD_SIZE"
definition WORDS_PER_HASH :: nat where "WORDS_PER_HASH = 2 ^ (LOG2_HASH_SIZE - LOG2_WORD_SIZE)"

lemmas proof_sizes = LOG2_HASH_SIZE_def LOG2_WORD_SIZE_def LOG2_ROOT_SIZE_def WORD_SIZE_def WORDS_PER_HASH_def

text \<open>The trait \<open>Proofable\<close>.\<close>

record 'p Proofable =
  pf_get_hash :: "'p \<Rightarrow> Hash"
  pf_set_proof :: "MerkleProof \<Rightarrow> 'p \<Rightarrow> 'p"

definition voucher_proofable :: "HostVoucher Proofable" where
  "voucher_proofable = \<lparr> pf_get_hash = hv_keccak, pf_set_proof = voucher_set_proof \<rparr>"

definition notice_proofable :: "HostNotice Proofable" where
  "notice_proofable = \<lparr> pf_get_hash = hn_keccak, pf_set_proof = notice_set_proof \<rparr>"

definition word_hashes :: "Hasher \<Rightarrow> Hash \<Rightarrow> Hash list" where
  "word_hashes K hash = map (\<lambda>i. K (take WORD_SIZE (drop (i * WORD_SIZE) hash))) [0..<WORDS_PER_HASH]"

fun set_proofs ::
  "'p Proofable \<Rightarrow> CompleteTree \<Rightarrow> nat \<Rightarrow> 'p list \<Rightarrow> ('p list, MerkleError, unit) action" where
  "set_proofs P tree i [] = (Ok (), [])"
| "set_proofs P tree i (x # xs) =
     (case get_proof tree (i * 2 ^ LOG2_HASH_SIZE) LOG2_HASH_SIZE of
        Ok p \<Rightarrow> (case set_proofs P tree (Suc i) xs of (r, ys) \<Rightarrow> (r, pf_set_proof P p x # ys))
      | Err e \<Rightarrow> (Err e, x # xs)
      | Panic \<Rightarrow> (Panic, x # xs))"

definition compute_proofs :: "Hasher \<Rightarrow> 'p Proofable \<Rightarrow> 'p list \<Rightarrow> ('p list, MerkleError, Hash) action" where
  "compute_proofs K P proofables =
     (let leaves = concat (map (word_hashes K \<circ> pf_get_hash P) proofables) in
      and_then (new_from_leaves K LOG2_ROOT_SIZE LOG2_WORD_SIZE LOG2_WORD_SIZE leaves, proofables) (\<lambda>tree proofables.
        and_then (set_proofs P tree 0 proofables) (\<lambda>_ proofables.
          (get_root_hash tree, proofables))))"

section \<open>The preimages determine the outputs\<close>

lemma be_bytes_length [simp]: "length (be_bytes v) = 8"
  by (simp add: be_bytes_def)

lemma be_bytes_inject: "be_bytes v = be_bytes v' \<longleftrightarrow> v = v'"
proof
  assume eq: "be_bytes v = be_bytes v'"
  show "v = v'"
  proof (rule bit_word_eqI)
    fix n
    assume "n < LENGTH(64)"
    then have n: "n < 64" "n div 8 < 8"
      by auto
    let ?i = "7 - n div 8"
    have "be_bytes v ! ?i = be_bytes v' ! ?i"
      using eq by simp
    then have "(ucast (drop_bit (8 * (n div 8)) v) :: byte) = ucast (drop_bit (8 * (n div 8)) v')"
      using n nth_upt [of 0 ?i 8] by (simp add: be_bytes_def del: upt_conv_Cons_Cons)
    then have "bit (ucast (drop_bit (8 * (n div 8)) v) :: byte) (n mod 8)
        = bit (ucast (drop_bit (8 * (n div 8)) v') :: byte) (n mod 8)"
      by simp
    then show "bit v n = bit v' n"
      by (simp add: bit_ucast_iff bit_drop_bit_eq)
  qed
qed simp

lemma write_u64_length [simp]: "length (write_u64 v) = 32"
  by (simp add: write_u64_def write_padding_def)

lemma write_u64_inject: "write_u64 v = write_u64 v' \<longleftrightarrow> v = v'"
  by (simp add: write_u64_def be_bytes_inject)

lemma write_payload_inject:
  assumes "write_payload p = write_payload p'" and "length p < 2 ^ 64" and "length p' < 2 ^ 64"
  shows "p = p'"
proof -
  have "write_u64 (of_nat (length p)) = write_u64 (of_nat (length p'))"
    and rest: "p @ write_padding (length p) = p' @ write_padding (length p')"
    using assms(1) by (simp_all add: write_payload_def append_eq_append_conv)
  then have "length p = length p'"
    using of_nat_eq_small [of "length p" "length p'", where 'a = 64] assms(2,3) by (simp add: write_u64_inject)
  then show ?thesis
    using rest by simp
qed

lemma write_payload_aligned: "32 dvd length (write_payload p)"
proof -
  have "length p + (32 - length p mod 32) = 32 * (length p div 32 + 1)"
    by presburger
  then have "32 dvd length p + length (write_padding (length p))"
    by (cases "length p mod 32 = 0") (auto simp: write_padding_def Let_def)
  then show ?thesis
    by (simp add: write_payload_def)
qed

text \<open>C30: what is hashed for a voucher determines its destination and its payload, what is
  hashed for a notice determines its payload, and both are whole 32-byte words.\<close>

theorem preimages_determine_outputs:
  assumes "length d = ADDRESS_SIZE" and "length d' = ADDRESS_SIZE" and "length p < 2 ^ 64" and "length p' < 2 ^ 64"
  shows "(voucher_preimage d p = voucher_preimage d' p' \<longleftrightarrow> d = d' \<and> p = p') \<and>
    (notice_preimage p = notice_preimage p' \<longleftrightarrow> p = p') \<and>
    32 dvd length (voucher_preimage d p) \<and> 32 dvd length (notice_preimage p)"
proof -
  have pad: "write_data x = replicate 12 0 @ x" if "length x = ADDRESS_SIZE" for x
    using that by (simp add: write_data_def write_padding_def ADDRESS_SIZE_def)
  have "voucher_preimage d p = voucher_preimage d' p' \<longleftrightarrow> d = d' \<and> p = p'"
    using assms write_payload_inject [of p p'] by (auto simp: voucher_preimage_def pad)
  moreover have "notice_preimage p = notice_preimage p' \<longleftrightarrow> p = p'"
    using assms write_payload_inject [of p p'] by (auto simp: notice_preimage_def)
  moreover have "length (voucher_preimage d p) = 64 + length (write_payload p)"
    "length (notice_preimage p) = 32 + length (write_payload p)"
    using assms(1) by (simp_all add: voucher_preimage_def notice_preimage_def pad ADDRESS_SIZE_def)
  ultimately show ?thesis
    using write_payload_aligned [of p] by simp
qed

theorem preimages_determine_outputs_witness:
  "voucher_preimage (replicate 20 5) [1] \<noteq> voucher_preimage (replicate 20 5) [2] \<and>
   32 dvd length (notice_preimage [1])"
  using preimages_determine_outputs [of "replicate 20 5" "replicate 20 5" "[1]" "[2]"]
  by (simp add: ADDRESS_SIZE_def)

section \<open>Computing the proofs of outputs\<close>

text \<open>The contract of the trait \<open>Proofable\<close>: setting the proof keeps the hash.\<close>

locale proofable =
  fixes P :: "'p Proofable" and stored_proof :: "'p \<Rightarrow> MerkleProof option"
  assumes hash_set_proof: "pf_get_hash P (pf_set_proof P p x) = pf_get_hash P x"
    and stored_set_proof: "stored_proof (pf_set_proof P p x) = Some p"

interpretation vouchers: proofable voucher_proofable keccak_in_voucher_hashes
  by standard (simp_all add: voucher_proofable_def voucher_set_proof_def)

interpretation notices: proofable notice_proofable keccak_in_notice_hashes
  by standard (simp_all add: notice_proofable_def notice_set_proof_def)

text \<open>The hash of the four words of a hash: what the proof of an output is about.\<close>

definition words_root :: "Hasher \<Rightarrow> Hash \<Rightarrow> Hash" where
  "words_root K h =
     (let ws = word_hashes K h in
      get_concat_hash K (get_concat_hash K (ws ! 0) (ws ! 1)) (get_concat_hash K (ws ! 2) (ws ! 3)))"

lemma word_hashes_length [simp]: "length (word_hashes K h) = 4"
  by (simp add: word_hashes_def proof_sizes)

lemma concat_uniform_length: "(\<And>x. x \<in> set xs \<Longrightarrow> length (f x) = n) \<Longrightarrow> length (concat (map f xs)) = n * length xs"
  by (induction xs) auto

lemma concat_uniform_nth:
  "\<lbrakk>\<And>x. length (f x) = n; i < length xs; j < n\<rbrakk> \<Longrightarrow> concat (map f xs) ! (n * i + j) = f (xs ! i) ! j"
proof (induction xs arbitrary: i)
  case (Cons x xs)
  then show ?case
    by (cases i) (auto simp: nth_append)
qed simp

lemma node_of_words:
  assumes "i < length hs"
  shows "node K w b (concat (map (word_hashes K) hs)) 2 i = words_root K (hs ! i)"
proof -
  have "concat (map (word_hashes K) hs) ! (4 * i + j) = word_hashes K (hs ! i) ! j" if "j < 4" for j
    using assms that by (intro concat_uniform_nth) simp_all
  moreover have "4 * i + 3 < length (concat (map (word_hashes K) hs))"
    using assms concat_uniform_length [of hs "word_hashes K" 4] by simp
  ultimately have leaf: "node K w b (concat (map (word_hashes K) hs)) 0 (4 * i + j) = word_hashes K (hs ! i) ! j"
    if "j < 4" for j
    using that by simp
  have "node K w b L (Suc (Suc 0)) i =
      get_concat_hash K (get_concat_hash K (node K w b L 0 (4 * i + 0)) (node K w b L 0 (4 * i + 1)))
        (get_concat_hash K (node K w b L 0 (4 * i + 2)) (node K w b L 0 (4 * i + 3)))" for L
    by (simp add: add.assoc numeral_3_eq_3)
  then show ?thesis
    using leaf [of 0] leaf [of 1] leaf [of 2] leaf [of 3]
    by (simp add: words_root_def Let_def numeral_2_eq_2 [symmetric])
qed

text \<open>The reference: the proof of output \<open>i\<close> among outputs of hashes \<open>hs\<close>, in the tree over
  their words.\<close>

definition outputs_root :: "Hasher \<Rightarrow> Hash list \<Rightarrow> Hash" where
  "outputs_root K hs = node K 3 0 (concat (map (word_hashes K) hs)) 18 0"

definition proof_at :: "Hasher \<Rightarrow> Hash list \<Rightarrow> nat \<Rightarrow> MerkleProof" where
  "proof_at K hs i =
     \<lparr> target_address = i * 32, log2_target_size = 5,
       target_hash = node K 3 0 (concat (map (word_hashes K) hs)) 2 i, mp_log2_root_size = 21,
       root_hash = outputs_root K hs, sibling_hashes = siblings K 3 0 (concat (map (word_hashes K) hs)) 2 i 16 \<rparr>"

lemma outputs_sizes_ok: "sizes_ok 21 3 3"
  by (simp add: sizes_ok_def)

lemma set_proofs_eq:
  assumes "\<And>j. j < i + length xs \<Longrightarrow> get_proof tree (j * 2 ^ LOG2_HASH_SIZE) LOG2_HASH_SIZE = Ok (pr j)"
  shows "set_proofs P tree i xs = (Ok (), map2 (\<lambda>j. pf_set_proof P (pr j)) [i..<i + length xs] xs)"
  using assms
proof (induction xs arbitrary: i)
  case (Cons x xs)
  have "set_proofs P tree (Suc i) xs = (Ok (), map2 (\<lambda>j. pf_set_proof P (pr j)) [Suc i..<Suc i + length xs] xs)"
    using Cons.prems by (intro Cons.IH) simp
  moreover have "get_proof tree (i * 2 ^ LOG2_HASH_SIZE) LOG2_HASH_SIZE = Ok (pr i)"
    using Cons.prems by simp
  ultimately show ?case
    by (simp add: upt_conv_Cons del: upt_Suc)
qed simp

lemma words_length: "length (concat (map (word_hashes K) hs)) = 4 * length hs"
  by (rule concat_uniform_length) simp

lemma output_proof:
  assumes "length hs \<le> 2 ^ 16" and "i < length hs"
  shows "get_proof (tree_of K 21 3 3 (concat (map (word_hashes K) hs))) (i * 2 ^ LOG2_HASH_SIZE) LOG2_HASH_SIZE
    = Ok (proof_at K hs i)"
  using get_proof_eq [OF outputs_sizes_ok, of 5 i K "concat (map (word_hashes K) hs)"] assms
  by (simp add: proof_at_def outputs_root_def LOG2_HASH_SIZE_def)

lemma compute_proofs_eq:
  fixes P :: "'p Proofable" and xs :: "'p list"
  defines "hs \<equiv> map (pf_get_hash P) xs"
  shows "compute_proofs K P xs =
    (if length xs \<le> 2 ^ 16
     then (Ok (outputs_root K hs), map2 (\<lambda>i. pf_set_proof P (proof_at K hs i)) [0..<length xs] xs)
     else (Err TooManyLeaves, xs))"
proof -
  let ?leaves = "concat (map (word_hashes K) hs)"
  have leaves: "concat (map (word_hashes K \<circ> pf_get_hash P) xs) = ?leaves"
    by (simp add: hs_def comp_def)
  have len: "length hs = length xs"
    by (simp add: hs_def)
  have new: "new_from_leaves K 21 3 3 ?leaves =
      (if length xs \<le> 2 ^ 16 then Ok (tree_of K 21 3 3 ?leaves) else Err TooManyLeaves)"
    using new_from_leaves_eq [OF outputs_sizes_ok, of K ?leaves] by (simp add: words_length len)
  have sizes: "LOG2_ROOT_SIZE = 21" "LOG2_WORD_SIZE = 3"
    by (simp_all add: proof_sizes)
  show ?thesis
  proof (cases "length xs \<le> 2 ^ 16")
    case True
    then have "set_proofs P (tree_of K 21 3 3 ?leaves) 0 xs =
        (Ok (), map2 (\<lambda>i. pf_set_proof P (proof_at K hs i)) [0..<0 + length xs] xs)"
      by (intro set_proofs_eq output_proof) (simp_all add: hs_def)
    then show ?thesis
      using True get_root_hash_eq [OF outputs_sizes_ok, of K ?leaves]
      by (simp add: compute_proofs_def sizes new leaves outputs_root_def)
  qed (simp add: compute_proofs_def sizes new leaves)
qed

lemma proof_at_checks:
  assumes "length hs \<le> 2 ^ 16" and "i < length hs"
  shows "proof_root K (proof_at K hs i) = outputs_root K hs \<and>
    target_hash (proof_at K hs i) = words_root K (hs ! i) \<and> root_hash (proof_at K hs i) = outputs_root K hs"
proof -
  let ?leaves = "concat (map (word_hashes K) hs)"
  have le: "(3::nat) \<le> 5" "(5::nat) \<le> 21" "i < 2 ^ (21 - 5)"
    using assms by simp_all
  obtain p where "get_proof (tree_of K 21 3 3 ?leaves) (i * 2 ^ 5) 5 = Ok p" "proof_root K p = root_hash p"
    by (rule get_proof_checks [OF outputs_sizes_ok le, of K ?leaves]) (rule that)
  moreover have "target_hash (proof_at K hs i) = words_root K (hs ! i)"
    using node_of_words [OF assms(2), of K 3 0] by (simp add: proof_at_def)
  ultimately show ?thesis
    using output_proof [OF assms, of K] by (auto simp: LOG2_HASH_SIZE_def proof_at_def)
qed

context proofable
begin

lemma computed_proofs:
  assumes "length xs \<le> 2 ^ 16"
  shows "\<exists>r ys. compute_proofs K P xs = (Ok r, ys) \<and> map (pf_get_hash P) ys = map (pf_get_hash P) xs \<and>
    (\<forall>i < length xs. \<exists>p. stored_proof (ys ! i) = Some p \<and> ys ! i = pf_set_proof P p (xs ! i) \<and>
       proof_root K p = r \<and> root_hash p = r \<and> target_hash p = words_root K (pf_get_hash P (xs ! i)))"
proof -
  let ?hs = "map (pf_get_hash P) xs"
  let ?ys = "map2 (\<lambda>i. pf_set_proof P (proof_at K ?hs i)) [0..<length xs] xs"
  have nth: "?ys ! i = pf_set_proof P (proof_at K ?hs i) (xs ! i)" if "i < length xs" for i
    using that by simp
  have "map (pf_get_hash P) ?ys = ?hs"
    by (rule nth_equalityI) (simp_all add: hash_set_proof)
  moreover have "\<forall>i < length xs. \<exists>p. stored_proof (?ys ! i) = Some p \<and> ?ys ! i = pf_set_proof P p (xs ! i) \<and>
      proof_root K p = outputs_root K ?hs \<and> root_hash p = outputs_root K ?hs \<and>
      target_hash p = words_root K (pf_get_hash P (xs ! i))"
    using assms proof_at_checks [of ?hs _ K] by (auto simp: nth stored_set_proof)
  ultimately show ?thesis
    using assms by (simp add: compute_proofs_eq)
qed

end

text \<open>Computing the proofs of at most 2 ^ 16 vouchers succeeds with the root of a
  tree; every voucher keeps its destination, payload and hash and gets a proof, which
  leads from the words of its own hash to that root.  Computing more than 2 ^ 16 fails and
  changes none of them.\<close>

theorem voucher_proofs_verify:
  "(length vs \<le> 2 ^ 16 \<longrightarrow>
     (\<exists>r vs'. compute_proofs K voucher_proofable vs = (Ok r, vs') \<and>
       map (\<lambda>v. v\<lparr>keccak_in_voucher_hashes := None\<rparr>) vs' = map (\<lambda>v. v\<lparr>keccak_in_voucher_hashes := None\<rparr>) vs \<and>
       (\<forall>i < length vs. \<exists>p. keccak_in_voucher_hashes (vs' ! i) = Some p \<and> proof_root K p = r \<and>
          target_hash p = words_root K (hv_keccak (vs ! i))))) \<and>
   (length vs > 2 ^ 16 \<longrightarrow> compute_proofs K voucher_proofable vs = (Err TooManyLeaves, vs))"
proof (intro conjI impI)
  assume "length vs \<le> 2 ^ 16"
  then obtain r vs' where run: "compute_proofs K voucher_proofable vs = (Ok r, vs')"
    and hashes: "map hv_keccak vs' = map hv_keccak vs"
    and proofs: "\<forall>i < length vs. \<exists>p. keccak_in_voucher_hashes (vs' ! i) = Some p \<and>
       vs' ! i = voucher_set_proof p (vs ! i) \<and> proof_root K p = r \<and> root_hash p = r \<and>
       target_hash p = words_root K (hv_keccak (vs ! i))"
    using vouchers.computed_proofs [of vs K] by (auto simp: voucher_proofable_def)
  have "length vs' = length vs"
    using hashes by (rule map_eq_imp_length_eq)
  then have "map (\<lambda>v. v\<lparr>keccak_in_voucher_hashes := None\<rparr>) vs' = map (\<lambda>v. v\<lparr>keccak_in_voucher_hashes := None\<rparr>) vs"
    using proofs by (intro nth_equalityI [of "map _ vs'"]) (auto simp: voucher_set_proof_def)
  then show "\<exists>r vs'. compute_proofs K voucher_proofable vs = (Ok r, vs') \<and>
      map (\<lambda>v. v\<lparr>keccak_in_voucher_hashes := None\<rparr>) vs' = map (\<lambda>v. v\<lparr>keccak_in_voucher_hashes := None\<rparr>) vs \<and>
      (\<forall>i < length vs. \<exists>p. keccak_in_voucher_hashes (vs' ! i) = Some p \<and> proof_root K p = r \<and>
         target_hash p = words_root K (hv_keccak (vs ! i)))"
    using run proofs by blast
qed (simp add: compute_proofs_eq)

theorem voucher_proofs_verify_witness:
  "\<exists>r v p. compute_proofs (\<lambda>d. d) voucher_proofable [host_voucher_new (\<lambda>d. d) [1] [2]] = (Ok r, [v]) \<and>
     keccak_in_voucher_hashes v = Some p \<and> proof_root (\<lambda>d. d) p = r"
  using voucher_proofs_verify [of "[host_voucher_new (\<lambda>d. d) [1] [2]]" "\<lambda>d. d"]
  by (auto simp: map_eq_Cons_conv)

end
