(* ===== verification/Host_Controller.thy ===== *)
theory Host_Controller
  imports Host_Model "HOL-Library.Multiset"
begin

text \<open>
  The controller of the host runner (\<open>controller.rs\<close>): the state machine between the gRPC
  server, which asks for advances and inspects, and the HTTP server, through which the DApp
  fetches requests and emits outputs.

  A request carries the sending end of a oneshot channel, modelled by its number; a response
  is an entry of the list of sent responses.  Each bounded \<open>mpsc\<close> channel is a list of
  requests, oldest first.  The \<open>biased\<close> \<open>select!\<close> of a state polls its branches in textual
  order, so a state takes the first channel of its order that holds a request; \<open>elapsed\<close> says
  whether the sleep of the fetch state is over when it is polled.
\<close>

section \<open>Requests and responses\<close>

record 't SyncRequest =
  sr_request :: 't
  response_tx :: nat

datatype ControllerError =
    FetchRequestTimeout
  | InvalidRequest string string

datatype Response =
    RAdvance HostAdvanceResult
  | RInspect InspectResult
  | RFinish "ControllerError + RollupRequest"
  | RIndex "ControllerError + nat"
  | RUnit "ControllerError + unit"
  | RShutdown

definition MPSC_BUFFER_SIZE :: nat where "MPSC_BUFFER_SIZE = 1000"

record SharedStateData =
  advance_rx :: "AdvanceStateRequest SyncRequest list"
  inspect_rx :: "InspectStateRequest SyncRequest list"
  finish_rx :: "FinishStatus SyncRequest list"
  voucher_rx :: "HostVoucher SyncRequest list"
  notice_rx :: "HostNotice SyncRequest list"
  report_rx :: "HostReport SyncRequest list"
  exception_rx :: "RollupException SyncRequest list"
  shutdown_rx :: "unit SyncRequest list"

datatype ServiceState =
    IdleState
  | FetchRequestState nat
  | InspectingState nat "HostReport list"
  | AdvancingState nat "HostVoucher list" "HostNotice list" "HostReport list"

fun state_name :: "ServiceState \<Rightarrow> string" where
  "state_name IdleState = ''idle''"
| "state_name (FetchRequestState tx) = ''fetch request''"
| "state_name (InspectingState tx reports) = ''inspect''"
| "state_name (AdvancingState tx vouchers notices reports) = ''advance''"

text \<open>The branch of the \<open>select!\<close> that was taken, with the request it received.\<close>

datatype Branch =
    TimedOut
  | TookAdvance AdvanceStateRequest
  | TookInspect InspectStateRequest
  | TookFinish FinishStatus
  | TookVoucher HostVoucher
  | TookNotice HostNotice
  | TookReport HostReport
  | TookException RollupException
  | TookShutdown

type_synonym Processed = "Branch \<times> ServiceState option \<times> SharedStateData \<times> (nat \<times> Response) list"

section \<open>The states\<close>

definition handle_invalid ::
  "Branch \<Rightarrow> (ControllerError \<Rightarrow> Response) \<Rightarrow> nat \<Rightarrow> ServiceState \<Rightarrow> string \<Rightarrow> SharedStateData \<Rightarrow> Processed option" where
  "handle_invalid branch wrap tx state request_name d =
     Some (branch, Some state, d, [(tx, wrap (InvalidRequest request_name (state_name state)))])"

definition service_shutdown :: "unit SyncRequest \<Rightarrow> SharedStateData \<Rightarrow> Processed option" where
  "service_shutdown r d = Some (TookShutdown, None, d, [(response_tx r, RShutdown)])"

definition idle_process :: "SharedStateData \<Rightarrow> Processed option" where
  "idle_process d =
     (case finish_rx d of r # rs \<Rightarrow>
        Some (TookFinish (sr_request r), Some (FetchRequestState (response_tx r)), d\<lparr>finish_rx := rs\<rparr>, []) | [] \<Rightarrow>
     (case voucher_rx d of r # rs \<Rightarrow>
        handle_invalid (TookVoucher (sr_request r)) (RIndex \<circ> Inl) (response_tx r) IdleState ''voucher''
          (d\<lparr>voucher_rx := rs\<rparr>) | [] \<Rightarrow>
     (case notice_rx d of r # rs \<Rightarrow>
        handle_invalid (TookNotice (sr_request r)) (RIndex \<circ> Inl) (response_tx r) IdleState ''notice''
          (d\<lparr>notice_rx := rs\<rparr>) | [] \<Rightarrow>
     (case report_rx d of r # rs \<Rightarrow>
        handle_invalid (TookReport (sr_request r)) (RUnit \<circ> Inl) (response_tx r) IdleState ''report''
          (d\<lparr>report_rx := rs\<rparr>) | [] \<Rightarrow>
     (case exception_rx d of r # rs \<Rightarrow>
        handle_invalid (TookException (sr_request r)) (RUnit \<circ> Inl) (response_tx r) IdleState ''exception''
          (d\<lparr>exception_rx := rs\<rparr>) | [] \<Rightarrow>
     (case shutdown_rx d of r # rs \<Rightarrow> service_shutdown r (d\<lparr>shutdown_rx := rs\<rparr>) | [] \<Rightarrow> None))))))"

definition fetch_process :: "bool \<Rightarrow> nat \<Rightarrow> SharedStateData \<Rightarrow> Processed option" where
  "fetch_process elapsed finish_response_tx d =
     (if elapsed then
        Some (TimedOut, Some IdleState, d, [(finish_response_tx, RFinish (Inl FetchRequestTimeout))]) else
     (case inspect_rx d of r # rs \<Rightarrow>
        Some (TookInspect (sr_request r), Some (InspectingState (response_tx r) []), d\<lparr>inspect_rx := rs\<rparr>,
          [(finish_response_tx, RFinish (Inr (InspectState (sr_request r))))]) | [] \<Rightarrow>
     (case advance_rx d of r # rs \<Rightarrow>
        Some (TookAdvance (sr_request r), Some (AdvancingState (response_tx r) [] [] []), d\<lparr>advance_rx := rs\<rparr>,
          [(finish_response_tx, RFinish (Inr (AdvanceState (sr_request r))))]) | [] \<Rightarrow>
     (case finish_rx d of r # rs \<Rightarrow>
        Some (TookFinish (sr_request r), Some (FetchRequestState (response_tx r)), d\<lparr>finish_rx := rs\<rparr>,
          [(finish_response_tx, RFinish (Inl FetchRequestTimeout))]) | [] \<Rightarrow>
     (case voucher_rx d of r # rs \<Rightarrow>
        handle_invalid (TookVoucher (sr_request r)) (RIndex \<circ> Inl) (response_tx r)
          (FetchRequestState finish_response_tx) ''voucher'' (d\<lparr>voucher_rx := rs\<rparr>) | [] \<Rightarrow>
     (case notice_rx d of r # rs \<Rightarrow>
        handle_invalid (TookNotice (sr_request r)) (RIndex \<circ> Inl) (response_tx r)
          (FetchRequestState finish_response_tx) ''notice'' (d\<lparr>notice_rx := rs\<rparr>) | [] \<Rightarrow>
     (case report_rx d of r # rs \<Rightarrow>
        handle_invalid (TookReport (sr_request r)) (RUnit \<circ> Inl) (response_tx r)
          (FetchRequestState finish_response_tx) ''report'' (d\<lparr>report_rx := rs\<rparr>) | [] \<Rightarrow>
     (case exception_rx d of r # rs \<Rightarrow>
        handle_invalid (TookException (sr_request r)) (RUnit \<circ> Inl) (response_tx r)
          (FetchRequestState finish_response_tx) ''exception'' (d\<lparr>exception_rx := rs\<rparr>) | [] \<Rightarrow>
     (case shutdown_rx d of r # rs \<Rightarrow> service_shutdown r (d\<lparr>shutdown_rx := rs\<rparr>) | [] \<Rightarrow> None)))))))))"

definition inspect_process :: "nat \<Rightarrow> HostReport list \<Rightarrow> SharedStateData \<Rightarrow> Processed option" where
  "inspect_process inspect_response_tx reports d =
     (case finish_rx d of r # rs \<Rightarrow>
        let result = (case sr_request r of
                        Accept \<Rightarrow> inspect_accepted reports
                      | Reject \<Rightarrow> inspect_rejected reports)
        in Some (TookFinish (sr_request r), Some (FetchRequestState (response_tx r)), d\<lparr>finish_rx := rs\<rparr>,
             [(inspect_response_tx, RInspect result)]) | [] \<Rightarrow>
     (case report_rx d of r # rs \<Rightarrow>
        Some (TookReport (sr_request r), Some (InspectingState inspect_response_tx (reports @ [sr_request r])),
          d\<lparr>report_rx := rs\<rparr>, [(response_tx r, RUnit (Inr ()))]) | [] \<Rightarrow>
     (case exception_rx d of r # rs \<Rightarrow>
        Some (TookException (sr_request r), Some IdleState, d\<lparr>exception_rx := rs\<rparr>,
          [(inspect_response_tx, RInspect (inspect_exception reports (sr_request r))),
           (response_tx r, RUnit (Inr ()))]) | [] \<Rightarrow>
     (case voucher_rx d of r # rs \<Rightarrow>
        handle_invalid (TookVoucher (sr_request r)) (RIndex \<circ> Inl) (response_tx r)
          (InspectingState inspect_response_tx reports) ''voucher'' (d\<lparr>voucher_rx := rs\<rparr>) | [] \<Rightarrow>
     (case notice_rx d of r # rs \<Rightarrow>
        handle_invalid (TookNotice (sr_request r)) (RIndex \<circ> Inl) (response_tx r)
          (InspectingState inspect_response_tx reports) ''notice'' (d\<lparr>notice_rx := rs\<rparr>) | [] \<Rightarrow>
     (case shutdown_rx d of r # rs \<Rightarrow> service_shutdown r (d\<lparr>shutdown_rx := rs\<rparr>) | [] \<Rightarrow> None))))))"

definition advance_process ::
  "nat \<Rightarrow> HostVoucher list \<Rightarrow> HostNotice list \<Rightarrow> HostReport list \<Rightarrow> SharedStateData \<Rightarrow> Processed option" where
  "advance_process advance_response_tx vouchers notices reports d =
     (case finish_rx d of r # rs \<Rightarrow>
        let result = (case sr_request r of
                        Accept \<Rightarrow> advance_accepted vouchers notices reports
                      | Reject \<Rightarrow> advance_rejected reports)
        in Some (TookFinish (sr_request r), Some (FetchRequestState (response_tx r)), d\<lparr>finish_rx := rs\<rparr>,
             [(advance_response_tx, RAdvance result)]) | [] \<Rightarrow>
     (case voucher_rx d of r # rs \<Rightarrow>
        let vouchers = vouchers @ [sr_request r]
        in Some (TookVoucher (sr_request r), Some (AdvancingState advance_response_tx vouchers notices reports),
             d\<lparr>voucher_rx := rs\<rparr>, [(response_tx r, RIndex (Inr (length vouchers - 1)))]) | [] \<Rightarrow>
     (case notice_rx d of r # rs \<Rightarrow>
        let notices = notices @ [sr_request r]
        in Some (TookNotice (sr_request r), Some (AdvancingState advance_response_tx vouchers notices reports),
             d\<lparr>notice_rx := rs\<rparr>, [(response_tx r, RIndex (Inr (length notices - 1)))]) | [] \<Rightarrow>
     (case report_rx d of r # rs \<Rightarrow>
        Some (TookReport (sr_request r),
          Some (AdvancingState advance_response_tx vouchers notices (reports @ [sr_request r])),
          d\<lparr>report_rx := rs\<rparr>, [(response_tx r, RUnit (Inr ()))]) | [] \<Rightarrow>
     (case exception_rx d of r # rs \<Rightarrow>
        Some (TookException (sr_request r), Some IdleState, d\<lparr>exception_rx := rs\<rparr>,
          [(advance_response_tx, RAdvance (advance_exception (sr_request r) reports)),
           (response_tx r, RUnit (Inr ()))]) | [] \<Rightarrow>
     (case shutdown_rx d of r # rs \<Rightarrow> service_shutdown r (d\<lparr>shutdown_rx := rs\<rparr>) | [] \<Rightarrow> None))))))"

fun state_process :: "bool \<Rightarrow> ServiceState \<Rightarrow> SharedStateData \<Rightarrow> Processed option" where
  "state_process elapsed IdleState d = idle_process d"
| "state_process elapsed (FetchRequestState tx) d = fetch_process elapsed tx d"
| "state_process elapsed (InspectingState tx reports) d = inspect_process tx reports d"
| "state_process elapsed (AdvancingState tx vouchers notices reports) d =
     advance_process tx vouchers notices reports d"

section \<open>The service and its clients\<close>

text \<open>
  \<open>svc_state\<close> is \<open>None\<close> after the service terminated; then the receiving ends and the channels
  they hold are gone, which is what \<open>svc_dropped\<close> lists.  \<open>svc_next\<close> is the number of the next
  oneshot channel.
\<close>

record HostService =
  svc_state :: "ServiceState option"
  svc_data :: SharedStateData
  svc_sent :: "(nat \<times> Response) list"
  svc_dropped :: "nat list"
  svc_next :: nat

definition controller_new :: HostService where
  "controller_new =
     \<lparr> svc_state = Some IdleState,
       svc_data = \<lparr> advance_rx = [], inspect_rx = [], finish_rx = [], voucher_rx = [], notice_rx = [],
                    report_rx = [], exception_rx = [], shutdown_rx = [] \<rparr>,
       svc_sent = [], svc_dropped = [], svc_next = 0 \<rparr>"

fun held :: "ServiceState \<Rightarrow> nat list" where
  "held IdleState = []"
| "held (FetchRequestState tx) = [tx]"
| "held (InspectingState tx reports) = [tx]"
| "held (AdvancingState tx vouchers notices reports) = [tx]"

definition queued :: "SharedStateData \<Rightarrow> nat list" where
  "queued d = map response_tx (advance_rx d) @ map response_tx (inspect_rx d) @ map response_tx (finish_rx d) @
     map response_tx (voucher_rx d) @ map response_tx (notice_rx d) @ map response_tx (report_rx d) @
     map response_tx (exception_rx d) @ map response_tx (shutdown_rx d)"

text \<open>One turn of the loop of \<open>Service::run\<close>; \<open>None\<close> while it waits or after it ended.\<close>

definition service_run :: "bool \<Rightarrow> HostService \<Rightarrow> (Branch \<times> HostService) option" where
  "service_run elapsed svc =
     (case svc_state svc of
        None \<Rightarrow> None
      | Some state \<Rightarrow>
          (case state_process elapsed state (svc_data svc) of
             None \<Rightarrow> None
           | Some (branch, Some state', d, out) \<Rightarrow>
               Some (branch, svc\<lparr>svc_state := Some state', svc_data := d, svc_sent := svc_sent svc @ out\<rparr>)
           | Some (branch, None, d, out) \<Rightarrow>
               Some (branch, svc\<lparr>svc_state := None, svc_data := svc_data controller_new,
                 svc_sent := svc_sent svc @ out, svc_dropped := svc_dropped svc @ held state @ queued d\<rparr>)))"

text \<open>
  \<open>SyncRequest::send\<close> on one of the channels: it creates a oneshot channel and enqueues the
  request.  It waits (\<open>None\<close>) while the buffer is full, and drops the request when the service
  has ended.
\<close>

definition sync_send ::
  "(SharedStateData \<Rightarrow> 't SyncRequest list) \<Rightarrow> ('t SyncRequest list \<Rightarrow> SharedStateData \<Rightarrow> SharedStateData) \<Rightarrow>
   't \<Rightarrow> HostService \<Rightarrow> (nat \<times> HostService) option" where
  "sync_send rx set_rx request svc =
     (let tx = svc_next svc; svc = svc\<lparr>svc_next := svc_next svc + 1\<rparr> in
      if svc_state svc = None then Some (tx, svc\<lparr>svc_dropped := svc_dropped svc @ [tx]\<rparr>)
      else if length (rx (svc_data svc)) < MPSC_BUFFER_SIZE
      then Some (tx, svc\<lparr>svc_data :=
             set_rx (rx (svc_data svc) @ [\<lparr> sr_request = request, response_tx = tx \<rparr>]) (svc_data svc)\<rparr>)
      else None)"

definition controller_advance :: "AdvanceStateRequest \<Rightarrow> HostService \<Rightarrow> (nat \<times> HostService) option" where
  "controller_advance = sync_send advance_rx (\<lambda>q. advance_rx_update (\<lambda>_. q))"

definition controller_inspect :: "InspectStateRequest \<Rightarrow> HostService \<Rightarrow> (nat \<times> HostService) option" where
  "controller_inspect = sync_send inspect_rx (\<lambda>q. inspect_rx_update (\<lambda>_. q))"

definition controller_finish :: "FinishStatus \<Rightarrow> HostService \<Rightarrow> (nat \<times> HostService) option" where
  "controller_finish = sync_send finish_rx (\<lambda>q. finish_rx_update (\<lambda>_. q))"

definition controller_insert_voucher :: "HostVoucher \<Rightarrow> HostService \<Rightarrow> (nat \<times> HostService) option" where
  "controller_insert_voucher = sync_send voucher_rx (\<lambda>q. voucher_rx_update (\<lambda>_. q))"

definition controller_insert_notice :: "HostNotice \<Rightarrow> HostService \<Rightarrow> (nat \<times> HostService) option" where
  "controller_insert_notice = sync_send notice_rx (\<lambda>q. notice_rx_update (\<lambda>_. q))"

definition controller_insert_report :: "HostReport \<Rightarrow> HostService \<Rightarrow> (nat \<times> HostService) option" where
  "controller_insert_report = sync_send report_rx (\<lambda>q. report_rx_update (\<lambda>_. q))"

definition notify_exception :: "RollupException \<Rightarrow> HostService \<Rightarrow> (nat \<times> HostService) option" where
  "notify_exception = sync_send exception_rx (\<lambda>q. exception_rx_update (\<lambda>_. q))"

definition controller_shutdown :: "HostService \<Rightarrow> (nat \<times> HostService) option" where
  "controller_shutdown = sync_send shutdown_rx (\<lambda>q. shutdown_rx_update (\<lambda>_. q)) ()"

section \<open>Channels\<close>

text \<open>The contract of one of the channels among the shared data.\<close>

locale sync_channel =
  fixes rx :: "SharedStateData \<Rightarrow> 't SyncRequest list"
    and set_rx :: "'t SyncRequest list \<Rightarrow> SharedStateData \<Rightarrow> SharedStateData"
  assumes get_set: "rx (set_rx q d) = q"
    and queued_set: "mset (queued (set_rx q d)) + mset (map response_tx (rx d)) = mset (queued d) + mset (map response_tx q)"
begin

lemma queued_push:
  "mset (queued (set_rx (rx d @ [r]) d)) = add_mset (response_tx r) (mset (queued d))"
  using queued_set [of "rx d @ [r]" d] by simp

end

interpretation advances: sync_channel advance_rx "\<lambda>q. advance_rx_update (\<lambda>_. q)"
  by standard (simp_all add: queued_def)
interpretation inspects: sync_channel inspect_rx "\<lambda>q. inspect_rx_update (\<lambda>_. q)"
  by standard (simp_all add: queued_def)
interpretation finishes: sync_channel finish_rx "\<lambda>q. finish_rx_update (\<lambda>_. q)"
  by standard (simp_all add: queued_def)
interpretation voucher_channel: sync_channel voucher_rx "\<lambda>q. voucher_rx_update (\<lambda>_. q)"
  by standard (simp_all add: queued_def)
interpretation notice_channel: sync_channel notice_rx "\<lambda>q. notice_rx_update (\<lambda>_. q)"
  by standard (simp_all add: queued_def)
interpretation report_channel: sync_channel report_rx "\<lambda>q. report_rx_update (\<lambda>_. q)"
  by standard (simp_all add: queued_def)
interpretation exceptions: sync_channel exception_rx "\<lambda>q. exception_rx_update (\<lambda>_. q)"
  by standard (simp_all add: queued_def)
interpretation shutdowns: sync_channel shutdown_rx "\<lambda>q. shutdown_rx_update (\<lambda>_. q)"
  by standard (simp_all add: queued_def)

section \<open>Every request is answered at most once\<close>

text \<open>A client of the controller sends a request and gets the channel of its response.\<close>

inductive client_call :: "HostService \<Rightarrow> nat \<Rightarrow> HostService \<Rightarrow> bool" where
  "controller_advance a svc = Some (tx, svc') \<Longrightarrow> client_call svc tx svc'"
| "controller_inspect i svc = Some (tx, svc') \<Longrightarrow> client_call svc tx svc'"
| "controller_finish f svc = Some (tx, svc') \<Longrightarrow> client_call svc tx svc'"
| "controller_insert_voucher v svc = Some (tx, svc') \<Longrightarrow> client_call svc tx svc'"
| "controller_insert_notice n svc = Some (tx, svc') \<Longrightarrow> client_call svc tx svc'"
| "controller_insert_report r svc = Some (tx, svc') \<Longrightarrow> client_call svc tx svc'"
| "notify_exception e svc = Some (tx, svc') \<Longrightarrow> client_call svc tx svc'"
| "controller_shutdown svc = Some (tx, svc') \<Longrightarrow> client_call svc tx svc'"

text \<open>The states the service can be in, with the branches it took so far.\<close>

inductive controller_trace :: "Branch list \<Rightarrow> HostService \<Rightarrow> bool" where
  started: "controller_trace [] controller_new"
| called: "\<lbrakk>controller_trace bs svc; client_call svc tx svc'\<rbrakk> \<Longrightarrow> controller_trace bs svc'"
| processed: "\<lbrakk>controller_trace bs svc; service_run elapsed svc = Some (b, svc')\<rbrakk> \<Longrightarrow> controller_trace (bs @ [b]) svc'"

definition svc_held :: "HostService \<Rightarrow> nat list" where
  "svc_held svc = (case svc_state svc of None \<Rightarrow> [] | Some state \<Rightarrow> held state)"

text \<open>All channels ever created, by where their sending end is now.\<close>

definition channels :: "HostService \<Rightarrow> nat multiset" where
  "channels svc = mset (queued (svc_data svc)) + mset (svc_held svc) + mset (map fst (svc_sent svc)) +
     mset (svc_dropped svc)"

lemma queued_new [simp]: "queued (svc_data controller_new) = []"
  by (simp add: queued_def controller_new_def)

lemma sync_send_channels:
  assumes "sync_send rx set_rx request svc = Some (tx, svc')" and "sync_channel rx set_rx"
  shows "tx = svc_next svc \<and> svc_next svc' = Suc tx \<and> svc_state svc' = svc_state svc \<and> svc_sent svc' = svc_sent svc \<and>
    channels svc' = add_mset tx (channels svc) \<and>
    svc_dropped svc' = svc_dropped svc @ (if svc_state svc = None then [tx] else [])"
  using assms sync_channel.queued_push [OF assms(2), of "svc_data svc"]
  by (auto simp: sync_send_def Let_def channels_def svc_held_def split: if_splits)

lemmas client_defs = controller_advance_def controller_inspect_def controller_finish_def controller_insert_voucher_def
  controller_insert_notice_def controller_insert_report_def notify_exception_def controller_shutdown_def

lemmas channel_facts = advances.sync_channel_axioms inspects.sync_channel_axioms finishes.sync_channel_axioms
  voucher_channel.sync_channel_axioms notice_channel.sync_channel_axioms report_channel.sync_channel_axioms
  exceptions.sync_channel_axioms shutdowns.sync_channel_axioms

lemma client_call_channels:
  assumes "client_call svc tx svc'"
  shows "tx = svc_next svc \<and> svc_next svc' = Suc tx \<and> svc_state svc' = svc_state svc \<and> svc_sent svc' = svc_sent svc \<and>
    channels svc' = add_mset tx (channels svc) \<and>
    svc_dropped svc' = svc_dropped svc @ (if svc_state svc = None then [tx] else [])"
  using assms by cases (simp_all only: client_defs, (erule sync_send_channels, rule channel_facts)+)

lemmas process_defs = idle_process_def fetch_process_def inspect_process_def advance_process_def
  handle_invalid_def service_shutdown_def Let_def

lemma process_channels:
  assumes "state_process elapsed state d = Some (b, state', d', out)"
  shows "mset (queued d) + mset (case state' of None \<Rightarrow> [] | Some _ \<Rightarrow> held state) =
    mset (queued d') + mset (case state' of None \<Rightarrow> [] | Some s \<Rightarrow> held s) + mset (map fst out)"
proof (cases state)
  case IdleState
  then show ?thesis
    using assms by (simp add: process_defs queued_def split: list.splits) auto
next
  case (FetchRequestState tx)
  then show ?thesis
    using assms by (simp add: process_defs queued_def split: list.splits if_splits) auto
next
  case (InspectingState tx reports)
  then show ?thesis
    using assms by (simp add: process_defs queued_def split: list.splits) auto
next
  case (AdvancingState tx vouchers notices reports)
  then show ?thesis
    using assms by (simp add: process_defs queued_def split: list.splits) auto
qed

lemma service_run_cases:
  assumes "service_run elapsed svc = Some (b, svc')"
  obtains (Running) state state' d out where "svc_state svc = Some state"
      and "state_process elapsed state (svc_data svc) = Some (b, Some state', d, out)"
      and "svc' = svc\<lparr>svc_state := Some state', svc_data := d, svc_sent := svc_sent svc @ out\<rparr>"
    | (Ended) state d out where "svc_state svc = Some state"
      and "state_process elapsed state (svc_data svc) = Some (b, None, d, out)"
      and "svc' = svc\<lparr>svc_state := None, svc_data := svc_data controller_new,
        svc_sent := svc_sent svc @ out, svc_dropped := svc_dropped svc @ held state @ queued d\<rparr>"
  using assms by (auto simp: service_run_def split: option.splits prod.splits)

lemma service_run_channels:
  assumes "service_run elapsed svc = Some (b, svc')"
  shows "channels svc' = channels svc \<and> svc_next svc' = svc_next svc"
  using assms
proof (cases rule: service_run_cases)
  case (Running state state' d out)
  then show ?thesis
    using process_channels [OF Running(2)] by (simp add: channels_def svc_held_def)
next
  case (Ended state d out)
  then show ?thesis
    using process_channels [OF Ended(2)] by (simp add: channels_def svc_held_def)
qed

lemma trace_channels: "controller_trace bs svc \<Longrightarrow> channels svc = mset [0..<svc_next svc]"
proof (induction rule: controller_trace.induct)
  case started
  then show ?case
    by (simp add: channels_def svc_held_def) (simp add: controller_new_def)
next
  case (called bs svc tx svc')
  then show ?case
    using client_call_channels [OF called.hyps(2)] by simp
next
  case (processed bs svc elapsed b svc')
  then show ?case
    using service_run_channels [OF processed.hyps(2)] by simp
qed

lemma trace_running_dropped: "controller_trace bs svc \<Longrightarrow> svc_state svc \<noteq> None \<Longrightarrow> svc_dropped svc = []"
proof (induction rule: controller_trace.induct)
  case started
  then show ?case by (simp add: controller_new_def)
next
  case (called bs svc tx svc')
  then show ?case
    using client_call_channels [OF called.hyps(2)] by auto
next
  case (processed bs svc elapsed b svc')
  from processed.hyps(2) show ?case
    by (cases rule: service_run_cases) (use processed in auto)
qed

text \<open>C18: in every reachable state of the controller no request has been answered twice, and
  as long as the service runs no request is lost: each one that is not answered yet waits in
  exactly one channel, or is the one the current state holds.\<close>

theorem controller_answers_once:
  assumes "controller_trace bs svc"
  shows "distinct (map fst (svc_sent svc)) \<and>
    (svc_state svc \<noteq> None \<longrightarrow>
      (\<forall>tx < svc_next svc. tx \<notin> fst ` set (svc_sent svc) \<longrightarrow>
         count (mset (queued (svc_data svc)) + mset (svc_held svc)) tx = 1))"
proof -
  have "mset (queued (svc_data svc)) + mset (svc_held svc) + mset (map fst (svc_sent svc)) + mset (svc_dropped svc)
      = mset [0..<svc_next svc]"
    using trace_channels [OF assms] by (simp only: channels_def)
  then have split: "mset ((queued (svc_data svc) @ svc_held svc) @ map fst (svc_sent svc) @ svc_dropped svc)
      = mset [0..<svc_next svc]"
    by (simp add: ac_simps)
  then have "distinct ((queued (svc_data svc) @ svc_held svc) @ map fst (svc_sent svc) @ svc_dropped svc)"
    by (metis distinct_upt mset_eq_imp_distinct_iff)
  then have d: "distinct (map fst (svc_sent svc))" "distinct (queued (svc_data svc) @ svc_held svc)"
    by (simp_all only: distinct_append)
  have all: "set ((queued (svc_data svc) @ svc_held svc) @ map fst (svc_sent svc) @ svc_dropped svc) = {0..<svc_next svc}"
    using mset_eq_setD [OF split] by simp
  have "count (mset (queued (svc_data svc)) + mset (svc_held svc)) tx = 1"
    if "svc_state svc \<noteq> None" "tx < svc_next svc" "tx \<notin> fst ` set (svc_sent svc)" for tx
  proof -
    have "tx \<in> set (queued (svc_data svc) @ svc_held svc)"
      using all that trace_running_dropped [OF assms that(1)] by auto
    then have "count (mset (queued (svc_data svc) @ svc_held svc)) tx = 1"
      using d(2) by (metis distinct_count_atmost_1)
    then show ?thesis
      by simp
  qed
  then show ?thesis
    using d(1) by blast
qed

text \<open>A run: the DApp asks for a request, an input arrives, the DApp emits a voucher and a
  report and accepts.\<close>

definition sample_advance :: AdvanceStateRequest where
  "sample_advance = \<lparr> asr_metadata = \<lparr> am_msg_sender = [], am_epoch_index = 0, am_input_index = 0,
     am_block_number = 0, am_timestamp = 0 \<rparr>, asr_payload = [1] \<rparr>"

definition sample_voucher :: HostVoucher where
  "sample_voucher = host_voucher_new (\<lambda>d. d) [2] [3]"

definition sample_idle :: "HostService" where
  "sample_idle = snd (the (controller_advance sample_advance (snd (the (controller_finish Accept controller_new)))))"

definition sample_advancing :: "HostService" where
  "sample_advancing = snd (the (service_run False (snd (the (service_run False sample_idle)))))"

lemma run_processed: "\<lbrakk>controller_trace bs svc; service_run elapsed svc = Some (b, svc'); bs' = bs @ [b]\<rbrakk> \<Longrightarrow> controller_trace bs' svc'"
  by (simp add: controller_trace.processed)

lemmas run_simps = client_defs sync_send_def service_run_def controller_new_def MPSC_BUFFER_SIZE_def process_defs

lemma sample_idle_eq:
  "sample_idle = controller_new\<lparr>svc_next := 2, svc_data := (svc_data controller_new)
     \<lparr>finish_rx := [\<lparr> sr_request = Accept, response_tx = 0 \<rparr>],
      advance_rx := [\<lparr> sr_request = sample_advance, response_tx = 1 \<rparr>]\<rparr>\<rparr>"
  by (simp add: sample_idle_def run_simps)

lemma sample_idle_trace: "controller_trace [] sample_idle"
proof -
  obtain tx svc where 1: "controller_finish Accept controller_new = Some (tx, svc)"
    by (simp add: run_simps)
  then obtain tx' svc' where 2: "controller_advance sample_advance svc = Some (tx', svc')"
    by (fastforce simp: run_simps)
  then have "controller_trace [] svc'"
    using client_call.intros(3) [OF 1] client_call.intros(1) [OF 2] controller_trace.started controller_trace.called
    by meson
  then show ?thesis
    using 1 2 by (simp add: sample_idle_def)
qed

lemma sample_advancing_eq:
  "sample_advancing = controller_new\<lparr>svc_next := 2, svc_state := Some (AdvancingState 1 [] [] []),
     svc_sent := [(0, RFinish (Inr (AdvanceState sample_advance)))]\<rparr>"
  by (simp add: sample_advancing_def sample_idle_eq run_simps)

lemma sample_advancing_trace: "controller_trace [TookFinish Accept, TookAdvance sample_advance] sample_advancing"
proof -
  obtain svc where 1: "service_run False sample_idle = Some (TookFinish Accept, svc)"
    by (simp add: sample_idle_eq run_simps)
  then obtain svc' where 2: "service_run False svc = Some (TookAdvance sample_advance, svc')"
    by (fastforce simp: sample_idle_eq run_simps)
  have "controller_trace [TookFinish Accept, TookAdvance sample_advance] svc'"
    using run_processed [OF run_processed [OF sample_idle_trace 1] 2] by simp
  then show ?thesis
    using 1 2 by (simp add: sample_advancing_def)
qed

theorem controller_answers_once_witness:
  "svc_next sample_advancing = 2 \<and> distinct (map fst (svc_sent sample_advancing)) \<and>
   count (mset (queued (svc_data sample_advancing)) + mset (svc_held sample_advancing)) 1 = 1"
proof -
  have "svc_state sample_advancing \<noteq> None" "svc_next sample_advancing = 2" "(1::nat) < 2"
    "1 \<notin> fst ` set (svc_sent sample_advancing)"
    by (simp_all add: sample_advancing_eq)
  then show ?thesis
    using controller_answers_once [OF sample_advancing_trace] by metis
qed

section \<open>What the result of an advance contains\<close>

fun branch_voucher :: "Branch \<Rightarrow> HostVoucher list" where
  "branch_voucher (TookVoucher v) = [v]"
| "branch_voucher _ = []"

fun branch_notice :: "Branch \<Rightarrow> HostNotice list" where
  "branch_notice (TookNotice n) = [n]"
| "branch_notice _ = []"

fun branch_report :: "Branch \<Rightarrow> HostReport list" where
  "branch_report (TookReport r) = [r]"
| "branch_report _ = []"

text \<open>The branches that emit an output, and what a list of branches emitted.\<close>

definition emits :: "Branch \<Rightarrow> bool" where
  "emits b \<longleftrightarrow> branch_voucher b \<noteq> [] \<or> branch_notice b \<noteq> [] \<or> branch_report b \<noteq> []"

definition emitted :: "(Branch \<Rightarrow> 'o list) \<Rightarrow> Branch list \<Rightarrow> 'o list" where
  "emitted f bs = concat (map f bs)"

text \<open>The result that ends an advance, given the branch that ended it.\<close>

fun advance_result :: "Branch \<Rightarrow> Branch list \<Rightarrow> HostAdvanceResult option" where
  "advance_result (TookFinish Accept) bs =
     Some (advance_accepted (emitted branch_voucher bs) (emitted branch_notice bs) (emitted branch_report bs))"
| "advance_result (TookFinish Reject) bs = Some (advance_rejected (emitted branch_report bs))"
| "advance_result (TookException e) bs = Some (advance_exception e (emitted branch_report bs))"
| "advance_result _ bs = None"

text \<open>The branches taken since the request the service is working on was fetched.\<close>

fun state_matches :: "ServiceState \<Rightarrow> Branch list \<Rightarrow> bool" where
  "state_matches (AdvancingState tx vs ns rs) bs \<longleftrightarrow>
     (\<exists>pre a since. bs = pre @ TookAdvance a # since \<and> list_all emits since \<and>
        vs = emitted branch_voucher since \<and> ns = emitted branch_notice since \<and> rs = emitted branch_report since)"
| "state_matches _ bs \<longleftrightarrow> True"

lemma state_matches_push:
  assumes "state_matches (AdvancingState tx vs ns rs) bs" and "emits b"
  shows "state_matches (AdvancingState tx (vs @ branch_voucher b) (ns @ branch_notice b) (rs @ branch_report b)) (bs @ [b])"
proof -
  obtain pre a since where *: "bs = pre @ TookAdvance a # since" "list_all emits since"
    "vs = emitted branch_voucher since" "ns = emitted branch_notice since" "rs = emitted branch_report since"
    using assms(1) by auto
  have "bs @ [b] = pre @ TookAdvance a # since @ [b]" "list_all emits (since @ [b])"
    using * assms(2) by simp_all
  then show ?thesis
    unfolding state_matches.simps by (intro exI conjI) (assumption | simp add: * emitted_def)+
qed

lemma state_matches_fetched: "state_matches (AdvancingState tx [] [] []) (bs @ [TookAdvance a])"
  unfolding state_matches.simps by (intro exI [of _ bs] exI [of _ a] exI [of _ "[]"]) (simp add: emitted_def)

lemma process_matches:
  assumes "state_process elapsed state d = Some (b, Some state', d', out)" and "state_matches state bs"
  shows "state_matches state' (bs @ [b])"
proof (cases state)
  case IdleState
  then show ?thesis
    using assms by (auto simp: process_defs split: list.splits)
next
  case (FetchRequestState tx)
  then show ?thesis
    using assms state_matches_fetched
    by (auto simp: process_defs simp del: state_matches.simps(1) split: list.splits if_splits)
next
  case (InspectingState tx reports)
  then show ?thesis
    using assms by (auto simp: process_defs split: list.splits)
next
  case (AdvancingState tx vs ns rs)
  note push = state_matches_push [OF assms(2) [unfolded AdvancingState]]
  have "state_matches (AdvancingState tx (vs @ [v]) ns rs) (bs @ [TookVoucher v])"
    "state_matches (AdvancingState tx vs (ns @ [n]) rs) (bs @ [TookNotice n])"
    "state_matches (AdvancingState tx vs ns (rs @ [r])) (bs @ [TookReport r])" for v n r
    using push [of "TookVoucher v"] push [of "TookNotice n"] push [of "TookReport r"]
    by (simp_all add: emits_def del: state_matches.simps(1))
  then show ?thesis
    using assms(1) AdvancingState
    by (auto simp: process_defs simp del: state_matches.simps(1) split: list.splits)
qed

lemma trace_matches: "\<lbrakk>controller_trace bs svc; svc_state svc = Some state\<rbrakk> \<Longrightarrow> state_matches state bs"
proof (induction arbitrary: state rule: controller_trace.induct)
  case started
  then show ?case by (auto simp: controller_new_def)
next
  case (called bs svc tx svc')
  then show ?case
    using client_call_channels [OF called.hyps(2)] by simp
next
  case (processed bs svc elapsed b svc')
  from processed.hyps(2) show ?case
  proof (cases rule: service_run_cases)
    case (Running state1 state2 d out)
    then show ?thesis
      using processed.IH [OF Running(1)] processed.prems process_matches [OF Running(2)] by simp
  qed (use processed.prems in simp)
qed

lemma process_sends_result:
  assumes "state_process elapsed state d = Some (b, state', d', out)" and "(tx, RAdvance result) \<in> set out"
  shows "\<exists>vs ns rs. state = AdvancingState tx vs ns rs \<and>
    (b = TookFinish Accept \<and> result = advance_accepted vs ns rs \<or>
     b = TookFinish Reject \<and> result = advance_rejected rs \<or>
     (\<exists>e. b = TookException e \<and> result = advance_exception e rs))"
proof (cases state)
  case IdleState
  then show ?thesis
    using assms by (auto simp: process_defs split: list.splits)
next
  case (FetchRequestState tx)
  then show ?thesis
    using assms by (auto simp: process_defs split: list.splits if_splits)
next
  case (InspectingState tx reports)
  then show ?thesis
    using assms by (auto simp: process_defs split: list.splits)
next
  case (AdvancingState tx vs ns rs)
  then show ?thesis
    using assms by (auto simp: process_defs split: list.splits FinishStatus.splits)
qed

text \<open>C10: when the service answers an advance request, the answer is made of exactly the
  vouchers, notices and reports that it took since it fetched that request, in their order, and
  of nothing else: an accepted input has all of them, a rejected input and an exception only
  the reports.\<close>

theorem advance_result_complete:
  assumes "controller_trace bs svc" and "service_run elapsed svc = Some (b, svc')"
    and "svc_sent svc' = svc_sent svc @ out" and "(tx, RAdvance result) \<in> set out"
  shows "\<exists>pre a since. bs = pre @ TookAdvance a # since \<and> list_all emits since \<and>
    svc_held svc = [tx] \<and> advance_result b since = Some result"
proof -
  obtain state state' d where st: "svc_state svc = Some state"
    and p: "state_process elapsed state (svc_data svc) = Some (b, state', d, out)"
    using assms(2,3) by (cases rule: service_run_cases) auto
  from process_sends_result [OF p assms(4)] obtain vs ns rs where adv: "state = AdvancingState tx vs ns rs"
    and result: "b = TookFinish Accept \<and> result = advance_accepted vs ns rs \<or>
       b = TookFinish Reject \<and> result = advance_rejected rs \<or>
       (\<exists>e. b = TookException e \<and> result = advance_exception e rs)"
    by auto
  from trace_matches [OF assms(1) st] obtain pre a since where "bs = pre @ TookAdvance a # since"
    "list_all emits since" "vs = emitted branch_voucher since" "ns = emitted branch_notice since"
    "rs = emitted branch_report since"
    by (auto simp: adv)
  then show ?thesis
    using result st adv by (intro exI [of _ pre] exI [of _ a] exI [of _ since]) (auto simp: svc_held_def)
qed

lemma sample_done_run:
  obtains svc where "controller_trace [TookFinish Accept, TookAdvance sample_advance, TookVoucher sample_voucher] svc"
    and "svc_sent svc = svc_sent sample_advancing @ [(2, RIndex (Inr 0))]"
    and "service_run False svc = Some (TookFinish Accept, svc\<lparr>svc_state := Some (FetchRequestState 3),
      svc_data := svc_data controller_new,
      svc_sent := svc_sent svc @ [(1, RAdvance (advance_accepted [sample_voucher] [] []))]\<rparr>)"
proof -
  obtain svc1 where 1: "controller_insert_voucher sample_voucher sample_advancing = Some (2, svc1)"
    "svc1 = sample_advancing\<lparr>svc_next := 3, svc_data := (svc_data controller_new)
       \<lparr>voucher_rx := [\<lparr> sr_request = sample_voucher, response_tx = 2 \<rparr>]\<rparr>\<rparr>"
    by (simp add: sample_advancing_eq run_simps)
  obtain svc2 where 2: "service_run False svc1 = Some (TookVoucher sample_voucher, svc2)"
    "svc2 = svc1\<lparr>svc_state := Some (AdvancingState 1 [sample_voucher] [] []), svc_data := svc_data controller_new,
       svc_sent := svc_sent sample_advancing @ [(2, RIndex (Inr 0))]\<rparr>"
    by (simp add: 1 sample_advancing_eq run_simps)
  obtain svc3 where 3: "controller_finish Accept svc2 = Some (3, svc3)"
    "svc3 = svc2\<lparr>svc_next := 4, svc_data := (svc_data controller_new)
       \<lparr>finish_rx := [\<lparr> sr_request = Accept, response_tx = 3 \<rparr>]\<rparr>\<rparr>"
    by (simp add: 1 2 sample_advancing_eq run_simps)
  have "controller_trace [TookFinish Accept, TookAdvance sample_advance, TookVoucher sample_voucher] svc2"
    using run_processed [OF controller_trace.called [OF sample_advancing_trace client_call.intros(4) [OF 1(1)]] 2(1)]
    by simp
  then have "controller_trace [TookFinish Accept, TookAdvance sample_advance, TookVoucher sample_voucher] svc3"
    using controller_trace.called [OF _ client_call.intros(3) [OF 3(1)]] by blast
  moreover have "service_run False svc3 = Some (TookFinish Accept, svc3\<lparr>svc_state := Some (FetchRequestState 3),
      svc_data := svc_data controller_new,
      svc_sent := svc_sent svc3 @ [(1, RAdvance (advance_accepted [sample_voucher] [] []))]\<rparr>)"
    by (simp add: 1 2 3 sample_advancing_eq run_simps)
  ultimately show thesis
    using that [of svc3] by (simp add: 3 2)
qed

theorem advance_result_complete_witness:
  "\<exists>bs svc b svc' since. controller_trace bs svc \<and> service_run False svc = Some (b, svc') \<and>
     (1, RAdvance (advance_accepted [sample_voucher] [] [])) \<in> set (svc_sent svc') \<and>
     advance_result b since = Some (advance_accepted [sample_voucher] [] [])"
proof -
  obtain svc where trace: "controller_trace [TookFinish Accept, TookAdvance sample_advance, TookVoucher sample_voucher] svc"
    and run: "service_run False svc = Some (TookFinish Accept, svc\<lparr>svc_state := Some (FetchRequestState 3),
      svc_data := svc_data controller_new,
      svc_sent := svc_sent svc @ [(1, RAdvance (advance_accepted [sample_voucher] [] []))]\<rparr>)" (is "_ = Some (_, ?svc')")
    by (rule sample_done_run)
  have "\<exists>pre a since. [TookFinish Accept, TookAdvance sample_advance, TookVoucher sample_voucher] =
      pre @ TookAdvance a # since \<and> list_all emits since \<and> svc_held svc = [1] \<and>
      advance_result (TookFinish Accept) since = Some (advance_accepted [sample_voucher] [] [])"
    by (rule advance_result_complete [OF trace run,
          where out = "[(1, RAdvance (advance_accepted [sample_voucher] [] []))]"]) simp_all
  moreover have "(1, RAdvance (advance_accepted [sample_voucher] [] [])) \<in> set (svc_sent ?svc')"
    by simp
  ultimately show ?thesis
    using trace run by blast
qed

section \<open>The service makes progress\<close>

text \<open>A number of turns of the loop with no new request in between.\<close>

fun service_turns :: "bool list \<Rightarrow> HostService \<Rightarrow> HostService option" where
  "service_turns [] svc = Some svc"
| "service_turns (elapsed # es) svc =
     (case service_run elapsed svc of None \<Rightarrow> None | Some (b, svc') \<Rightarrow> service_turns es svc')"

definition is_fetching :: "HostService \<Rightarrow> bool" where
  "is_fetching svc = (case svc_state svc of Some (FetchRequestState tx) \<Rightarrow> True | _ \<Rightarrow> False)"

definition turns_left :: "HostService \<Rightarrow> nat" where
  "turns_left svc = 2 * length (queued (svc_data svc)) + (if is_fetching svc then 1 else 0)"

lemma process_turns:
  assumes "state_process elapsed state d = Some (b, Some state', d', out)"
  shows "length (queued d') < length (queued d) \<or>
    queued d' = queued d \<and> state' = IdleState \<and> (\<exists>tx. state = FetchRequestState tx)"
  using assms
  by (cases state) (auto simp: process_defs queued_def split: list.splits if_splits)

lemma service_run_turns:
  assumes run: "service_run elapsed svc = Some (b, svc')" and "svc_state svc' \<noteq> None"
  shows "turns_left svc' < turns_left svc"
  using run
proof (cases rule: service_run_cases)
  case (Running state state' d out)
  then show ?thesis
    using process_turns [OF Running(2)] by (auto simp: turns_left_def is_fetching_def split: ServiceState.splits)
qed (use assms(2) in simp)

lemma service_ended: "svc_state svc = None \<Longrightarrow> service_turns es svc = (if es = [] then Some svc else None)"
  by (cases es) (simp_all add: service_run_def)

text \<open>C28: the loop of the service cannot run on by itself: without new requests it makes at
  most two turns for each request that waits, and one more.\<close>

theorem service_settles:
  "service_turns es svc = Some svc' \<Longrightarrow> length es \<le> 2 * length (queued (svc_data svc)) + 2"
proof -
  have "service_turns es svc = Some svc' \<Longrightarrow> length es \<le> turns_left svc + 1"
  proof (induction es arbitrary: svc)
    case (Cons elapsed es)
    then obtain b svc1 where run: "service_run elapsed svc = Some (b, svc1)" "service_turns es svc1 = Some svc'"
      by (auto split: option.splits)
    show ?case
    proof (cases "svc_state svc1 = None")
      case True
      then show ?thesis
        using run(2) service_ended [of svc1 es] by (simp split: if_splits)
    next
      case False
      then show ?thesis
        using service_run_turns [OF run(1)] Cons.IH [OF run(2)] by simp
    qed
  qed simp
  then show "service_turns es svc = Some svc' \<Longrightarrow> length es \<le> 2 * length (queued (svc_data svc)) + 2"
    by (fastforce simp: turns_left_def split: if_splits)
qed

theorem service_settles_witness:
  "\<exists>svc'. service_turns [False, False] sample_idle = Some svc' \<and>
     length [False, False] \<le> 2 * length (queued (svc_data sample_idle)) + 2"
proof -
  have "\<exists>svc'. service_turns [False, False] sample_idle = Some svc'"
    by (simp add: sample_idle_eq run_simps)
  then obtain svc' where "service_turns [False, False] sample_idle = Some svc'"
    by blast
  then show ?thesis
    using service_settles [of "[False, False]" sample_idle svc'] by blast
qed

lemma process_shutdown_waiting:
  assumes "shutdown_rx d = r # rs"
  shows "\<exists>b state' d' out. state_process elapsed state d = Some (b, state', d', out) \<and>
    (case state' of None \<Rightarrow> (response_tx r, RShutdown) \<in> set out | Some _ \<Rightarrow> shutdown_rx d' = r # rs)"
  using assms by (cases state) (auto simp: process_defs split: list.splits)

lemma service_run_shutdown:
  assumes "svc_state svc \<noteq> None" and "shutdown_rx (svc_data svc) = r # rs"
  obtains b svc' where "service_run elapsed svc = Some (b, svc')"
    and "svc_state svc' = None \<and> (response_tx r, RShutdown) \<in> set (svc_sent svc') \<or>
      svc_state svc' \<noteq> None \<and> shutdown_rx (svc_data svc') = r # rs"
proof -
  obtain state where st: "svc_state svc = Some state"
    using assms(1) by blast
  obtain b state' d' out where p: "state_process elapsed state (svc_data svc) = Some (b, state', d', out)"
    and out: "case state' of None \<Rightarrow> (response_tx r, RShutdown) \<in> set out | Some _ \<Rightarrow> shutdown_rx d' = r # rs"
    using process_shutdown_waiting [OF assms(2), of elapsed state] by blast
  show thesis
  proof (cases state')
    case None
    then show thesis
      using st p out by (intro that [of b]) (simp add: service_run_def, simp)
  next
    case (Some s)
    then show thesis
      using st p out by (intro that [of b]) (simp add: service_run_def, simp)
  qed
qed

text \<open>C27: a shutdown request ends the service: without new requests, the service answers it and
  terminates after finitely many turns, whatever state it is in and whatever waits in the other
  channels, and it never gets stuck before.\<close>

theorem shutdown_terminates:
  "\<lbrakk>svc_state svc \<noteq> None; shutdown_rx (svc_data svc) = r # rs\<rbrakk> \<Longrightarrow>
   \<exists>n svc'. n \<le> 2 * length (queued (svc_data svc)) + 2 \<and> service_turns (replicate n False) svc = Some svc' \<and>
     svc_state svc' = None \<and> (response_tx r, RShutdown) \<in> set (svc_sent svc')"
proof -
  have "\<exists>n svc'. n \<le> turns_left svc + 1 \<and> service_turns (replicate n False) svc = Some svc' \<and>
      svc_state svc' = None \<and> (response_tx r, RShutdown) \<in> set (svc_sent svc')"
    if "svc_state svc \<noteq> None" "shutdown_rx (svc_data svc) = r # rs" for svc
    using that
  proof (induction svc rule: measure_induct_rule [of turns_left])
    case (less svc)
    then obtain b svc1 where run: "service_run False svc = Some (b, svc1)"
      and next_: "svc_state svc1 = None \<and> (response_tx r, RShutdown) \<in> set (svc_sent svc1) \<or>
        svc_state svc1 \<noteq> None \<and> shutdown_rx (svc_data svc1) = r # rs"
      by (metis service_run_shutdown)
    from next_ show ?case
    proof
      assume "svc_state svc1 = None \<and> (response_tx r, RShutdown) \<in> set (svc_sent svc1)"
      then show ?thesis
        using run by (intro exI [of _ 1] exI [of _ svc1]) simp
    next
      assume more: "svc_state svc1 \<noteq> None \<and> shutdown_rx (svc_data svc1) = r # rs"
      then have "turns_left svc1 < turns_left svc"
        using service_run_turns [OF run] by blast
      with less.IH [OF this] more obtain n svc' where "n \<le> turns_left svc1 + 1"
        "service_turns (replicate n False) svc1 = Some svc'" "svc_state svc' = None"
        "(response_tx r, RShutdown) \<in> set (svc_sent svc')"
        by blast
      then show ?thesis
        using run \<open>turns_left svc1 < turns_left svc\<close> by (intro exI [of _ "Suc n"] exI [of _ svc']) simp
    qed
  qed
  moreover assume "svc_state svc \<noteq> None" "shutdown_rx (svc_data svc) = r # rs"
  moreover have "turns_left svc + 1 \<le> 2 * length (queued (svc_data svc)) + 2"
    by (simp add: turns_left_def)
  ultimately show ?thesis
    by (meson le_trans)
qed

theorem shutdown_terminates_witness:
  "\<exists>svc n svc'. controller_shutdown sample_idle = Some (2, svc) \<and>
     service_turns (replicate n False) svc = Some svc' \<and> svc_state svc' = None"
proof -
  obtain svc where svc: "controller_shutdown sample_idle = Some (2, svc)" "svc_state svc \<noteq> None"
    "shutdown_rx (svc_data svc) = [\<lparr> sr_request = (), response_tx = 2 \<rparr>]"
    by (simp add: sample_idle_eq run_simps)
  then show ?thesis
    using shutdown_terminates [of svc] by blast
qed

end
