(* ===== verification/Grpc.thy ===== *)
theory Grpc
  imports Rollups_Events
begin

text \<open>
  The gRPC messages exchanged between the advance runner and the server manager: the fields
  that the two programs write and read.  A message field is an \<open>option\<close>, as \<open>prost\<close> generates
  it; an enumeration is represented by its variants.
\<close>

section \<open>Statuses\<close>

datatype Code =
    CodeOk | Cancelled | Unknown | InvalidArgument | DeadlineExceeded | NotFound | AlreadyExists
  | PermissionDenied | ResourceExhausted | FailedPrecondition | Aborted | OutOfRange | Unimplemented
  | Internal | Unavailable | DataLoss | Unauthenticated

record Status =
  status_code :: Code
  status_message :: string

definition invalid_argument :: "string \<Rightarrow> Status" where
  "invalid_argument m = \<lparr> status_code = InvalidArgument, status_message = m \<rparr>"

definition aborted :: "string \<Rightarrow> Status" where
  "aborted m = \<lparr> status_code = Aborted, status_message = m \<rparr>"

definition already_exists :: "string \<Rightarrow> Status" where
  "already_exists m = \<lparr> status_code = AlreadyExists, status_message = m \<rparr>"

definition internal :: "string \<Rightarrow> Status" where
  "internal m = \<lparr> status_code = Internal, status_message = m \<rparr>"

definition data_loss :: "string \<Rightarrow> Status" where
  "data_loss m = \<lparr> status_code = DataLoss, status_message = m \<rparr>"

definition out_of_range :: "string \<Rightarrow> Status" where
  "out_of_range m = \<lparr> status_code = OutOfRange, status_message = m \<rparr>"

section \<open>Values\<close>

record GrpcHash =
  gh_data :: "byte list"

record GrpcAddress =
  ga_data :: "byte list"

record GrpcVoucher =
  gv_destination :: "GrpcAddress option"
  gv_payload :: "byte list"

record GrpcNotice =
  gn_payload :: "byte list"

record GrpcReport =
  gr_payload :: "byte list"

datatype GrpcCompletionStatus =
    GAccepted | GRejected | GException | GMachineHalted | GCycleLimitExceeded | GTimeLimitExceeded
  | GPayloadLengthLimitExceeded

datatype OutputEnum = EnumVoucher | EnumNotice

record OutputValidityProof =
  ov_input_index_within_epoch :: u64
  ov_output_index_within_input :: u64
  ov_output_hashes_root_hash :: "GrpcHash option"
  ov_vouchers_epoch_root_hash :: "GrpcHash option"
  ov_notices_epoch_root_hash :: "GrpcHash option"
  ov_machine_state_hash :: "GrpcHash option"
  ov_output_hash_in_output_hashes_siblings :: "GrpcHash list"
  ov_output_hashes_in_epoch_siblings :: "GrpcHash list"

record GrpcProof =
  gp_input_index :: u64
  gp_output_index :: u64
  gp_output_enum :: OutputEnum
  gp_validity :: "OutputValidityProof option"
  gp_context :: "byte list"

record AcceptedData =
  ad_vouchers :: "GrpcVoucher list"
  ad_notices :: "GrpcNotice list"

datatype ProcessedInputOneOf =
    OneOfAcceptedData AcceptedData
  | OneOfExceptionData "byte list"

record ProcessedInput =
  pi_input_index :: u64
  pi_status :: GrpcCompletionStatus
  pi_processed_input_one_of :: "ProcessedInputOneOf option"
  pi_reports :: "GrpcReport list"

record TaintStatus =
  error_code :: Code
  error_message :: string

section \<open>Requests and responses\<close>

record GrpcInputMetadata =
  gm_msg_sender :: "GrpcAddress option"
  gm_block_number :: u64
  gm_timestamp :: u64
  gm_epoch_index :: u64
  gm_input_index :: u64

record GrpcAdvanceStateRequest =
  ga_session_id :: string
  ga_active_epoch_index :: u64
  ga_current_input_index :: u64
  ga_input_metadata :: "GrpcInputMetadata option"
  ga_input_payload :: "byte list"

record ConcurrencyConfig =
  update_merkle_tree :: u64

record MachineRuntimeConfig =
  concurrency :: "ConcurrencyConfig option"

record DeadlineConfig =
  dl_checkin :: u64
  dl_advance_state :: u64
  dl_advance_state_increment :: u64
  dl_inspect_state :: u64
  dl_inspect_state_increment :: u64
  dl_machine :: u64
  dl_store :: u64
  dl_fast :: u64

record CyclesConfig =
  cy_max_advance_state :: u64
  cy_advance_state_increment :: u64
  cy_max_inspect_state :: u64
  cy_inspect_state_increment :: u64

record StartSessionRequest =
  ss_session_id :: string
  ss_machine_directory :: string
  ss_runtime :: "MachineRuntimeConfig option"
  ss_active_epoch_index :: u64
  ss_processed_input_count :: u64
  ss_server_cycles :: "CyclesConfig option"
  ss_server_deadline :: "DeadlineConfig option"

record FinishEpochRequest =
  fe_session_id :: string
  fe_active_epoch_index :: u64
  fe_processed_input_count_within_epoch :: u64
  fe_storage_directory :: string

record FinishEpochResponse =
  fr_machine_hash :: "GrpcHash option"
  fr_vouchers_epoch_root_hash :: "GrpcHash option"
  fr_notices_epoch_root_hash :: "GrpcHash option"
  fr_proofs :: "GrpcProof list"

datatype EpochState = EpochActive | EpochFinished

record GetEpochStatusResponse =
  es_session_id :: string
  es_epoch_index :: u64
  es_state :: EpochState
  es_processed_inputs :: "ProcessedInput list"
  es_pending_input_count :: u64
  es_taint_status :: "TaintStatus option"

record GetSessionStatusResponse =
  sst_session_id :: string
  sst_active_epoch_index :: u64
  sst_epoch_index :: "u64 list"
  sst_taint_status :: "TaintStatus option"

record InspectStateResponse =
  is_session_id :: string
  is_active_epoch_index :: u64
  is_processed_input_count :: u64
  is_status :: GrpcCompletionStatus
  is_exception_data :: "byte list option"
  is_reports :: "GrpcReport list"

end
