(* ===== verification/Host_Epoch.thy ===== *)
theory Host_Epoch
  imports Host_Controller Grpc
begin

text \<open>
  The epochs of the gRPC server of the host runner (\<open>grpc/server_manager.rs\<close>): the results of
  the inputs of an epoch, the two Merkle trees over them and the proofs handed out when the epoch
  finishes.  \<open>K\<close> is Keccak-256 and \<open>encode_int\<close> is \<open>ethabi::encode\<close> of one integer token.
\<close>

section \<open>Statuses and conversions\<close>

fun merkle_error_display :: "MerkleError \<Rightarrow> string" where
  "merkle_error_display TargetSizeGreaterThanRootSize = ''log2_target_size is greater than log2_root_size''"
| "merkle_error_display LeafSizeGreaterThanRootSize = ''log2_leaf_size is greater than log2_root_size''"
| "merkle_error_display WordSizeGreaterThanLeafSize = ''log2_word_size is greater than log2_leaf_size''"
| "merkle_error_display WordSizeGreaterThanRootSize = ''log2_word_size is greater than log2_root_size''"
| "merkle_error_display TreeTooLarge = ''tree is too large for address type''"
| "merkle_error_display TreeIsFull = ''tree is full''"
| "merkle_error_display TooManyLeaves = ''too many leaves''"
| "merkle_error_display SizeOutOfRange = ''log2_size is out of range''"
| "merkle_error_display MisalignedAddress = ''address is misaligned''"

definition status_from_merkle :: "MerkleError \<Rightarrow> Status" where
  "status_from_merkle e = internal (''unexpected error when updating merkle tree ('' @ merkle_error_display e @ '')'')"

fun completion_status_to_grpc :: "CompletionStatus \<Rightarrow> GrpcCompletionStatus" where
  "completion_status_to_grpc (CompletionAccepted vouchers notices) = GAccepted"
| "completion_status_to_grpc CompletionRejected = GRejected"
| "completion_status_to_grpc (CompletionException e) = GException"

fun inspect_status_to_grpc :: "InspectStatus \<Rightarrow> GrpcCompletionStatus" where
  "inspect_status_to_grpc InspectAccepted = GAccepted"
| "inspect_status_to_grpc InspectRejected = GRejected"
| "inspect_status_to_grpc (InspectException e) = GException"

definition voucher_to_grpc :: "HostVoucher \<Rightarrow> GrpcVoucher" where
  "voucher_to_grpc v = \<lparr> gv_destination = Some \<lparr> ga_data = hv_destination v \<rparr>, gv_payload = hv_payload v \<rparr>"

definition notice_to_grpc :: "HostNotice \<Rightarrow> GrpcNotice" where
  "notice_to_grpc n = \<lparr> gn_payload = hn_payload n \<rparr>"

definition report_to_grpc :: "HostReport \<Rightarrow> GrpcReport" where
  "report_to_grpc r = \<lparr> gr_payload = hr_payload r \<rparr>"

definition hash_to_grpc :: "Hash \<Rightarrow> GrpcHash" where
  "hash_to_grpc h = \<lparr> gh_data = h \<rparr>"

fun completion_status_one_of :: "CompletionStatus \<Rightarrow> ProcessedInputOneOf option" where
  "completion_status_one_of (CompletionAccepted vouchers notices) =
     Some (OneOfAcceptedData \<lparr> ad_vouchers = map voucher_to_grpc vouchers, ad_notices = map notice_to_grpc notices \<rparr>)"
| "completion_status_one_of CompletionRejected = None"
| "completion_status_one_of (CompletionException e) = Some (OneOfExceptionData (re_payload e))"

section \<open>Epochs\<close>

definition LOG2_KECCAK_SIZE :: nat where "LOG2_KECCAK_SIZE = 5"
definition EPOCH_LOG2_ROOT_SIZE :: nat where "EPOCH_LOG2_ROOT_SIZE = 32 + LOG2_KECCAK_SIZE"
definition MAX_INPUTS_IN_EPOCH :: nat where "MAX_INPUTS_IN_EPOCH = 2 ^ (EPOCH_LOG2_ROOT_SIZE - LOG2_KECCAK_SIZE)"

lemmas epoch_sizes = LOG2_KECCAK_SIZE_def EPOCH_LOG2_ROOT_SIZE_def MAX_INPUTS_IN_EPOCH_def

record Epoch =
  ep_state :: EpochState
  pending_inputs :: u64
  processed_inputs :: "HostAdvanceResult list"
  vouchers_tree :: CompleteTree
  notices_tree :: CompleteTree
  processed_input_count_since_genesis :: u64

definition epoch_new :: "Hasher \<Rightarrow> u64 \<Rightarrow> (MerkleError, Epoch) outcome" where
  "epoch_new K since_genesis =
     bind_outcome (expect (complete_new K EPOCH_LOG2_ROOT_SIZE LOG2_KECCAK_SIZE LOG2_KECCAK_SIZE)) (\<lambda>vt.
     bind_outcome (expect (complete_new K EPOCH_LOG2_ROOT_SIZE LOG2_KECCAK_SIZE LOG2_KECCAK_SIZE)) (\<lambda>nt.
       Ok \<lparr> ep_state = EpochActive, pending_inputs = 0, processed_inputs = [], vouchers_tree = vt,
            notices_tree = nt, processed_input_count_since_genesis = since_genesis \<rparr>))"

definition get_num_processed_inputs_within_epoch :: "Epoch \<Rightarrow> u64" where
  "get_num_processed_inputs_within_epoch e = of_nat (length (processed_inputs e))"

definition get_num_processed_inputs_since_genesis :: "Epoch \<Rightarrow> u64" where
  "get_num_processed_inputs_since_genesis e =
     get_num_processed_inputs_within_epoch e + processed_input_count_since_genesis e"

definition get_current_input_index :: "Epoch \<Rightarrow> u64" where
  "get_current_input_index e = pending_inputs e + get_num_processed_inputs_since_genesis e"

definition check_active :: "Epoch \<Rightarrow> (Status, unit) outcome" where
  "check_active e = ensure (ep_state e = EpochActive) (invalid_argument ''epoch is finished'')"

definition check_finished :: "Epoch \<Rightarrow> (Status, unit) outcome" where
  "check_finished e =
     (case check_active e of
        Ok _ \<Rightarrow> Err (invalid_argument ''epoch is not finished'')
      | Err _ \<Rightarrow> Ok ()
      | Panic \<Rightarrow> Panic)"

definition show_u64 :: "u64 \<Rightarrow> string" where
  "show_u64 n = show_nat (unat n)"

definition check_current_input_index :: "u64 \<Rightarrow> Epoch \<Rightarrow> (Status, unit) outcome" where
  "check_current_input_index current_input_index e =
     (let epoch_current_input_index = get_current_input_index e in
      ensure (epoch_current_input_index = current_input_index)
        (invalid_argument (''incorrect current input index (expected '' @ show_u64 epoch_current_input_index @
           '', got '' @ show_u64 current_input_index @ '')'')))"

definition check_pending_inputs :: "Epoch \<Rightarrow> (Status, unit) outcome" where
  "check_pending_inputs e = ensure (pending_inputs e = 0) (invalid_argument ''epoch still has pending inputs'')"

definition check_processed_inputs :: "u64 \<Rightarrow> Epoch \<Rightarrow> (Status, unit) outcome" where
  "check_processed_inputs n e =
     ensure (get_num_processed_inputs_within_epoch e = n)
       (invalid_argument (''incorrect processed input count (expected '' @
          show_u64 (get_num_processed_inputs_within_epoch e) @ '', got '' @ show_u64 n @ '')''))"

definition check_no_processed_inputs :: "Epoch \<Rightarrow> (Status, unit) outcome" where
  "check_no_processed_inputs e =
     ensure (get_num_processed_inputs_within_epoch e = 0) (invalid_argument ''epoch still has processed inputs'')"

definition check_input_limit :: "Epoch \<Rightarrow> (Status, unit) outcome" where
  "check_input_limit e =
     ensure (pending_inputs e + get_num_processed_inputs_within_epoch e + 1 < of_nat MAX_INPUTS_IN_EPOCH)
       (invalid_argument ''reached max number of inputs per epoch'')"

definition epoch_check_endable :: "Epoch \<Rightarrow> (Status, unit) outcome" where
  "epoch_check_endable e = bind_outcome (check_pending_inputs e) (\<lambda>_. check_no_processed_inputs e)"

definition try_add_pending_input :: "u64 \<Rightarrow> Epoch \<Rightarrow> (Epoch, Status, unit) action" where
  "try_add_pending_input current_input_index e =
     and_then (bind_outcome (check_active e) (\<lambda>_.
               bind_outcome (check_current_input_index current_input_index e) (\<lambda>_.
                 check_input_limit e)), e) (\<lambda>_ e.
       (Ok (), e\<lparr>pending_inputs := pending_inputs e + 1\<rparr>))"

definition push_vouchers_tree :: "Hasher \<Rightarrow> Hash \<Rightarrow> Epoch \<Rightarrow> (Epoch, Status, unit) action" where
  "push_vouchers_tree K h e =
     (case merkle_push K h (vouchers_tree e) of (r, t) \<Rightarrow> (map_err status_from_merkle r, e\<lparr>vouchers_tree := t\<rparr>))"

definition push_notices_tree :: "Hasher \<Rightarrow> Hash \<Rightarrow> Epoch \<Rightarrow> (Epoch, Status, unit) action" where
  "push_notices_tree K h e =
     (case merkle_push K h (notices_tree e) of (r, t) \<Rightarrow> (map_err status_from_merkle r, e\<lparr>notices_tree := t\<rparr>))"

text \<open>The first half of \<open>add_processed_input\<close>: the proofs of the outputs and the two trees.\<close>

definition update_trees :: "Hasher \<Rightarrow> HostAdvanceResult \<Rightarrow> Epoch \<Rightarrow> (Epoch, Status, HostAdvanceResult) action" where
  "update_trees K result e =
     (case har_status result of
        CompletionAccepted vouchers notices \<Rightarrow>
          (case compute_proofs K voucher_proofable vouchers of (r, vouchers) \<Rightarrow>
           and_then (map_err status_from_merkle r, e) (\<lambda>v_root e.
           and_then (push_vouchers_tree K v_root e) (\<lambda>_ e.
          (case compute_proofs K notice_proofable notices of (r, notices) \<Rightarrow>
           and_then (map_err status_from_merkle r, e) (\<lambda>n_root e.
           and_then (push_notices_tree K n_root e) (\<lambda>_ e.
             (Ok (result\<lparr>har_status := CompletionAccepted vouchers notices, voucher_root := Some v_root,
                         notice_root := Some n_root\<rparr>), e)))))))
      | _ \<Rightarrow>
          and_then (push_vouchers_tree K hash_default e) (\<lambda>_ e.
          and_then (push_notices_tree K hash_default e) (\<lambda>_ e. (Ok result, e))))"

definition add_processed_input :: "Hasher \<Rightarrow> HostAdvanceResult \<Rightarrow> Epoch \<Rightarrow> (Epoch, Status, unit) action" where
  "add_processed_input K result e =
     and_then (update_trees K result e) (\<lambda>result e.
     and_then (map_err status_from_merkle (merkle_len (vouchers_tree e)), e) (\<lambda>n e.
       let address = usize_shl (usize_sub n 1) LOG2_KECCAK_SIZE in
     and_then (map_err status_from_merkle (get_proof (vouchers_tree e) address LOG2_KECCAK_SIZE), e) (\<lambda>vp e.
     and_then (map_err status_from_merkle (get_proof (notices_tree e) address LOG2_KECCAK_SIZE), e) (\<lambda>np e.
       let result = result\<lparr>voucher_hashes_in_epoch := Some vp, notice_hashes_in_epoch := Some np\<rparr>
       in (Ok (), e\<lparr>pending_inputs := pending_inputs e - 1,
                    processed_inputs := processed_inputs e @ [result]\<rparr>)))))"

text \<open>The proofs of the outputs of one kind of one input, in \<open>try_finish\<close>.\<close>

fun output_proofs ::
  "OutputEnum \<Rightarrow> ('o \<Rightarrow> MerkleProof option) \<Rightarrow> byte list \<Rightarrow> u64 \<Rightarrow> nat \<Rightarrow> Hash option \<Rightarrow> Hash \<Rightarrow> Hash \<Rightarrow>
   MerkleProof \<Rightarrow> nat \<Rightarrow> 'o list \<Rightarrow> (Status, GrpcProof list) outcome" where
  "output_proofs kind stored context global_input_index local_input_index root v_root n_root in_epoch i [] = Ok []"
| "output_proofs kind stored context global_input_index local_input_index root v_root n_root in_epoch i (x # xs) =
     bind_outcome (unwrap root) (\<lambda>root_hash.
     bind_outcome (unwrap (stored x)) (\<lambda>p.
     bind_outcome (output_proofs kind stored context global_input_index local_input_index root v_root n_root
        in_epoch (Suc i) xs) (\<lambda>ps.
       Ok (\<lparr> gp_input_index = global_input_index, gp_output_index = of_nat i, gp_output_enum = kind,
             gp_validity = Some
               \<lparr> ov_input_index_within_epoch = of_nat local_input_index,
                 ov_output_index_within_input = of_nat i,
                 ov_output_hashes_root_hash = Some (hash_to_grpc root_hash),
                 ov_vouchers_epoch_root_hash = Some (hash_to_grpc v_root),
                 ov_notices_epoch_root_hash = Some (hash_to_grpc n_root),
                 ov_machine_state_hash = Some (hash_to_grpc (replicate HASH_SIZE 0)),
                 ov_output_hash_in_output_hashes_siblings = map hash_to_grpc (sibling_hashes p),
                 ov_output_hashes_in_epoch_siblings = map hash_to_grpc (sibling_hashes in_epoch) \<rparr>,
             gp_context = context \<rparr> # ps))))"

text \<open>The loop of \<open>try_finish\<close> over the processed inputs.\<close>

fun finish_proofs ::
  "byte list \<Rightarrow> Epoch \<Rightarrow> nat \<Rightarrow> HostAdvanceResult list \<Rightarrow> (Status, GrpcProof list) outcome" where
  "finish_proofs context e i [] = Ok []"
| "finish_proofs context e i (result # rs) =
     (let address = usize_shl i LOG2_KECCAK_SIZE in
      bind_outcome (map_err status_from_merkle (get_proof (vouchers_tree e) address LOG2_KECCAK_SIZE)) (\<lambda>vp.
      bind_outcome (map_err status_from_merkle (get_proof (notices_tree e) address LOG2_KECCAK_SIZE)) (\<lambda>np.
      bind_outcome (map_err status_from_merkle (get_root_hash (vouchers_tree e))) (\<lambda>v_root.
      bind_outcome (map_err status_from_merkle (get_root_hash (notices_tree e))) (\<lambda>n_root.
        let global_input_index = processed_input_count_since_genesis e + of_nat i in
      bind_outcome
        (case har_status result of
           CompletionAccepted vouchers notices \<Rightarrow>
             bind_outcome (output_proofs EnumVoucher keccak_in_voucher_hashes context global_input_index i
               (voucher_root result) v_root n_root vp 0 vouchers) (\<lambda>vs.
             bind_outcome (output_proofs EnumNotice keccak_in_notice_hashes context global_input_index i
               (notice_root result) v_root n_root np 0 notices) (\<lambda>ns.
               Ok (vs @ ns)))
         | _ \<Rightarrow> Ok []) (\<lambda>ps.
      bind_outcome (finish_proofs context e (Suc i) rs) (\<lambda>ps'. Ok (ps @ ps'))))))))"

definition try_finish :: "(U256 \<Rightarrow> byte list) \<Rightarrow> u64 \<Rightarrow> u64 \<Rightarrow> Epoch \<Rightarrow> (Epoch, Status, FinishEpochResponse) action" where
  "try_finish encode_int processed_input_count_within_epoch epoch_idx e =
     and_then (bind_outcome (check_active e) (\<lambda>_.
               bind_outcome (check_pending_inputs e) (\<lambda>_.
                 check_processed_inputs processed_input_count_within_epoch e)), e) (\<lambda>_ e.
       let e = e\<lparr>ep_state := EpochFinished\<rparr>;
           context = encode_int (ucast epoch_idx)
       in
     and_then (finish_proofs context e 0 (processed_inputs e), e) (\<lambda>proofs e.
     and_then (map_err status_from_merkle (get_root_hash (vouchers_tree e)), e) (\<lambda>v_root e.
     and_then (map_err status_from_merkle (get_root_hash (notices_tree e)), e) (\<lambda>n_root e.
       (Ok \<lparr> fr_machine_hash = Some (hash_to_grpc (replicate HASH_SIZE 0)),
             fr_vouchers_epoch_root_hash = Some (hash_to_grpc v_root),
             fr_notices_epoch_root_hash = Some (hash_to_grpc n_root),
             fr_proofs = proofs \<rparr>, e)))))"

definition processed_input_status :: "Epoch \<Rightarrow> nat \<Rightarrow> HostAdvanceResult \<Rightarrow> ProcessedInput" where
  "processed_input_status e local_input_index r =
     \<lparr> pi_input_index = of_nat local_input_index + processed_input_count_since_genesis e,
       pi_status = completion_status_to_grpc (har_status r),
       pi_processed_input_one_of = completion_status_one_of (har_status r),
       pi_reports = map report_to_grpc (har_reports r) \<rparr>"

definition epoch_get_status :: "string \<Rightarrow> u64 \<Rightarrow> TaintStatus option \<Rightarrow> Epoch \<Rightarrow> GetEpochStatusResponse" where
  "epoch_get_status session_id epoch_idx taint_status e =
     \<lparr> es_session_id = session_id, es_epoch_index = epoch_idx, es_state = ep_state e,
       es_processed_inputs =
         map (\<lambda>(i, r). processed_input_status e i r) (List.enumerate 0 (processed_inputs e)),
       es_pending_input_count = pending_inputs e, es_taint_status = taint_status \<rparr>"

section \<open>The invariant of an epoch\<close>

text \<open>What the trees hold for an input: the root of its outputs, or the zero hash.\<close>

definition voucher_leaf :: "Hasher \<Rightarrow> HostAdvanceResult \<Rightarrow> Hash" where
  "voucher_leaf K r =
     (case har_status r of CompletionAccepted vs ns \<Rightarrow> outputs_root K (map hv_keccak vs) | _ \<Rightarrow> hash_default)"

definition notice_leaf :: "Hasher \<Rightarrow> HostAdvanceResult \<Rightarrow> Hash" where
  "notice_leaf K r =
     (case har_status r of CompletionAccepted vs ns \<Rightarrow> outputs_root K (map hn_keccak ns) | _ \<Rightarrow> hash_default)"

text \<open>Every output of a processed input carries its proof, and the input the roots of both.\<close>

definition proved :: "Hasher \<Rightarrow> ('o \<Rightarrow> Hash) \<Rightarrow> ('o \<Rightarrow> MerkleProof option) \<Rightarrow> 'o list \<Rightarrow> bool" where
  "proved K hash stored os \<longleftrightarrow> length os \<le> 2 ^ 16 \<and>
     map stored os = map (\<lambda>i. Some (proof_at K (map hash os) i)) [0..<length os]"

definition result_ok :: "Hasher \<Rightarrow> HostAdvanceResult \<Rightarrow> bool" where
  "result_ok K r \<longleftrightarrow>
     (case har_status r of
        CompletionAccepted vs ns \<Rightarrow>
          proved K hv_keccak keccak_in_voucher_hashes vs \<and> proved K hn_keccak keccak_in_notice_hashes ns \<and>
          voucher_root r = Some (voucher_leaf K r) \<and> notice_root r = Some (notice_leaf K r)
      | _ \<Rightarrow> True)"

definition epoch_ok :: "Hasher \<Rightarrow> Epoch \<Rightarrow> bool" where
  "epoch_ok K e \<longleftrightarrow>
     leaf_tree K 37 5 5 (vouchers_tree e) (map (voucher_leaf K) (processed_inputs e)) \<and>
     leaf_tree K 37 5 5 (notices_tree e) (map (notice_leaf K) (processed_inputs e)) \<and>
     list_all (result_ok K) (processed_inputs e) \<and>
     unat (pending_inputs e) + length (processed_inputs e) < 2 ^ 32"

lemma epoch_tree_sizes: "sizes_ok 37 5 5"
  by (simp add: sizes_ok_def)

definition empty_epoch :: "Hasher \<Rightarrow> u64 \<Rightarrow> Epoch" where
  "empty_epoch K n = \<lparr> ep_state = EpochActive, pending_inputs = 0, processed_inputs = [],
     vouchers_tree = tree_of K 37 5 5 [], notices_tree = tree_of K 37 5 5 [],
     processed_input_count_since_genesis = n \<rparr>"

lemma epoch_new_eq: "epoch_new K n = Ok (empty_epoch K n)"
  using complete_new_eq [OF epoch_tree_sizes, of K] by (simp add: epoch_new_def epoch_sizes empty_epoch_def)

lemma empty_epoch_ok: "epoch_ok K (empty_epoch K n)"
  using epoch_tree_sizes by (simp add: empty_epoch_def epoch_ok_def leaf_tree_def)

lemma u64_small_sum:
  assumes "unat (p :: u64) + n < 2 ^ 32"
  shows "unat (p + of_nat n + 1) = unat p + n + 1"
proof -
  have "p + of_nat n + 1 = of_nat (unat p + n + 1)"
    by simp
  moreover have "unat p + n + 1 < 2 ^ LENGTH(64)"
    using assms by simp
  ultimately show ?thesis
    by (metis unat_of_nat_small)
qed

lemma check_input_limit_eq:
  assumes "epoch_ok K e"
  shows "check_input_limit e =
    ensure (unat (pending_inputs e) + length (processed_inputs e) + 1 < 2 ^ 32)
      (invalid_argument ''reached max number of inputs per epoch'')"
proof -
  have "unat (pending_inputs e + of_nat (length (processed_inputs e)) + 1) =
      unat (pending_inputs e) + length (processed_inputs e) + 1"
    using assms by (intro u64_small_sum) (simp add: epoch_ok_def)
  moreover have "unat (of_nat MAX_INPUTS_IN_EPOCH :: u64) = 2 ^ 32"
    by (simp add: epoch_sizes)
  ultimately show ?thesis
    by (simp add: check_input_limit_def word_less_nat_alt get_num_processed_inputs_within_epoch_def)
qed

lemma try_add_pending_input_ok:
  assumes "epoch_ok K e" and "try_add_pending_input i e = (Ok (), e')"
  shows "epoch_ok K e' \<and> e' = e\<lparr>pending_inputs := pending_inputs e + 1\<rparr> \<and>
    unat (pending_inputs e') = unat (pending_inputs e) + 1 \<and> i = get_current_input_index e \<and>
    ep_state e = EpochActive"
proof -
  have e': "e' = e\<lparr>pending_inputs := pending_inputs e + 1\<rparr>" "i = get_current_input_index e" "ep_state e = EpochActive"
    and lim: "unat (pending_inputs e) + length (processed_inputs e) + 1 < 2 ^ 32"
    using assms(2)
    by (auto simp: try_add_pending_input_def and_then_Ok_iff bind_outcome_Ok_iff check_active_def
        check_current_input_index_def Let_def check_input_limit_eq [OF assms(1)])
  have "unat (pending_inputs e + 1) = unat (pending_inputs e) + 1"
    using u64_small_sum [of "pending_inputs e" 0] lim by simp
  then show ?thesis
    using assms(1) lim e' by (simp add: epoch_ok_def)
qed

lemma push_vouchers_tree_ok:
  assumes "leaf_tree K 37 5 5 (vouchers_tree e) ls" and "length ls < 2 ^ 32"
  obtains t where "push_vouchers_tree K h e = (Ok (), e\<lparr>vouchers_tree := t\<rparr>)" and "leaf_tree K 37 5 5 t (ls @ [h])"
  using leaves.push_ok [OF assms(1), of h] assms(2) by (auto simp: push_vouchers_tree_def)

lemma push_notices_tree_ok:
  assumes "leaf_tree K 37 5 5 (notices_tree e) ls" and "length ls < 2 ^ 32"
  obtains t where "push_notices_tree K h e = (Ok (), e\<lparr>notices_tree := t\<rparr>)" and "leaf_tree K 37 5 5 t (ls @ [h])"
  using leaves.push_ok [OF assms(1), of h] assms(2) by (auto simp: push_notices_tree_def)

lemma compute_proofs_proved:
  assumes "compute_proofs K P os = (Ok r, os')"
    and "\<And>p x. pf_get_hash P (pf_set_proof P p x) = pf_get_hash P x"
    and "\<And>p x. stored (pf_set_proof P p x) = Some p"
  shows "r = outputs_root K (map (pf_get_hash P) os) \<and> map (pf_get_hash P) os' = map (pf_get_hash P) os \<and>
    proved K (pf_get_hash P) stored os'"
proof -
  let ?hs = "map (pf_get_hash P) os"
  let ?os = "map2 (\<lambda>i. pf_set_proof P (proof_at K ?hs i)) [0..<length os] os"
  have *: "length os \<le> 2 ^ 16" "r = outputs_root K ?hs" "os' = ?os"
    using assms(1) by (auto simp: compute_proofs_eq split: if_splits)
  have hashes: "map (pf_get_hash P) ?os = ?hs"
    by (rule nth_equalityI) (simp_all add: assms(2))
  moreover have "map stored ?os = map (\<lambda>i. Some (proof_at K ?hs i)) [0..<length os]"
    by (rule nth_equalityI) (simp_all add: assms(3))
  ultimately show ?thesis
    using * by (simp add: proved_def del: map_map)
qed

text \<open>The outputs of the \<open>i\<close>-th input of an epoch: the index of the input, the kind of the output,
  its index in the input and its hash.\<close>

fun result_outputs :: "nat \<Rightarrow> CompletionStatus \<Rightarrow> (nat \<times> OutputEnum \<times> nat \<times> Hash) list" where
  "result_outputs i (CompletionAccepted vs ns) =
     map (\<lambda>j. (i, EnumVoucher, j, hv_keccak (vs ! j))) [0..<length vs] @
     map (\<lambda>j. (i, EnumNotice, j, hn_keccak (ns ! j))) [0..<length ns]"
| "result_outputs i _ = []"

text \<open>The outputs of a result that are handed out do not change when their proofs are stored.\<close>

definition same_outputs :: "HostAdvanceResult \<Rightarrow> HostAdvanceResult \<Rightarrow> bool" where
  "same_outputs r r' \<longleftrightarrow> completion_status_one_of (har_status r') = completion_status_one_of (har_status r) \<and>
     completion_status_to_grpc (har_status r') = completion_status_to_grpc (har_status r) \<and> har_reports r' = har_reports r \<and>
     (\<forall>i. result_outputs i (har_status r') = result_outputs i (har_status r))"

fun few_outputs :: "CompletionStatus \<Rightarrow> bool" where
  "few_outputs (CompletionAccepted vs ns) \<longleftrightarrow> length vs \<le> 2 ^ 16 \<and> length ns \<le> 2 ^ 16"
| "few_outputs _ \<longleftrightarrow> True"

lemma result_outputs_cong:
  assumes "map hv_keccak vs' = map hv_keccak vs" and "map hn_keccak ns' = map hn_keccak ns"
  shows "result_outputs i (CompletionAccepted vs' ns') = result_outputs i (CompletionAccepted vs ns)"
proof -
  have "length vs' = length vs" "length ns' = length ns"
    using assms by (metis length_map)+
  moreover have "hv_keccak (vs' ! j) = hv_keccak (vs ! j)" if "j < length vs" for j
    using assms(1) that calculation(1) by (metis nth_map)
  moreover have "hn_keccak (ns' ! j) = hn_keccak (ns ! j)" if "j < length ns" for j
    using assms(2) that calculation(2) by (metis nth_map)
  ultimately show ?thesis
    by simp
qed

lemma compute_proofs_map:
  assumes "compute_proofs K P os = (r, os')" and "\<And>p x. f (pf_set_proof P p x) = f x"
  shows "map f os' = map f os"
proof -
  have "map f (map2 (\<lambda>i. pf_set_proof P (proof_at K hs i)) [0..<length os] os) = map f os" for hs
    by (rule nth_equalityI) (simp_all add: assms(2))
  then show ?thesis
    using assms(1) by (auto simp: compute_proofs_eq simp del: map_map split: if_splits)
qed

lemma voucher_proofs:
  assumes "length vs \<le> 2 ^ 16"
  obtains vs' where "compute_proofs K voucher_proofable vs = (Ok (outputs_root K (map hv_keccak vs)), vs')"
    and "map hv_keccak vs' = map hv_keccak vs" and "map voucher_to_grpc vs' = map voucher_to_grpc vs"
    and "proved K hv_keccak keccak_in_voucher_hashes vs'"
proof -
  obtain r vs' where run: "compute_proofs K voucher_proofable vs = (Ok r, vs')"
    using assms by (simp add: compute_proofs_eq)
  show ?thesis
    using compute_proofs_proved [OF run, of keccak_in_voucher_hashes] compute_proofs_map [OF run, of voucher_to_grpc] run
    by (intro that [of vs']) (simp_all add: voucher_proofable_def voucher_set_proof_def voucher_to_grpc_def)
qed

lemma notice_proofs:
  assumes "length ns \<le> 2 ^ 16"
  obtains ns' where "compute_proofs K notice_proofable ns = (Ok (outputs_root K (map hn_keccak ns)), ns')"
    and "map hn_keccak ns' = map hn_keccak ns" and "map notice_to_grpc ns' = map notice_to_grpc ns"
    and "proved K hn_keccak keccak_in_notice_hashes ns'"
proof -
  obtain r ns' where run: "compute_proofs K notice_proofable ns = (Ok r, ns')"
    using assms by (simp add: compute_proofs_eq)
  show ?thesis
    using compute_proofs_proved [OF run, of keccak_in_notice_hashes] compute_proofs_map [OF run, of notice_to_grpc] run
    by (intro that [of ns']) (simp_all add: notice_proofable_def notice_set_proof_def notice_to_grpc_def)
qed

lemma push_both_trees:
  assumes "epoch_ok K e" and "unat (pending_inputs e) > 0"
  obtains vt nt where "push_vouchers_tree K h e = (Ok (), e\<lparr>vouchers_tree := vt\<rparr>)"
    and "push_notices_tree K h' (e\<lparr>vouchers_tree := vt\<rparr>) = (Ok (), e\<lparr>vouchers_tree := vt, notices_tree := nt\<rparr>)"
    and "leaf_tree K 37 5 5 vt (map (voucher_leaf K) (processed_inputs e) @ [h])"
    and "leaf_tree K 37 5 5 nt (map (notice_leaf K) (processed_inputs e) @ [h'])"
proof -
  have len: "length (processed_inputs e) < 2 ^ 32"
    using assms by (simp add: epoch_ok_def)
  obtain vt where v: "push_vouchers_tree K h e = (Ok (), e\<lparr>vouchers_tree := vt\<rparr>)"
    "leaf_tree K 37 5 5 vt (map (voucher_leaf K) (processed_inputs e) @ [h])"
    by (rule push_vouchers_tree_ok [of K e "map (voucher_leaf K) (processed_inputs e)" h])
      (use assms(1) len in \<open>simp_all add: epoch_ok_def\<close>)
  obtain nt where n: "push_notices_tree K h' (e\<lparr>vouchers_tree := vt\<rparr>) = (Ok (), e\<lparr>vouchers_tree := vt, notices_tree := nt\<rparr>)"
    "leaf_tree K 37 5 5 nt (map (notice_leaf K) (processed_inputs e) @ [h'])"
    by (rule push_notices_tree_ok [of K "e\<lparr>vouchers_tree := vt\<rparr>" "map (notice_leaf K) (processed_inputs e)" h'])
      (use assms(1) len in \<open>simp_all add: epoch_ok_def\<close>)
  show thesis
    using v n by (intro that)
qed

lemma update_trees_ok:
  assumes "epoch_ok K e" and "unat (pending_inputs e) > 0" and "few_outputs (har_status result)"
  obtains vt nt result' where "update_trees K result e = (Ok result', e\<lparr>vouchers_tree := vt, notices_tree := nt\<rparr>)"
    and "leaf_tree K 37 5 5 vt (map (voucher_leaf K) (processed_inputs e @ [result']))"
    and "leaf_tree K 37 5 5 nt (map (notice_leaf K) (processed_inputs e @ [result']))"
    and "result_ok K result'" and "same_outputs result result'"
proof (cases "har_status result")
  case (CompletionAccepted vs ns)
  then have few: "length vs \<le> 2 ^ 16" "length ns \<le> 2 ^ 16"
    using assms(3) by simp_all
  obtain vs' where vs': "compute_proofs K voucher_proofable vs = (Ok (outputs_root K (map hv_keccak vs)), vs')"
    "map hv_keccak vs' = map hv_keccak vs" "map voucher_to_grpc vs' = map voucher_to_grpc vs"
    "proved K hv_keccak keccak_in_voucher_hashes vs'"
    by (rule voucher_proofs [OF few(1)])
  obtain ns' where ns': "compute_proofs K notice_proofable ns = (Ok (outputs_root K (map hn_keccak ns)), ns')"
    "map hn_keccak ns' = map hn_keccak ns" "map notice_to_grpc ns' = map notice_to_grpc ns"
    "proved K hn_keccak keccak_in_notice_hashes ns'"
    by (rule notice_proofs [OF few(2)])
  let ?vr = "outputs_root K (map hv_keccak vs)" and ?nr = "outputs_root K (map hn_keccak ns)"
  let ?result = "result\<lparr>har_status := CompletionAccepted vs' ns', voucher_root := Some ?vr, notice_root := Some ?nr\<rparr>"
  obtain vt nt where t: "push_vouchers_tree K ?vr e = (Ok (), e\<lparr>vouchers_tree := vt\<rparr>)"
    "push_notices_tree K ?nr (e\<lparr>vouchers_tree := vt\<rparr>) = (Ok (), e\<lparr>vouchers_tree := vt, notices_tree := nt\<rparr>)"
    "leaf_tree K 37 5 5 vt (map (voucher_leaf K) (processed_inputs e) @ [?vr])"
    "leaf_tree K 37 5 5 nt (map (notice_leaf K) (processed_inputs e) @ [?nr])"
    by (rule push_both_trees [OF assms(1,2)])
  show thesis
    by (rule that [of ?result]) (use t(3,4) in \<open>simp_all add: update_trees_def CompletionAccepted vs' ns' t(1,2)
        voucher_leaf_def notice_leaf_def result_ok_def same_outputs_def
        result_outputs_cong [OF vs'(2) ns'(2)] del: result_outputs.simps\<close>)
next
  case CompletionRejected
  obtain vt nt where t: "push_vouchers_tree K hash_default e = (Ok (), e\<lparr>vouchers_tree := vt\<rparr>)"
    "push_notices_tree K hash_default (e\<lparr>vouchers_tree := vt\<rparr>) = (Ok (), e\<lparr>vouchers_tree := vt, notices_tree := nt\<rparr>)"
    "leaf_tree K 37 5 5 vt (map (voucher_leaf K) (processed_inputs e) @ [hash_default])"
    "leaf_tree K 37 5 5 nt (map (notice_leaf K) (processed_inputs e) @ [hash_default])"
    by (rule push_both_trees [OF assms(1,2)])
  with CompletionRejected show thesis
    by (intro that [of result]) (simp_all add: update_trees_def voucher_leaf_def notice_leaf_def result_ok_def
        same_outputs_def)
next
  case (CompletionException x)
  obtain vt nt where t: "push_vouchers_tree K hash_default e = (Ok (), e\<lparr>vouchers_tree := vt\<rparr>)"
    "push_notices_tree K hash_default (e\<lparr>vouchers_tree := vt\<rparr>) = (Ok (), e\<lparr>vouchers_tree := vt, notices_tree := nt\<rparr>)"
    "leaf_tree K 37 5 5 vt (map (voucher_leaf K) (processed_inputs e) @ [hash_default])"
    "leaf_tree K 37 5 5 nt (map (notice_leaf K) (processed_inputs e) @ [hash_default])"
    by (rule push_both_trees [OF assms(1,2)])
  with CompletionException show thesis
    by (intro that [of result]) (simp_all add: update_trees_def voucher_leaf_def notice_leaf_def result_ok_def
        same_outputs_def)
qed

lemma last_leaf_address: "n < 2 ^ 32 \<Longrightarrow> usize_shl n LOG2_KECCAK_SIZE = n * 2 ^ 5"
  by (simp add: usize_shl_def LOG2_KECCAK_SIZE_def)

lemma add_processed_input_ok:
  assumes "epoch_ok K e" and "unat (pending_inputs e) > 0" and "few_outputs (har_status result)"
  obtains e' result' where "add_processed_input K result e = (Ok (), e')" and "epoch_ok K e'"
    and "processed_inputs e' = processed_inputs e @ [result']" and "same_outputs result result'"
    and "unat (pending_inputs e') = unat (pending_inputs e) - 1"
    and "ep_state e' = ep_state e"
    and "processed_input_count_since_genesis e' = processed_input_count_since_genesis e"
proof -
  let ?n = "length (processed_inputs e)"
  obtain vt nt result' where u: "update_trees K result e = (Ok result', e\<lparr>vouchers_tree := vt, notices_tree := nt\<rparr>)"
    and vt: "leaf_tree K 37 5 5 vt (map (voucher_leaf K) (processed_inputs e @ [result']))"
    and nt: "leaf_tree K 37 5 5 nt (map (notice_leaf K) (processed_inputs e @ [result']))"
    and r: "result_ok K result'" "same_outputs result result'"
    by (rule update_trees_ok [OF assms])
  have len: "merkle_len vt = Ok (Suc ?n)"
    using leaves.len_ok [OF vt] by simp
  have small: "?n < 2 ^ 32" "unat (pending_inputs e) + ?n < 2 ^ 32"
    using assms(1) by (simp_all add: epoch_ok_def)
  obtain vp where vp: "get_proof vt (?n * 2 ^ 5) 5 = Ok vp"
    using leaves.prove_ok [OF vt, of ?n] by auto
  obtain np where np: "get_proof nt (?n * 2 ^ 5) 5 = Ok np"
    using leaves.prove_ok [OF nt, of ?n] by auto
  let ?result = "result'\<lparr>voucher_hashes_in_epoch := Some vp, notice_hashes_in_epoch := Some np\<rparr>"
  let ?e = "e\<lparr>vouchers_tree := vt, notices_tree := nt, pending_inputs := pending_inputs e - 1,
    processed_inputs := processed_inputs e @ [?result]\<rparr>"
  have leaf: "voucher_leaf K ?result = voucher_leaf K result'" "notice_leaf K ?result = notice_leaf K result'"
    by (simp_all add: voucher_leaf_def notice_leaf_def)
  have p: "unat (pending_inputs e - 1) = unat (pending_inputs e) - 1"
    using assms(2) by (metis unat_eq_zero unat_minus_one less_irrefl)
  have "epoch_ok K ?e"
    using assms(1,2) vt nt r(1) small p leaf
    by (simp add: epoch_ok_def result_ok_def voucher_leaf_def notice_leaf_def split: CompletionStatus.splits)
  moreover have "add_processed_input K result e = (Ok (), ?e)"
    using small(1) vp np
    by (simp add: add_processed_input_def u len usize_sub_def last_leaf_address Let_def LOG2_KECCAK_SIZE_def
        last_leaf_address [unfolded LOG2_KECCAK_SIZE_def])
  ultimately show thesis
    using r(2) p by (intro that [of ?e ?result]) (simp_all add: same_outputs_def)
qed

text \<open>An error keeps the counters and the results: only the trees may have grown.\<close>

definition same_counts :: "Epoch \<Rightarrow> Epoch \<Rightarrow> bool" where
  "same_counts e e' \<longleftrightarrow> processed_inputs e' = processed_inputs e \<and> pending_inputs e' = pending_inputs e \<and>
     ep_state e' = ep_state e \<and>
     processed_input_count_since_genesis e' = processed_input_count_since_genesis e"

lemma push_trees_keep:
  "same_counts e s \<Longrightarrow> same_counts e (snd (push_vouchers_tree K h s))"
  "same_counts e s \<Longrightarrow> same_counts e (snd (push_notices_tree K h s))"
  by (auto simp: same_counts_def push_vouchers_tree_def push_notices_tree_def split: prod.splits)

lemma update_trees_keep: "same_counts e (snd (update_trees K result e))"
proof -
  have refl: "same_counts e e"
    by (simp add: same_counts_def)
  show ?thesis
    unfolding update_trees_def
    by (cases "har_status result")
      (auto simp: refl push_trees_keep split: prod.splits intro!: and_then_keeps [where Q = "same_counts e"])
qed

lemma add_processed_input_err:
  assumes "add_processed_input K result e = (r, e')" and "r \<noteq> Ok ()"
  shows "same_counts e e'"
proof -
  obtain ur e1 where u: "update_trees K result e = (ur, e1)"
    by (rule prod.exhaust)
  then have "same_counts e e1"
    using update_trees_keep [of e K result] by simp
  then show ?thesis
    using assms by (cases ur) (auto simp: add_processed_input_def u and_then_pure Let_def split: outcome.splits)
qed

text \<open>Too many outputs are an error.\<close>

lemma add_processed_input_too_many:
  assumes "\<not> few_outputs (har_status result)" and "epoch_ok K e" and "unat (pending_inputs e) > 0"
  obtains e' where "add_processed_input K result e = (Err (status_from_merkle TooManyLeaves), e')"
proof -
  obtain vs ns where acc: "har_status result = CompletionAccepted vs ns" "\<not> length vs \<le> 2 ^ 16 \<or> \<not> length ns \<le> 2 ^ 16"
    using assms(1) by (cases "har_status result") auto
  obtain vt where "push_vouchers_tree K (outputs_root K (map hv_keccak vs)) e = (Ok (), e\<lparr>vouchers_tree := vt\<rparr>)"
    by (rule push_both_trees [OF assms(2,3)])
  moreover have "pf_get_hash voucher_proofable = hv_keccak"
    by (simp add: voucher_proofable_def)
  ultimately have "\<exists>e'. update_trees K result e = (Err (status_from_merkle TooManyLeaves), e')"
    using acc by (auto simp: update_trees_def compute_proofs_eq)
  then show thesis
    using that by (auto simp: add_processed_input_def)
qed

section \<open>The proofs of a finished epoch\<close>

definition outputs_from :: "nat \<Rightarrow> HostAdvanceResult list \<Rightarrow> (nat \<times> OutputEnum \<times> nat \<times> Hash) list" where
  "outputs_from i rs = concat (map (\<lambda>(k, r). result_outputs k (har_status r)) (List.enumerate i rs))"

text \<open>What whoever holds the roots of an epoch checks of a proof: the words of the hash of the
  output lead to the root of the outputs of its input, and that root leads to the root of the
  epoch.\<close>

definition validates :: "Hasher \<Rightarrow> Hash \<Rightarrow> Hash \<Rightarrow> OutputValidityProof \<Rightarrow> bool" where
  "validates K epoch_root output_hash v \<longleftrightarrow>
     (case ov_output_hashes_root_hash v of
        None \<Rightarrow> False
      | Some r \<Rightarrow>
          roll_up K (words_root K output_hash) (unat (ov_output_index_within_input v))
            (map gh_data (ov_output_hash_in_output_hashes_siblings v)) = gh_data r \<and>
          roll_up K (gh_data r) (unat (ov_input_index_within_epoch v))
            (map gh_data (ov_output_hashes_in_epoch_siblings v)) = epoch_root)"

fun proof_of :: "Hasher \<Rightarrow> Hash \<Rightarrow> Hash \<Rightarrow> u64 \<Rightarrow> nat \<times> OutputEnum \<times> nat \<times> Hash \<Rightarrow> GrpcProof \<Rightarrow> bool" where
  "proof_of K v_root n_root since_genesis (i, kind, j, h) p \<longleftrightarrow>
     gp_input_index p = since_genesis + of_nat i \<and> gp_output_index p = of_nat j \<and> gp_output_enum p = kind \<and>
     (case gp_validity p of
        None \<Rightarrow> False
      | Some v \<Rightarrow> ov_vouchers_epoch_root_hash v = Some (hash_to_grpc v_root) \<and>
          ov_notices_epoch_root_hash v = Some (hash_to_grpc n_root) \<and>
          validates K (case kind of EnumVoucher \<Rightarrow> v_root | EnumNotice \<Rightarrow> n_root) h v)"

lemma proof_at_root: "proof_root K (proof_at K hs j) = roll_up K (target_hash (proof_at K hs j)) j (sibling_hashes (proof_at K hs j))"
  by (simp add: proof_root_def proof_at_def)

lemma output_proofs_ok:
  assumes "proved K hash stored os" and "drop j os = xs" and "j \<le> length os" and "i < 2 ^ 32"
    and "root = Some (outputs_root K (map hash os))"
    and "roll_up K (outputs_root K (map hash os)) i (sibling_hashes in_epoch)
      = (case kind of EnumVoucher \<Rightarrow> v_root | EnumNotice \<Rightarrow> n_root)"
  shows "\<exists>ps. output_proofs kind stored context (since + of_nat i) i root v_root n_root in_epoch j xs = Ok ps \<and>
    list_all2 (proof_of K v_root n_root since) (map (\<lambda>k. (i, kind, k, hash (os ! k))) [j..<length os]) ps"
  using assms(2,3)
proof (induction xs arbitrary: j)
  case (Cons x xs)
  let ?hs = "map hash os"
  have less: "j < length os"
    using Cons.prems(1) by (metis drop_all list.distinct(1) not_le)
  have j: "j < length os" "x = os ! j" "drop (Suc j) os = xs"
    using less Cons_nth_drop_Suc [OF less] Cons.prems(1) by simp_all
  have few: "length ?hs \<le> 2 ^ 16" "length os \<le> 2 ^ 16"
    using assms(1) by (simp_all add: proved_def)
  have "map stored os ! j = Some (proof_at K ?hs j)"
    using assms(1) j(1) by (simp add: proved_def)
  then have st: "stored x = Some (proof_at K ?hs j)"
    using j by simp
  obtain ps where ps: "output_proofs kind stored context (since + of_nat i) i root v_root n_root in_epoch (Suc j) xs = Ok ps"
    "list_all2 (proof_of K v_root n_root since) (map (\<lambda>k. (i, kind, k, hash (os ! k))) [Suc j..<length os]) ps"
    using Cons.IH [OF j(3)] j(1) by auto
  have "unat (of_nat i :: u64) = i" "unat (of_nat j :: u64) = j"
    using assms(4) j(1) few(2) by (intro unat_of_nat_small, simp)+
  moreover have "roll_up K (words_root K (hash x)) j (sibling_hashes (proof_at K ?hs j)) = outputs_root K ?hs"
    using proof_at_checks [OF few(1), of j K] j(1,2) by (metis length_map nth_map proof_at_root)
  ultimately show ?case
    using j(1,2) st ps assms(6) by (simp add: assms(5) upt_conv_Cons validates_def hash_to_grpc_def
        comp_def del: upt_Suc)
qed simp

lemma epoch_proof_ok:
  assumes "leaf_tree K 37 5 5 t ls" and "i < length ls"
  obtains p r where "get_proof t (usize_shl i LOG2_KECCAK_SIZE) LOG2_KECCAK_SIZE = Ok p" and "get_root_hash t = Ok r"
    and "roll_up K (ls ! i) i (sibling_hashes p) = r"
proof -
  have "length ls \<le> 2 ^ (37 - 5)"
    using leaves.rep_capacity [OF assms(1)] .
  then have "usize_shl i LOG2_KECCAK_SIZE = i * 2 ^ 5"
    using assms(2) by (intro last_leaf_address) simp
  then show thesis
    using leaves.prove_ok [OF assms] that by (auto simp: LOG2_KECCAK_SIZE_def)
qed

lemma result_proofs_ok:
  assumes "result_ok K r" and "i < 2 ^ 32"
    and "roll_up K (voucher_leaf K r) i (sibling_hashes vp) = v_root"
    and "roll_up K (notice_leaf K r) i (sibling_hashes np) = n_root"
  shows "\<exists>ps. (case har_status r of
           CompletionAccepted vouchers notices \<Rightarrow>
             bind_outcome (output_proofs EnumVoucher keccak_in_voucher_hashes context (since + of_nat i) i
               (voucher_root r) v_root n_root vp 0 vouchers) (\<lambda>vs.
             bind_outcome (output_proofs EnumNotice keccak_in_notice_hashes context (since + of_nat i) i
               (notice_root r) v_root n_root np 0 notices) (\<lambda>ns. Ok (vs @ ns)))
         | _ \<Rightarrow> Ok []) = Ok ps \<and>
    list_all2 (proof_of K v_root n_root since) (result_outputs i (har_status r)) ps"
proof (cases "har_status r")
  case (CompletionAccepted vs ns)
  then have ok: "proved K hv_keccak keccak_in_voucher_hashes vs" "proved K hn_keccak keccak_in_notice_hashes ns"
    "voucher_root r = Some (outputs_root K (map hv_keccak vs))" "notice_root r = Some (outputs_root K (map hn_keccak ns))"
    and up: "roll_up K (outputs_root K (map hv_keccak vs)) i (sibling_hashes vp) = v_root"
      "roll_up K (outputs_root K (map hn_keccak ns)) i (sibling_hashes np) = n_root"
    using assms by (simp_all add: result_ok_def voucher_leaf_def notice_leaf_def)
  obtain ps qs where
    "output_proofs EnumVoucher keccak_in_voucher_hashes context (since + of_nat i) i (voucher_root r) v_root n_root vp 0 vs = Ok ps"
    "list_all2 (proof_of K v_root n_root since) (map (\<lambda>k. (i, EnumVoucher, k, hv_keccak (vs ! k))) [0..<length vs]) ps"
    "output_proofs EnumNotice keccak_in_notice_hashes context (since + of_nat i) i (notice_root r) v_root n_root np 0 ns = Ok qs"
    "list_all2 (proof_of K v_root n_root since) (map (\<lambda>k. (i, EnumNotice, k, hn_keccak (ns ! k))) [0..<length ns]) qs"
    using output_proofs_ok [OF ok(1) drop_0 _ assms(2) ok(3), where kind = EnumVoucher and in_epoch = vp]
      output_proofs_ok [OF ok(2) drop_0 _ assms(2) ok(4), where kind = EnumNotice and in_epoch = np] up
    by fastforce
  then show ?thesis
    by (simp add: CompletionAccepted list_all2_appendI)
qed simp_all

lemma finish_proofs_ok:
  assumes "leaf_tree K 37 5 5 (vouchers_tree e) (map (voucher_leaf K) all)"
    and "leaf_tree K 37 5 5 (notices_tree e) (map (notice_leaf K) all)"
    and "get_root_hash (vouchers_tree e) = Ok v_root" and "get_root_hash (notices_tree e) = Ok n_root"
    and "list_all (result_ok K) all" and "length all < 2 ^ 32" and "drop i all = rs"
  shows "\<exists>ps. finish_proofs context e i rs = Ok ps \<and>
    list_all2 (proof_of K v_root n_root (processed_input_count_since_genesis e)) (outputs_from i rs) ps"
  using assms(7)
proof (induction rs arbitrary: i)
  case (Cons r rs)
  have less: "i < length all"
    using Cons.prems by (metis drop_all list.distinct(1) not_le)
  then have r: "r = all ! i" "drop (Suc i) all = rs"
    using Cons_nth_drop_Suc [OF less] Cons.prems by simp_all
  then have ok: "result_ok K r" "i < 2 ^ 32"
    using assms(5,6) less by (auto simp: list_all_length)
  obtain vp where vp: "get_proof (vouchers_tree e) (usize_shl i LOG2_KECCAK_SIZE) LOG2_KECCAK_SIZE = Ok vp"
    "roll_up K (voucher_leaf K r) i (sibling_hashes vp) = v_root"
    using epoch_proof_ok [OF assms(1), of i] less assms(3) r(1) by (metis length_map nth_map outcome.inject(1))
  obtain np where np: "get_proof (notices_tree e) (usize_shl i LOG2_KECCAK_SIZE) LOG2_KECCAK_SIZE = Ok np"
    "roll_up K (notice_leaf K r) i (sibling_hashes np) = n_root"
    using epoch_proof_ok [OF assms(2), of i] less assms(4) r(1) by (metis length_map nth_map outcome.inject(1))
  obtain qs where "finish_proofs context e (Suc i) rs = Ok qs"
    "list_all2 (proof_of K v_root n_root (processed_input_count_since_genesis e)) (outputs_from (Suc i) rs) qs"
    using Cons.IH [OF r(2)] by blast
  with result_proofs_ok [OF ok vp(2) np(2), of "context" "processed_input_count_since_genesis e"] show ?case
    by (auto simp: vp(1) np(1) assms(3,4) Let_def outputs_from_def list_all2_appendI)
qed (simp add: outputs_from_def)

lemma try_finish_ok:
  assumes "epoch_ok K e" and "ep_state e = EpochActive" and "pending_inputs e = 0"
    and "n = of_nat (length (processed_inputs e))"
  shows "\<exists>v_root n_root proofs. try_finish encode_int n idx e =
      (Ok \<lparr> fr_machine_hash = Some (hash_to_grpc (replicate HASH_SIZE 0)),
            fr_vouchers_epoch_root_hash = Some (hash_to_grpc v_root),
            fr_notices_epoch_root_hash = Some (hash_to_grpc n_root), fr_proofs = proofs \<rparr>,
       e\<lparr>ep_state := EpochFinished\<rparr>) \<and>
    list_all2 (proof_of K v_root n_root (processed_input_count_since_genesis e)) (outputs_from 0 (processed_inputs e)) proofs"
proof -
  let ?e = "e\<lparr>ep_state := EpochFinished\<rparr>"
  have trees: "leaf_tree K 37 5 5 (vouchers_tree ?e) (map (voucher_leaf K) (processed_inputs e))"
    "leaf_tree K 37 5 5 (notices_tree ?e) (map (notice_leaf K) (processed_inputs e))"
    and rest: "list_all (result_ok K) (processed_inputs e)" "length (processed_inputs e) < 2 ^ 32"
    using assms(1) by (simp_all add: epoch_ok_def)
  obtain v_root n_root where roots: "get_root_hash (vouchers_tree ?e) = Ok v_root" "get_root_hash (notices_tree ?e) = Ok n_root"
    using trees get_root_hash_eq [OF epoch_tree_sizes] by (auto simp: leaf_tree_def)
  obtain ps where ps: "finish_proofs (encode_int (ucast idx)) ?e 0 (processed_inputs e) = Ok ps"
    "list_all2 (proof_of K v_root n_root (processed_input_count_since_genesis ?e)) (outputs_from 0 (processed_inputs e)) ps"
    using finish_proofs_ok [OF trees roots rest drop_0] by blast
  show ?thesis
    using assms(2-4) roots ps
    by (intro exI [of _ v_root] exI [of _ n_root] exI [of _ ps])
      (simp add: try_finish_def check_active_def check_pending_inputs_def check_processed_inputs_def
        get_num_processed_inputs_within_epoch_def)
qed

section \<open>Properties of an epoch\<close>

text \<open>The life of an epoch: inputs are announced, and their results arrive while they are
  pending; \<open>rs\<close> are the results that arrived.\<close>

inductive epoch_run :: "Hasher \<Rightarrow> u64 \<Rightarrow> HostAdvanceResult list \<Rightarrow> Epoch \<Rightarrow> bool" for K since where
  opened: "epoch_new K since = Ok e \<Longrightarrow> epoch_run K since [] e"
| announced: "\<lbrakk>epoch_run K since rs e; try_add_pending_input i e = (Ok (), e')\<rbrakk> \<Longrightarrow> epoch_run K since rs e'"
| arrived: "\<lbrakk>epoch_run K since rs e; pending_inputs e \<noteq> 0; add_processed_input K r e = (Ok (), e')\<rbrakk> \<Longrightarrow>
    epoch_run K since (rs @ [r]) e'"

lemma add_processed_input_few:
  assumes "epoch_ok K e" and "pending_inputs e \<noteq> 0" and "add_processed_input K r e = (Ok (), e')"
  shows "few_outputs (har_status r)"
  using add_processed_input_too_many [of r K e] assms by (metis Pair_inject outcome.distinct(1) unat_gt_0)

lemma epoch_run_ok:
  assumes "epoch_run K since rs e"
  shows "epoch_ok K e \<and> list_all2 same_outputs rs (processed_inputs e) \<and> ep_state e = EpochActive \<and>
    processed_input_count_since_genesis e = since"
  using assms
proof induction
  case (opened e)
  then show ?case
    using empty_epoch_ok by (auto simp: epoch_new_eq empty_epoch_def)
next
  case (announced rs e i e')
  then show ?case
    using try_add_pending_input_ok [of K e i e'] by auto
next
  case (arrived rs e r e')
  then have few: "few_outputs (har_status r)"
    using add_processed_input_few by blast
  have pos: "0 < unat (pending_inputs e)"
    using arrived.hyps(2) by (simp add: unat_gt_0)
  obtain e1 r' where "add_processed_input K r e = (Ok (), e1)" "epoch_ok K e1"
    "processed_inputs e1 = processed_inputs e @ [r']" "same_outputs r r'" "ep_state e1 = ep_state e"
    "processed_input_count_since_genesis e1 = processed_input_count_since_genesis e"
    using add_processed_input_ok [OF _ pos few] arrived.IH by metis
  then show ?case
    using arrived.IH arrived.hyps(3) by (auto intro: list_all2_appendI)
qed

lemma outputs_from_cong: "list_all2 same_outputs rs rs' \<Longrightarrow> outputs_from i rs' = outputs_from i rs"
  by (induction rs rs' arbitrary: i rule: list_all2_induct) (auto simp: outputs_from_def same_outputs_def)

lemma epoch_run_length: "epoch_run K since rs e \<Longrightarrow> length (processed_inputs e) = length rs"
  using epoch_run_ok [of K since rs e] by (auto dest: list_all2_lengthD)

text \<open>C4: finishing an epoch whose inputs have all been processed succeeds, and hands out one
  proof for each voucher and each notice of the accepted inputs, in their order.  Each proof
  validates: the words of the hash of the output lead to the root of the outputs of the input,
  which leads to the root of the epoch that the response carries.\<close>

theorem finished_epoch_proofs_validate:
  assumes "epoch_run K since rs e" and "pending_inputs e = 0" and "n = of_nat (length rs)"
  shows "\<exists>v_root n_root proofs. try_finish encode_int n idx e =
      (Ok \<lparr> fr_machine_hash = Some (hash_to_grpc (replicate HASH_SIZE 0)),
            fr_vouchers_epoch_root_hash = Some (hash_to_grpc v_root),
            fr_notices_epoch_root_hash = Some (hash_to_grpc n_root), fr_proofs = proofs \<rparr>,
       e\<lparr>ep_state := EpochFinished\<rparr>) \<and>
    list_all2 (proof_of K v_root n_root since) (outputs_from 0 rs) proofs"
proof -
  have ok: "epoch_ok K e" "ep_state e = EpochActive" "processed_input_count_since_genesis e = since"
    and outs: "outputs_from 0 (processed_inputs e) = outputs_from 0 rs"
    using epoch_run_ok [OF assms(1)] outputs_from_cong by blast+
  then show ?thesis
    using try_finish_ok [OF ok(1,2) assms(2), of n encode_int idx] assms(3) epoch_run_length [OF assms(1)] by simp
qed

definition sample_result :: HostAdvanceResult where
  "sample_result = advance_accepted [sample_voucher] [] []"

lemma sample_epoch:
  obtains e where "epoch_run (\<lambda>d. d) 7 [sample_result] e" and "pending_inputs e = 0"
proof -
  let ?K = "\<lambda>d. d" and ?e = "empty_epoch (\<lambda>d. d) 7"
  have add: "try_add_pending_input 7 ?e = (Ok (), ?e\<lparr>pending_inputs := 1\<rparr>)"
    by (simp add: try_add_pending_input_def check_active_def check_current_input_index_def check_input_limit_def
        empty_epoch_def get_current_input_index_def get_num_processed_inputs_since_genesis_def
        get_num_processed_inputs_within_epoch_def epoch_sizes)
  have run: "epoch_run ?K 7 [] (?e\<lparr>pending_inputs := 1\<rparr>)"
    by (rule epoch_run.announced [OF epoch_run.opened [OF epoch_new_eq] add])
  have few: "few_outputs (har_status sample_result)"
    by (simp add: sample_result_def advance_accepted_def advance_result_new_def)
  have ok: "epoch_ok ?K (?e\<lparr>pending_inputs := 1\<rparr>)"
    using epoch_run_ok [OF run] by blast
  obtain e where e: "add_processed_input ?K sample_result (?e\<lparr>pending_inputs := 1\<rparr>) = (Ok (), e)"
    "unat (pending_inputs e) = 1 - 1"
    using add_processed_input_ok [OF ok _ few] by auto
  then have "epoch_run ?K 7 ([] @ [sample_result]) e"
    using run by (intro epoch_run.arrived) auto
  then show thesis
    using that e(2) by (simp add: unat_eq_zero)
qed

theorem finished_epoch_proofs_validate_witness:
  "\<exists>e resp p v_root. epoch_run (\<lambda>d. d) 7 [sample_result] e \<and>
     try_finish (\<lambda>_. []) 1 3 e = (Ok resp, e\<lparr>ep_state := EpochFinished\<rparr>) \<and> fr_proofs resp = [p] \<and>
     gp_input_index p = 7 \<and> gp_output_enum p = EnumVoucher \<and>
     fr_vouchers_epoch_root_hash resp = Some (hash_to_grpc v_root)"
proof -
  obtain e where e: "epoch_run (\<lambda>d. d) 7 [sample_result] e" "pending_inputs e = 0"
    by (rule sample_epoch)
  have outs: "outputs_from 0 [sample_result] = [(0, EnumVoucher, 0, hv_keccak sample_voucher)]"
    by (simp add: outputs_from_def sample_result_def advance_accepted_def advance_result_new_def)
  obtain v_root n_root proofs where fin: "try_finish (\<lambda>_. []) 1 3 e =
      (Ok \<lparr> fr_machine_hash = Some (hash_to_grpc (replicate HASH_SIZE 0)),
            fr_vouchers_epoch_root_hash = Some (hash_to_grpc v_root),
            fr_notices_epoch_root_hash = Some (hash_to_grpc n_root), fr_proofs = proofs \<rparr>,
       e\<lparr>ep_state := EpochFinished\<rparr>)" (is "_ = (Ok ?resp, _)")
    and proofs: "list_all2 (proof_of (\<lambda>d. d) v_root n_root 7) (outputs_from 0 [sample_result]) proofs"
    using finished_epoch_proofs_validate [OF e, of 1 "\<lambda>_. []" 3] by auto
  from proofs obtain p where "proofs = [p]" "gp_input_index p = 7" "gp_output_enum p = EnumVoucher"
    by (auto simp: outs list_all2_Cons1)
  then show ?thesis
    using e(1) fin by (intro exI [of _ e] exI [of _ ?resp] exI [of _ p] exI [of _ v_root]) simp
qed

text \<open>C33: the number of inputs of an epoch stays below the number of leaves of its trees: an
  input is accepted as long as the announced ones, with it, are fewer than 2 ^ 32, so the last
  leaf is never used; and a result is refused only when it has more than 2 ^ 16 vouchers or
  notices.\<close>

theorem epoch_capacity:
  assumes "epoch_run K since rs e"
  shows "unat (pending_inputs e) + length rs < MAX_INPUTS_IN_EPOCH \<and>
    try_add_pending_input (get_current_input_index e) e =
      (if unat (pending_inputs e) + length rs + 1 < MAX_INPUTS_IN_EPOCH
       then (Ok (), e\<lparr>pending_inputs := pending_inputs e + 1\<rparr>)
       else (Err (invalid_argument ''reached max number of inputs per epoch''), e)) \<and>
    (pending_inputs e \<noteq> 0 \<longrightarrow>
      (fst (add_processed_input K r e) = Ok () \<longleftrightarrow> few_outputs (har_status r)))"
proof -
  have ok: "epoch_ok K e" "ep_state e = EpochActive"
    using epoch_run_ok [OF assms] by blast+
  have "MAX_INPUTS_IN_EPOCH = 2 ^ 32"
    by (simp add: epoch_sizes)
  moreover have "unat (pending_inputs e) + length rs < 2 ^ 32"
    using ok(1) epoch_run_length [OF assms] by (simp add: epoch_ok_def)
  moreover have "try_add_pending_input (get_current_input_index e) e =
      (if unat (pending_inputs e) + length rs + 1 < 2 ^ 32
       then (Ok (), e\<lparr>pending_inputs := pending_inputs e + 1\<rparr>)
       else (Err (invalid_argument ''reached max number of inputs per epoch''), e))"
    using epoch_run_length [OF assms] ok(2)
    by (simp add: try_add_pending_input_def check_active_def check_current_input_index_def
        check_input_limit_eq [OF ok(1)] ensure_def)
  moreover have "fst (add_processed_input K r e) = Ok () \<longleftrightarrow> few_outputs (har_status r)" if "pending_inputs e \<noteq> 0"
  proof -
    have "0 < unat (pending_inputs e)"
      using that by (simp add: unat_gt_0)
    then show ?thesis
      using add_processed_input_few [OF ok(1) that, of r] add_processed_input_ok [OF ok(1), of r] prod.collapse
      by (metis fst_conv)
  qed
  ultimately show ?thesis
    by simp
qed

theorem epoch_capacity_witness:
  "\<exists>e. epoch_run (\<lambda>d. d) 7 [sample_result] e \<and> unat (pending_inputs e) + 1 < MAX_INPUTS_IN_EPOCH \<and>
     try_add_pending_input 8 e = (Ok (), e\<lparr>pending_inputs := 1\<rparr>)"
proof -
  obtain e where e: "epoch_run (\<lambda>d. d) 7 [sample_result] e" "pending_inputs e = 0"
    by (rule sample_epoch)
  have "get_current_input_index e = 8"
    using epoch_run_ok [OF e(1)] epoch_run_length [OF e(1)] e(2)
    by (simp add: get_current_input_index_def get_num_processed_inputs_since_genesis_def
        get_num_processed_inputs_within_epoch_def)
  then show ?thesis
    using epoch_capacity [OF e(1), of sample_result] e by (intro exI [of _ e]) (simp add: epoch_sizes)
qed

text \<open>The status of an epoch lists the results that arrived, in their order, with the index
  of each input since genesis, its outputs and its reports as the DApp emitted them, and the
  number of inputs still pending.\<close>

theorem epoch_status_complete:
  assumes "epoch_run K since rs e"
  shows "es_processed_inputs (epoch_get_status sid idx taint e) =
      map (\<lambda>i. \<lparr> pi_input_index = of_nat i + since, pi_status = completion_status_to_grpc (har_status (rs ! i)),
                 pi_processed_input_one_of = completion_status_one_of (har_status (rs ! i)),
                 pi_reports = map report_to_grpc (har_reports (rs ! i)) \<rparr>) [0..<length rs] \<and>
    es_pending_input_count (epoch_get_status sid idx taint e) = pending_inputs e"
proof -
  have run: "list_all2 same_outputs rs (processed_inputs e)" "processed_input_count_since_genesis e = since"
    using epoch_run_ok [OF assms] by blast+
  have "es_processed_inputs (epoch_get_status sid idx taint e) =
      map (\<lambda>i. processed_input_status e i (processed_inputs e ! i)) [0..<length rs]"
    by (rule nth_equalityI)
      (simp_all add: epoch_get_status_def epoch_run_length [OF assms] nth_enumerate_eq)
  also have "\<dots> = map (\<lambda>i. \<lparr> pi_input_index = of_nat i + since,
      pi_status = completion_status_to_grpc (har_status (rs ! i)),
      pi_processed_input_one_of = completion_status_one_of (har_status (rs ! i)),
      pi_reports = map report_to_grpc (har_reports (rs ! i)) \<rparr>) [0..<length rs]"
    using run by (auto simp: processed_input_status_def same_outputs_def list_all2_conv_all_nth)
  finally show ?thesis
    by (simp add: epoch_get_status_def)
qed

theorem epoch_status_complete_witness:
  "\<exists>e. epoch_run (\<lambda>d. d) 7 [sample_result] e \<and>
     map pi_input_index (es_processed_inputs (epoch_get_status ''s'' 0 None e)) = [7]"
proof -
  obtain e where e: "epoch_run (\<lambda>d. d) 7 [sample_result] e" "pending_inputs e = 0"
    by (rule sample_epoch)
  then show ?thesis
    using epoch_status_complete [OF e(1), of "''s''" 0 None] by auto
qed

end
