(* ===== verification/Host_Session.thy ===== *)
theory Host_Session
  imports Host_Epoch "HOL-Library.AList"
begin

text \<open>
  The sessions and the handlers of the gRPC server of the host runner
  (\<open>grpc/server_manager.rs\<close>), on top of its epochs and of the controller.

  The shared objects behind an \<open>Arc\<close> (the epochs, the taint of a session) live in a store and are
  referred to by their index in it.  The spawned task that waits for the result of an advance is
  an entry of \<open>sv_tasks\<close>.  A handler runs without interruption, except the inspect handler, which
  keeps the session locked while it waits for the DApp and is therefore modelled in two parts.
  A handler that sends a request to the controller is \<open>None\<close> while the channel is full.
\<close>

section \<open>Sessions\<close>

record Session =
  sess_active_epoch_index :: u64
  sess_epochs :: "(u64 \<times> nat) list"
  sess_tainted :: nat
  sess_locked :: bool

record AdvanceTask =
  task_rx :: nat
  task_epoch :: nat
  task_tainted :: nat

record ServerState =
  sv_entry :: "(string \<times> Session) option"
  sv_epochs :: "Epoch list"
  sv_taints :: "Status option list"
  sv_tasks :: "AdvanceTask list"
  sv_inspecting :: "nat option"
  sv_controller :: HostService

definition server_new :: ServerState where
  "server_new = \<lparr> sv_entry = None, sv_epochs = [], sv_taints = [], sv_tasks = [], sv_inspecting = None,
     sv_controller = controller_new \<rparr>"

definition session_new ::
  "Hasher \<Rightarrow> u64 \<Rightarrow> u64 \<Rightarrow> ServerState \<Rightarrow> (ServerState, MerkleError, Session) action" where
  "session_new K active_epoch_index processed_input_count st =
     and_then (epoch_new K processed_input_count, st) (\<lambda>e st.
       (Ok \<lparr> sess_active_epoch_index = active_epoch_index,
             sess_epochs = [(active_epoch_index, length (sv_epochs st))],
             sess_tainted = length (sv_taints st), sess_locked = False \<rparr>,
        st\<lparr>sv_epochs := sv_epochs st @ [e], sv_taints := sv_taints st @ [None]\<rparr>))"

definition try_get_epoch :: "u64 \<Rightarrow> Session \<Rightarrow> (Status, nat) outcome" where
  "try_get_epoch idx s = ok_or (invalid_argument ''unknown epoch index'') (map_of (sess_epochs s) idx)"

definition check_tainted :: "ServerState \<Rightarrow> Session \<Rightarrow> (Status, unit) outcome" where
  "check_tainted st s = ensure (sv_taints st ! sess_tainted s = None) (data_loss ''session is tainted'')"

definition check_epoch_index_overflow :: "Session \<Rightarrow> (Status, unit) outcome" where
  "check_epoch_index_overflow s =
     ensure (sess_active_epoch_index s \<noteq> - 1) (out_of_range ''active epoch index will overflow'')"

definition check_active_epoch :: "u64 \<Rightarrow> Session \<Rightarrow> (Status, unit) outcome" where
  "check_active_epoch active_epoch_index s =
     ensure (sess_active_epoch_index s = active_epoch_index)
       (invalid_argument (''incorrect active epoch index (expected '' @ show_u64 (sess_active_epoch_index s) @
          '', got '' @ show_u64 active_epoch_index @ '')''))"

definition session_check_endable :: "ServerState \<Rightarrow> Session \<Rightarrow> (Status, unit) outcome" where
  "session_check_endable st s =
     (if sv_taints st ! sess_tainted s = None
      then bind_outcome (try_get_epoch (sess_active_epoch_index s) s) (\<lambda>ref. epoch_check_endable (sv_epochs st ! ref))
      else Ok ())"

definition get_taint_status :: "ServerState \<Rightarrow> Session \<Rightarrow> TaintStatus option" where
  "get_taint_status st s =
     map_option (\<lambda>status. \<lparr> error_code = status_code status, error_message = status_message status \<rparr>)
       (sv_taints st ! sess_tainted s)"

definition session_get_status :: "string \<Rightarrow> ServerState \<Rightarrow> Session \<Rightarrow> GetSessionStatusResponse" where
  "session_get_status session_id st s =
     \<lparr> sst_session_id = session_id, sst_active_epoch_index = sess_active_epoch_index s,
       sst_epoch_index = sort (map fst (sess_epochs s)), sst_taint_status = get_taint_status st s \<rparr>"

definition try_get_epoch_status ::
  "string \<Rightarrow> u64 \<Rightarrow> ServerState \<Rightarrow> Session \<Rightarrow> (Status, GetEpochStatusResponse) outcome" where
  "try_get_epoch_status session_id idx st s =
     bind_outcome (try_get_epoch idx s) (\<lambda>ref.
       Ok (epoch_get_status session_id idx (get_taint_status st s) (sv_epochs st ! ref)))"

text \<open>Storing what an operation on the epoch behind a reference left.\<close>

definition on_epoch :: "nat \<Rightarrow> (Epoch \<Rightarrow> (Epoch, Status, 'a) action) \<Rightarrow> ServerState \<Rightarrow> (ServerState, Status, 'a) action" where
  "on_epoch ref f st = (case f (sv_epochs st ! ref) of (r, e) \<Rightarrow> (r, st\<lparr>sv_epochs := (sv_epochs st)[ref := e]\<rparr>))"

definition put_session :: "Session \<Rightarrow> ServerState \<Rightarrow> ServerState" where
  "put_session s st = st\<lparr>sv_entry := map_option (\<lambda>(i, _). (i, s)) (sv_entry st)\<rparr>"

definition try_advance ::
  "u64 \<Rightarrow> u64 \<Rightarrow> AdvanceStateRequest \<Rightarrow> Session \<Rightarrow> ServerState \<Rightarrow> (ServerState, Status, unit) action option" where
  "try_advance active_epoch_index current_input_index advance_request s st =
     (case bind_outcome (check_epoch_index_overflow s) (\<lambda>_.
           bind_outcome (check_tainted st s) (\<lambda>_.
           bind_outcome (check_active_epoch active_epoch_index s) (\<lambda>_.
             try_get_epoch active_epoch_index s))) of
        Err e \<Rightarrow> Some (Err e, st)
      | Panic \<Rightarrow> Some (Panic, st)
      | Ok ref \<Rightarrow>
          (case on_epoch ref (try_add_pending_input current_input_index) st of
             (Ok _, st') \<Rightarrow>
               (case controller_advance advance_request (sv_controller st') of
                  None \<Rightarrow> None
                | Some (rx, svc) \<Rightarrow>
                    Some (Ok (), st'\<lparr>sv_controller := svc,
                      sv_tasks := sv_tasks st' @ [\<lparr> task_rx = rx, task_epoch = ref, task_tainted = sess_tainted s \<rparr>]\<rparr>))
           | (Err e, st') \<Rightarrow> Some (Err e, st')
           | (Panic, st') \<Rightarrow> Some (Panic, st')))"

text \<open>The spawned task of \<open>try_advance\<close> when its channel has been answered or dropped.\<close>

definition advance_task :: "Hasher \<Rightarrow> AdvanceTask \<Rightarrow> ServerState \<Rightarrow> ServerState option" where
  "advance_task K t st =
     (let st' = st\<lparr>sv_tasks := remove1 t (sv_tasks st)\<rparr> in
      case map_of (svc_sent (sv_controller st)) (task_rx t) of
        Some (RAdvance result) \<Rightarrow>
          (case on_epoch (task_epoch t) (add_processed_input K result) st' of
             (Ok _, st'') \<Rightarrow> Some st''
           | (Err e, st'') \<Rightarrow> Some (st''\<lparr>sv_taints := (sv_taints st'')[task_tainted t := Some e]\<rparr>)
           | (Panic, st'') \<Rightarrow> Some st'')
      | _ \<Rightarrow> if task_rx t \<in> set (svc_dropped (sv_controller st)) then Some st' else None)"

definition try_finish_epoch ::
  "Hasher \<Rightarrow> (U256 \<Rightarrow> byte list) \<Rightarrow> u64 \<Rightarrow> u64 \<Rightarrow> Session \<Rightarrow> ServerState \<Rightarrow>
   (ServerState, Status, FinishEpochResponse) action" where
  "try_finish_epoch K encode_int active_epoch_index processed_input_count_within_epoch s st =
     and_then (bind_outcome (check_epoch_index_overflow s) (\<lambda>_.
               bind_outcome (check_tainted st s) (\<lambda>_.
               bind_outcome (check_active_epoch active_epoch_index s) (\<lambda>_.
                 try_get_epoch active_epoch_index s))), st) (\<lambda>ref st.
     and_then (on_epoch ref (try_finish encode_int processed_input_count_within_epoch active_epoch_index) st) (\<lambda>response st.
       let since = processed_input_count_since_genesis (sv_epochs st ! ref) in
     and_then (map_err status_from_merkle (epoch_new K (since + processed_input_count_within_epoch)), st) (\<lambda>e st.
       let new_index = sess_active_epoch_index s + 1;
           s = s\<lparr>sess_active_epoch_index := new_index,
                 sess_epochs := AList.update new_index (length (sv_epochs st)) (sess_epochs s)\<rparr>
       in (Ok response, put_session s (st\<lparr>sv_epochs := sv_epochs st @ [e]\<rparr>)))))"

definition try_delete_epoch :: "u64 \<Rightarrow> Session \<Rightarrow> ServerState \<Rightarrow> (ServerState, Status, unit) action" where
  "try_delete_epoch idx s st =
     and_then (bind_outcome (check_tainted st s) (\<lambda>_.
               bind_outcome (try_get_epoch idx s) (\<lambda>ref.
                 check_finished (sv_epochs st ! ref))), st) (\<lambda>_ st.
       (Ok (), put_session (s\<lparr>sess_epochs := AList.delete idx (sess_epochs s)\<rparr>) st))"

text \<open>\<open>try_inspect\<close> up to the wait for the DApp, with the session locked, and after it.\<close>

definition try_inspect_begin :: "byte list \<Rightarrow> Session \<Rightarrow> ServerState \<Rightarrow> (ServerState, Status, unit) action option" where
  "try_inspect_begin payload s st =
     (case check_tainted st s of
        Ok _ \<Rightarrow>
          (case controller_inspect \<lparr> isr_payload = payload \<rparr> (sv_controller st) of
             None \<Rightarrow> None
           | Some (rx, svc) \<Rightarrow>
               Some (Ok (), put_session (s\<lparr>sess_locked := True\<rparr>)
                 (st\<lparr>sv_controller := svc, sv_inspecting := Some rx\<rparr>)))
      | Err e \<Rightarrow> Some (Err e, st)
      | Panic \<Rightarrow> Some (Panic, st))"

definition inspect_response :: "string \<Rightarrow> InspectResult \<Rightarrow> Session \<Rightarrow> ServerState \<Rightarrow> (Status, InspectStateResponse) outcome" where
  "inspect_response session_id result s st =
     (let active_epoch_index = sess_active_epoch_index s in
      bind_outcome (try_get_epoch active_epoch_index s) (\<lambda>ref.
        Ok \<lparr> is_session_id = session_id, is_active_epoch_index = active_epoch_index,
             is_processed_input_count = get_num_processed_inputs_since_genesis (sv_epochs st ! ref),
             is_status = inspect_status_to_grpc (ir_status result),
             is_exception_data = (case ir_status result of
                 InspectException e \<Rightarrow> Some (re_payload e) | _ \<Rightarrow> None),
             is_reports = map report_to_grpc (ir_reports result) \<rparr>))"

definition try_inspect_end :: "ServerState \<Rightarrow> (ServerState, Status, InspectStateResponse) action option" where
  "try_inspect_end st =
     (case (sv_entry st, sv_inspecting st) of
        (Some (session_id, s), Some rx) \<Rightarrow>
          (let st' = put_session (s\<lparr>sess_locked := False\<rparr>) (st\<lparr>sv_inspecting := None\<rparr>) in
           case map_of (svc_sent (sv_controller st)) rx of
             Some (RInspect result) \<Rightarrow> Some (inspect_response session_id result s st, st')
           | _ \<Rightarrow> if rx \<in> set (svc_dropped (sv_controller st))
                  then Some (Err (internal ''unexpected error during inspect''), st') else None)
      | _ \<Rightarrow> None)"

section \<open>The session manager and the handlers\<close>

text \<open>\<open>try_get_session\<close> and \<open>try_lock\<close> on what it returns.\<close>

definition get_locked_session :: "string \<Rightarrow> ServerState \<Rightarrow> (Status, Session) outcome" where
  "get_locked_session request_id st =
     (case sv_entry st of
        None \<Rightarrow> Err (invalid_argument ''session id not found'')
      | Some (i, s) \<Rightarrow>
          if i = request_id
          then (if sess_locked s then Err (aborted ''concurrent call in session'') else Ok s)
          else Err (invalid_argument ''session id not found''))"

definition try_set_session ::
  "Hasher \<Rightarrow> string \<Rightarrow> u64 \<Rightarrow> u64 \<Rightarrow> ServerState \<Rightarrow> (ServerState, Status, unit) action" where
  "try_set_session K session_id active_epoch_index processed_input_count st =
     and_then (ensure (session_id \<noteq> []) (invalid_argument ''session id is empty''), st) (\<lambda>_ st.
       case sv_entry st of
         Some _ \<Rightarrow> (Err (already_exists ''session id is taken''), st)
       | None \<Rightarrow>
           (case session_new K active_epoch_index processed_input_count st of
              (Ok s, st) \<Rightarrow> (Ok (), st\<lparr>sv_entry := Some (session_id, s)\<rparr>)
            | (Err e, st) \<Rightarrow> (Err (status_from_merkle e), st)
            | (Panic, st) \<Rightarrow> (Panic, st)))"

definition start_session :: "Hasher \<Rightarrow> StartSessionRequest \<Rightarrow> ServerState \<Rightarrow> (ServerState, Status, unit) action" where
  "start_session K r = try_set_session K (ss_session_id r) (ss_active_epoch_index r) (ss_processed_input_count r)"

definition try_del_session :: "string \<Rightarrow> ServerState \<Rightarrow> (ServerState, Status, unit) action" where
  "try_del_session request_id st =
     and_then (bind_outcome (get_locked_session request_id st) (session_check_endable st), st) (\<lambda>_ st.
       (Ok (), st\<lparr>sv_entry := None\<rparr>))"

definition end_session :: "string \<Rightarrow> ServerState \<Rightarrow> (ServerState, Status, unit) action" where
  "end_session request_id st = try_del_session request_id st"

definition get_sessions :: "ServerState \<Rightarrow> string list" where
  "get_sessions st = (case sv_entry st of Some (i, _) \<Rightarrow> [i] | None \<Rightarrow> [])"

text \<open>The request that \<open>advance_state\<close> builds, or the error that it returns.\<close>

definition advance_request_from :: "GrpcAdvanceStateRequest \<Rightarrow> (Status, AdvanceStateRequest) outcome" where
  "advance_request_from r =
     bind_outcome (ok_or (invalid_argument ''missing metadata from request'') (ga_input_metadata r)) (\<lambda>m.
     bind_outcome (ok_or (invalid_argument ''missing msg_sender from metadata'') (gm_msg_sender m)) (\<lambda>a.
     bind_outcome (ensure (length (ga_data a) = ADDRESS_SIZE) (invalid_argument ''invalid address'')) (\<lambda>_.
     bind_outcome (ensure (gm_epoch_index m = 0)
        (invalid_argument ''metadata epoch index is deprecated and should always be 0'')) (\<lambda>_.
     bind_outcome (ensure (gm_input_index m = ga_current_input_index r)
        (invalid_argument ''metadata input index mismatch'')) (\<lambda>_.
       Ok \<lparr> asr_metadata = \<lparr> am_msg_sender = ga_data a, am_epoch_index = gm_epoch_index m,
              am_input_index = gm_input_index m, am_block_number = gm_block_number m,
              am_timestamp = gm_timestamp m \<rparr>,
            asr_payload = ga_input_payload r \<rparr>)))))"

definition advance_state :: "GrpcAdvanceStateRequest \<Rightarrow> ServerState \<Rightarrow> (ServerState, Status, unit) action option" where
  "advance_state r st =
     (case bind_outcome (advance_request_from r) (\<lambda>request.
           bind_outcome (get_locked_session (ga_session_id r) st) (\<lambda>s. Ok (request, s))) of
        Ok (request, s) \<Rightarrow> try_advance (ga_active_epoch_index r) (ga_current_input_index r) request s st
      | Err e \<Rightarrow> Some (Err e, st)
      | Panic \<Rightarrow> Some (Panic, st))"

definition finish_epoch_handler ::
  "Hasher \<Rightarrow> (U256 \<Rightarrow> byte list) \<Rightarrow> FinishEpochRequest \<Rightarrow> ServerState \<Rightarrow>
   (ServerState, Status, FinishEpochResponse) action" where
  "finish_epoch_handler K encode_int r st =
     and_then (get_locked_session (fe_session_id r) st, st)
       (try_finish_epoch K encode_int (fe_active_epoch_index r) (fe_processed_input_count_within_epoch r))"

definition inspect_state_begin :: "string \<Rightarrow> byte list \<Rightarrow> ServerState \<Rightarrow> (ServerState, Status, unit) action option" where
  "inspect_state_begin session_id query_payload st =
     (case get_locked_session session_id st of
        Ok s \<Rightarrow> try_inspect_begin query_payload s st
      | Err e \<Rightarrow> Some (Err e, st)
      | Panic \<Rightarrow> Some (Panic, st))"

definition get_status_handler :: "ServerState \<Rightarrow> string list" where
  "get_status_handler st = get_sessions st"

definition get_session_status_handler :: "string \<Rightarrow> ServerState \<Rightarrow> (Status, GetSessionStatusResponse) outcome" where
  "get_session_status_handler session_id st =
     bind_outcome (get_locked_session session_id st) (\<lambda>s. Ok (session_get_status session_id st s))"

definition get_epoch_status_handler :: "string \<Rightarrow> u64 \<Rightarrow> ServerState \<Rightarrow> (Status, GetEpochStatusResponse) outcome" where
  "get_epoch_status_handler session_id idx st =
     bind_outcome (get_locked_session session_id st) (try_get_epoch_status session_id idx st)"

definition delete_epoch_handler :: "string \<Rightarrow> u64 \<Rightarrow> ServerState \<Rightarrow> (ServerState, Status, unit) action" where
  "delete_epoch_handler session_id idx st =
     and_then (get_locked_session session_id st, st) (try_delete_epoch idx)"

section \<open>The invariant of the server\<close>

definition epoch_tasks :: "ServerState \<Rightarrow> nat \<Rightarrow> AdvanceTask list" where
  "epoch_tasks st ref = filter (\<lambda>t. task_epoch t = ref) (sv_tasks st)"

text \<open>An epoch is sound, and each task that will bring it a result is counted as pending.\<close>

definition ref_ok :: "Hasher \<Rightarrow> ServerState \<Rightarrow> nat \<Rightarrow> bool" where
  "ref_ok K st ref \<longleftrightarrow> epoch_ok K (sv_epochs st ! ref) \<and>
     length (epoch_tasks st ref) \<le> unat (pending_inputs (sv_epochs st ! ref))"

text \<open>The references of a session are its own.\<close>

definition session_refs :: "ServerState \<Rightarrow> Session \<Rightarrow> bool" where
  "session_refs st s \<longleftrightarrow>
     distinct (map fst (sess_epochs s)) \<and> distinct (map snd (sess_epochs s)) \<and>
     (\<forall>ref \<in> snd ` set (sess_epochs s). ref < length (sv_epochs st)) \<and>
     sess_tainted s < length (sv_taints st) \<and>
     (\<forall>t \<in> set (sv_tasks st). task_epoch t \<in> snd ` set (sess_epochs s) \<longrightarrow> task_tainted t = sess_tainted s)"

text \<open>Without a taint, the epochs are sound, the active one is the one that is not finished, and
  it has the greatest index.\<close>

definition session_sound :: "Hasher \<Rightarrow> ServerState \<Rightarrow> Session \<Rightarrow> bool" where
  "session_sound K st s \<longleftrightarrow>
     sess_active_epoch_index s \<in> fst ` set (sess_epochs s) \<and>
     (\<forall>(idx, ref) \<in> set (sess_epochs s). ref_ok K st ref \<and> idx \<le> sess_active_epoch_index s \<and>
        (ep_state (sv_epochs st ! ref) = EpochActive \<longleftrightarrow> idx = sess_active_epoch_index s))"

definition session_ok :: "Hasher \<Rightarrow> ServerState \<Rightarrow> Session \<Rightarrow> bool" where
  "session_ok K st s \<longleftrightarrow> session_refs st s \<and>
     (sv_taints st ! sess_tainted s = None \<longrightarrow> session_sound K st s)"

definition server_ok :: "Hasher \<Rightarrow> ServerState \<Rightarrow> bool" where
  "server_ok K st \<longleftrightarrow>
     (\<forall>t \<in> set (sv_tasks st). task_epoch t < length (sv_epochs st) \<and> task_tainted t < length (sv_taints st)) \<and>
     (\<forall>i s. sv_entry st = Some (i, s) \<longrightarrow> session_ok K st s)"

lemmas server_defs = server_ok_def session_ok_def session_refs_def session_sound_def ref_ok_def epoch_tasks_def

lemma server_ok_new: "server_ok K server_new"
  by (simp add: server_ok_def server_new_def)

lemma server_ok_cong:
  assumes "server_ok K st" and "sv_entry st' = sv_entry st" and "sv_epochs st' = sv_epochs st"
    and "sv_taints st' = sv_taints st" and "sv_tasks st' = sv_tasks st"
  shows "server_ok K st'"
  using assms by (simp add: server_defs)

lemma get_locked_session_entry: "get_locked_session i st = Ok s \<Longrightarrow> sv_entry st = Some (i, s) \<and> \<not> sess_locked s"
  by (auto simp: get_locked_session_def split: option.splits if_splits)

lemma server_ok_session: "\<lbrakk>server_ok K st; get_locked_session i st = Ok s\<rbrakk> \<Longrightarrow> session_ok K st s"
  by (auto simp: server_ok_def dest: get_locked_session_entry)

lemma session_sound_epoch:
  assumes "session_refs st s" and "session_sound K st s" and "map_of (sess_epochs s) idx = Some ref"
  shows "ref < length (sv_epochs st) \<and> ref_ok K st ref \<and> idx \<le> sess_active_epoch_index s \<and>
    (ep_state (sv_epochs st ! ref) = EpochActive \<longleftrightarrow> idx = sess_active_epoch_index s)"
proof -
  have "(idx, ref) \<in> set (sess_epochs s)"
    using assms(3) by (rule map_of_SomeD)
  moreover from this have "ref \<in> snd ` set (sess_epochs s)"
    by (metis image_eqI snd_conv)
  ultimately show ?thesis
    using assms(1,2) by (auto simp: session_refs_def session_sound_def)
qed

lemma start_session_ok:
  assumes "server_ok K st" and "start_session K r st = (out, st')"
  shows "server_ok K st'"
proof (cases "ss_session_id r = [] \<or> sv_entry st \<noteq> None")
  case True
  then show ?thesis
    using assms by (cases "ss_session_id r = []") (auto simp: start_session_def try_set_session_def)
next
  case False
  then have "ss_session_id r \<noteq> []" "sv_entry st = None"
    by blast+
  then have st': "st' = st\<lparr>sv_epochs := sv_epochs st @ [empty_epoch K (ss_processed_input_count r)],
      sv_taints := sv_taints st @ [None],
      sv_entry := Some (ss_session_id r, \<lparr> sess_active_epoch_index = ss_active_epoch_index r,
        sess_epochs = [(ss_active_epoch_index r, length (sv_epochs st))],
        sess_tainted = length (sv_taints st), sess_locked = False \<rparr>)\<rparr>"
    using assms(2) by (simp add: start_session_def try_set_session_def session_new_def epoch_new_eq)
  have tasks: "\<forall>t \<in> set (sv_tasks st). task_epoch t < length (sv_epochs st) \<and> task_tainted t < length (sv_taints st)"
    using assms(1) by (simp add: server_ok_def)
  then have "filter (\<lambda>t. task_epoch t = length (sv_epochs st)) (sv_tasks st) = []"
    by (auto simp: filter_empty_conv)
  then show ?thesis
    using tasks empty_epoch_ok [of K "ss_processed_input_count r"]
    by (auto simp: st' server_defs empty_epoch_def)
qed

lemma end_session_ok: "\<lbrakk>server_ok K st; end_session i st = (out, st')\<rbrakk> \<Longrightarrow> server_ok K st'"
  by (auto simp: end_session_def try_del_session_def and_then_pure server_ok_def split: outcome.splits)

lemma session_ok_update:
  assumes "session_ok K st s" and "sv_epochs st' = (sv_epochs st)[ref := e']" and "sv_taints st' = sv_taints st"
    and "ref < length (sv_epochs st)"
    and "\<And>r. r \<noteq> ref \<Longrightarrow> epoch_tasks st' r = epoch_tasks st r"
    and "\<lbrakk>sv_taints st ! sess_tainted s = None; ref \<in> snd ` set (sess_epochs s)\<rbrakk> \<Longrightarrow>
      epoch_ok K e' \<and> ep_state e' = ep_state (sv_epochs st ! ref) \<and> length (epoch_tasks st' ref) \<le> unat (pending_inputs e')"
    and "\<forall>t \<in> set (sv_tasks st'). task_epoch t \<in> snd ` set (sess_epochs s) \<longrightarrow> task_tainted t = sess_tainted s"
  shows "session_ok K st' s"
proof -
  have "session_sound K st' s" if none: "sv_taints st ! sess_tainted s = None"
  proof -
    have "session_sound K st s"
      using assms(1) none by (simp add: session_ok_def)
    moreover have "ref_ok K st' r \<and> ep_state (sv_epochs st' ! r) = ep_state (sv_epochs st ! r)"
      if "ref_ok K st r" "(idx, r) \<in> set (sess_epochs s)" for idx r
    proof (cases "r = ref")
      case True
      then have "ref \<in> snd ` set (sess_epochs s)"
        using that(2) by (metis image_eqI snd_conv)
      then show ?thesis
        using assms(2,4) assms(6) [OF none] True by (simp add: ref_ok_def)
    next
      case False
      then show ?thesis
        using that(1) assms(2) assms(5) [OF False] by (simp add: ref_ok_def)
    qed
    ultimately show ?thesis
      by (auto simp: session_sound_def)
  qed
  then show ?thesis
    using assms(1,2,3,7) by (simp add: session_ok_def session_refs_def)
qed

lemma on_epoch_same:
  "\<lbrakk>ref < length (sv_epochs st); f (sv_epochs st ! ref) = (r, sv_epochs st ! ref)\<rbrakk> \<Longrightarrow> on_epoch ref f st = (r, st)"
  by (simp add: on_epoch_def list_update_id)

lemma try_add_pending_input_err: "try_add_pending_input i e = (r, e') \<Longrightarrow> r \<noteq> Ok () \<Longrightarrow> e' = e"
  by (auto simp: try_add_pending_input_def and_then_pure split: outcome.splits)

text \<open>What an accepted advance has checked and what it changes.\<close>

lemma try_advance_cases:
  assumes "try_advance idx i request s st = Some (out, st')" and "session_refs st s"
  obtains (Refused) "out \<noteq> Ok ()" and "st' = st"
    | (Sent) ref e' rx svc where "out = Ok ()" and "sv_taints st ! sess_tainted s = None"
      and "sess_active_epoch_index s = idx" and "map_of (sess_epochs s) idx = Some ref"
      and "try_add_pending_input i (sv_epochs st ! ref) = (Ok (), e')"
      and "controller_advance request (sv_controller st) = Some (rx, svc)"
      and "st' = st\<lparr>sv_epochs := (sv_epochs st)[ref := e'], sv_controller := svc,
        sv_tasks := sv_tasks st @ [\<lparr> task_rx = rx, task_epoch = ref, task_tainted = sess_tainted s \<rparr>]\<rparr>"
proof -
  let ?checks = "bind_outcome (check_epoch_index_overflow s) (\<lambda>_.
    bind_outcome (check_tainted st s) (\<lambda>_.
    bind_outcome (check_active_epoch idx s) (\<lambda>_. try_get_epoch idx s)))"
  show thesis
  proof (cases ?checks)
    case (Ok ref)
    then have checks: "sv_taints st ! sess_tainted s = None" "sess_active_epoch_index s = idx"
      and ref: "map_of (sess_epochs s) idx = Some ref"
      by (auto simp: bind_outcome_Ok_iff check_tainted_def check_active_epoch_def try_get_epoch_def elim: ok_or.elims)
    have less: "ref < length (sv_epochs st)"
      using assms(2) map_of_SomeD [OF ref] by (auto simp: session_refs_def)
    obtain r e' where add: "try_add_pending_input i (sv_epochs st ! ref) = (r, e')"
      by (rule prod.exhaust)
    show thesis
    proof (cases "r = Ok ()")
      case True
      then show thesis
        using assms(1) Ok add checks ref Sent
        by (auto simp: try_advance_def on_epoch_def split: option.splits)
    next
      case False
      then have "on_epoch ref (try_add_pending_input i) st = (r, st)"
        using less add try_add_pending_input_err [OF add] by (intro on_epoch_same) auto
      then show thesis
        using assms(1) Ok False Refused by (cases r) (auto simp: try_advance_def)
    qed
  next
    case (Err e)
    then show thesis
      using assms(1) Refused by (auto simp: try_advance_def)
  next
    case Panic
    then show thesis
      using assms(1) Refused by (auto simp: try_advance_def)
  qed
qed

lemma try_advance_ok:
  assumes "server_ok K st" and "sv_entry st = Some (sid, s)" and "try_advance idx i request s st = Some (out, st')"
  shows "server_ok K st'"
proof -
  have ok: "session_ok K st s" "session_refs st s"
    using assms(1,2) by (auto simp: server_ok_def session_ok_def)
  from assms(3) ok(2) show ?thesis
  proof (cases rule: try_advance_cases)
    case Refused
    then show ?thesis
      using assms(1) by simp
  next
    case (Sent ref e' rx svc)
    have sound: "session_sound K st s"
      using ok(1) Sent(2) by (simp add: session_ok_def)
    from session_sound_epoch [OF ok(2) sound Sent(4)] have ref: "ref < length (sv_epochs st)" "ref_ok K st ref"
      by blast+
    have e': "epoch_ok K e'" "ep_state e' = ep_state (sv_epochs st ! ref)"
      "unat (pending_inputs e') = unat (pending_inputs (sv_epochs st ! ref)) + 1"
      using try_add_pending_input_ok [OF _ Sent(5), of K] ref(2) by (auto simp: ref_ok_def)
    have "session_ok K st' s"
      by (rule session_ok_update [OF ok(1), where ref = ref and e' = e'])
        (use Sent(7) ref e' ok(2) in \<open>auto simp: epoch_tasks_def ref_ok_def session_refs_def\<close>)
    then show ?thesis
      using assms(1,2) Sent(7) ref(1) ok(2) by (auto simp: server_ok_def session_refs_def)
  qed
qed

lemma epoch_tasks_remove:
  assumes "t \<in> set (sv_tasks st)"
  shows "length (epoch_tasks (st\<lparr>sv_tasks := remove1 t (sv_tasks st)\<rparr>) (task_epoch t)) < length (epoch_tasks st (task_epoch t))"
    and "r \<noteq> task_epoch t \<Longrightarrow> epoch_tasks (st\<lparr>sv_tasks := remove1 t (sv_tasks st)\<rparr>) r = epoch_tasks st r"
proof -
  have "t \<in> set (epoch_tasks st (task_epoch t))"
    using assms by (simp add: epoch_tasks_def)
  then show "length (epoch_tasks (st\<lparr>sv_tasks := remove1 t (sv_tasks st)\<rparr>) (task_epoch t)) < length (epoch_tasks st (task_epoch t))"
    using length_pos_if_in_set [of t "epoch_tasks st (task_epoch t)"]
    by (simp add: epoch_tasks_def filter_remove1 length_remove1)
qed (auto simp: epoch_tasks_def filter_remove1 remove1_idem)

lemma add_processed_input_cases:
  assumes "ref_ok K st (task_epoch t)" and "t \<in> set (sv_tasks st)"
  obtains (Added) e' where "add_processed_input K result (sv_epochs st ! task_epoch t) = (Ok (), e')" and "epoch_ok K e'"
      and "ep_state e' = ep_state (sv_epochs st ! task_epoch t)"
      and "length (epoch_tasks (st\<lparr>sv_tasks := remove1 t (sv_tasks st)\<rparr>) (task_epoch t)) \<le> unat (pending_inputs e')"
    | (Failed) e' where "add_processed_input K result (sv_epochs st ! task_epoch t) = (Err (status_from_merkle TooManyLeaves), e')"
proof -
  let ?e = "sv_epochs st ! task_epoch t"
  have ok: "epoch_ok K ?e" and "length (epoch_tasks st (task_epoch t)) \<le> unat (pending_inputs ?e)"
    using assms(1) by (auto simp: ref_ok_def)
  moreover note epoch_tasks_remove(1) [OF assms(2)]
  ultimately have pos: "unat (pending_inputs ?e) > 0"
    and less: "length (epoch_tasks (st\<lparr>sv_tasks := remove1 t (sv_tasks st)\<rparr>) (task_epoch t)) \<le> unat (pending_inputs ?e) - 1"
    by simp_all
  show thesis
  proof (cases "few_outputs (har_status result)")
    case True
    from add_processed_input_ok [OF ok pos True] less show thesis
      using Added by metis
  next
    case False
    from add_processed_input_too_many [OF False ok pos] show thesis
      using Failed by metis
  qed
qed

lemma server_ok_remove_task:
  assumes "server_ok K st" and "t \<in> set (sv_tasks st)"
  shows "server_ok K (st\<lparr>sv_tasks := remove1 t (sv_tasks st)\<rparr>)" (is "server_ok K ?st")
proof -
  have sub: "set (remove1 t (sv_tasks st)) \<subseteq> set (sv_tasks st)"
    by (rule set_remove1_subset)
  have le: "length (epoch_tasks ?st r) \<le> length (epoch_tasks st r)" for r
    using epoch_tasks_remove [OF assms(2)] by (cases "r = task_epoch t") auto
  have ref: "ref_ok K ?st r" if "ref_ok K st r" for r
    using that le [of r] by (auto simp: ref_ok_def)
  have "session_ok K ?st s" if "session_ok K st s" for s
  proof -
    have "session_refs ?st s"
      using that sub by (auto simp: session_ok_def session_refs_def)
    moreover have "session_sound K ?st s" if "session_sound K st s"
      using that ref by (auto simp: session_sound_def)
    ultimately show ?thesis
      using that by (simp add: session_ok_def)
  qed
  then show ?thesis
    using assms(1) sub by (auto simp: server_ok_def)
qed

text \<open>Setting the taint of the session a task belongs to.\<close>

lemma server_ok_taint:
  assumes "server_ok K st" and "t \<in> set (sv_tasks st)"
    and "sv_epochs st' = (sv_epochs st)[task_epoch t := e']"
    and "sv_taints st' = (sv_taints st)[task_tainted t := Some err]"
    and "sv_tasks st' = remove1 t (sv_tasks st)" and "sv_entry st' = sv_entry st"
  shows "server_ok K st'"
proof -
  have t: "task_epoch t < length (sv_epochs st)" "task_tainted t < length (sv_taints st)"
    using assms(1,2) by (auto simp: server_ok_def)
  have sub: "set (remove1 t (sv_tasks st)) \<subseteq> set (sv_tasks st)"
    by (rule set_remove1_subset)
  have "session_ok K st' s" if entry: "sv_entry st = Some (i, s)" for i s
  proof -
    let ?st = "st\<lparr>sv_tasks := remove1 t (sv_tasks st)\<rparr>"
    have ok: "session_ok K ?st s"
      using server_ok_remove_task [OF assms(1,2)] entry by (simp add: server_ok_def)
    have own: "task_tainted t = sess_tainted s" if "task_epoch t \<in> snd ` set (sess_epochs s)"
      using assms(1,2) entry that by (auto simp: server_ok_def session_ok_def session_refs_def)
    have "session_refs st' s"
      using ok assms(3-5) by (simp add: session_ok_def session_refs_def)
    moreover have "session_sound K st' s" if none: "sv_taints st' ! sess_tainted s = None"
    proof -
      have "sess_tainted s \<noteq> task_tainted t"
        using none t(2) assms(4) by auto
      then have out: "task_epoch t \<notin> snd ` set (sess_epochs s)" and "sv_taints ?st ! sess_tainted s = None"
        using own none assms(4) by auto
      then have "session_sound K ?st s"
        using ok by (simp add: session_ok_def)
      moreover have "sv_epochs st' ! r = sv_epochs st ! r" "epoch_tasks st' r = epoch_tasks ?st r"
        if "(idx, r) \<in> set (sess_epochs s)" for idx r
      proof -
        have "r \<noteq> task_epoch t"
          using out that by force
        then show "sv_epochs st' ! r = sv_epochs st ! r" "epoch_tasks st' r = epoch_tasks ?st r"
          using assms(3,5) by (simp_all add: epoch_tasks_def)
      qed
      ultimately show ?thesis
        by (auto simp: session_sound_def ref_ok_def)
    qed
    ultimately show ?thesis
      by (simp add: session_ok_def)
  qed
  then show ?thesis
    using assms sub by (auto simp: server_ok_def)
qed

lemma advance_task_cases:
  assumes "advance_task K t st = Some st'"
  obtains (Dropped) "st' = st\<lparr>sv_tasks := remove1 t (sv_tasks st)\<rparr>"
    | (Result) result r e' where "add_processed_input K result (sv_epochs st ! task_epoch t) = (r, e')"
      and "sv_epochs st' = (sv_epochs st)[task_epoch t := e']" and "sv_tasks st' = remove1 t (sv_tasks st)"
      and "sv_entry st' = sv_entry st"
      and "sv_taints st' = (case r of Err err \<Rightarrow> (sv_taints st)[task_tainted t := Some err] | _ \<Rightarrow> sv_taints st)"
proof (cases "map_of (svc_sent (sv_controller st)) (task_rx t)")
  case None
  then show thesis
    using assms Dropped by (simp add: advance_task_def Let_def split: if_splits)
next
  case (Some resp)
  show thesis
  proof (cases "\<exists>result. resp = RAdvance result")
    case True
    then obtain result where resp: "resp = RAdvance result"
      by blast
    obtain r e' where add: "add_processed_input K result (sv_epochs st ! task_epoch t) = (r, e')"
      by (rule prod.exhaust)
    show thesis
      by (rule Result [OF add]) (use assms in \<open>cases r; auto simp: advance_task_def Let_def Some resp on_epoch_def add\<close>)+
  next
    case False
    then show thesis
      using assms Dropped Some by (cases resp) (simp_all add: advance_task_def Let_def split: if_splits)
  qed
qed

lemma advance_task_ok:
  assumes "server_ok K st" and "t \<in> set (sv_tasks st)" and "advance_task K t st = Some st'"
  shows "server_ok K st'"
proof -
  let ?st = "st\<lparr>sv_tasks := remove1 t (sv_tasks st)\<rparr>"
  have okr: "server_ok K ?st"
    by (rule server_ok_remove_task [OF assms(1,2)])
  have t: "task_epoch t < length (sv_epochs st)"
    using assms(1,2) by (auto simp: server_ok_def)
  from assms(3) show ?thesis
  proof (cases rule: advance_task_cases)
    case Dropped
    then show ?thesis
      using okr by simp
  next
    case (Result result r e')
    show ?thesis
    proof (cases "\<exists>err. r = Err err")
      case True
      then show ?thesis
        using server_ok_taint [OF assms(1,2) Result(2) _ Result(3,4)] Result(5) by auto
    next
      case False
      then have taints: "sv_taints st' = sv_taints st"
        using Result(5) by (cases r) auto
      have "session_ok K st' s" if entry: "sv_entry st = Some (i, s)" for i s
      proof (rule session_ok_update [where st = ?st and ref = "task_epoch t" and e' = e'])
        show "session_ok K ?st s"
          using okr entry by (simp add: server_ok_def)
        show "\<forall>ta \<in> set (sv_tasks st'). task_epoch ta \<in> snd ` set (sess_epochs s) \<longrightarrow> task_tainted ta = sess_tainted s"
          using okr entry Result(3) by (auto simp: server_ok_def session_ok_def session_refs_def)
        assume none: "sv_taints ?st ! sess_tainted s = None" and own: "task_epoch t \<in> snd ` set (sess_epochs s)"
        have "session_sound K st s"
          using assms(1) entry none by (simp add: server_ok_def session_ok_def)
        then have ref: "ref_ok K st (task_epoch t)"
          using own by (auto simp: session_sound_def)
        show "epoch_ok K e' \<and> ep_state e' = ep_state (sv_epochs ?st ! task_epoch t) \<and>
            length (epoch_tasks st' (task_epoch t)) \<le> unat (pending_inputs e')"
          using Result(1,3) False
          by (cases rule: add_processed_input_cases [OF ref assms(2), of result]) (auto simp: epoch_tasks_def)
      qed (use Result taints t in \<open>simp_all add: epoch_tasks_def\<close>)
      then show ?thesis
        using okr Result taints by (simp add: server_ok_def)
    qed
  qed
qed

text \<open>Finishing the active epoch.\<close>

lemma try_finish_err:
  assumes "try_finish enc n idx e = (r, e')" and "epoch_ok K e" and "\<And>resp. r \<noteq> Ok resp"
  shows "e' = e"
proof -
  have "\<not> (ep_state e = EpochActive \<and> pending_inputs e = 0 \<and> n = of_nat (length (processed_inputs e)))"
    using try_finish_ok [OF assms(2), of n enc idx] assms(1,3) by auto
  then show ?thesis
    using assms(1)
    by (auto simp: try_finish_def check_active_def check_pending_inputs_def check_processed_inputs_def
        get_num_processed_inputs_within_epoch_def ensure_def split: if_splits)
qed

lemma try_finish_response:
  assumes "try_finish enc n idx e = (Ok resp, e')"
  shows "e' = e\<lparr>ep_state := EpochFinished\<rparr> \<and> ep_state e = EpochActive \<and> pending_inputs e = 0 \<and>
    n = of_nat (length (processed_inputs e))"
  using assms
  by (auto simp: try_finish_def and_then_Ok_iff bind_outcome_Ok_iff check_active_def check_pending_inputs_def
      check_processed_inputs_def get_num_processed_inputs_within_epoch_def Let_def)

lemma try_finish_epoch_cases:
  assumes "try_finish_epoch K enc idx n s st = (out, st')" and "session_ok K st s"
  obtains (Refused) "\<And>resp. out \<noteq> Ok resp" and "st' = st"
    | (Finished) resp ref e where "out = Ok resp" and "sv_taints st ! sess_tainted s = None"
      and "sess_active_epoch_index s = idx" and "idx \<noteq> - 1" and "map_of (sess_epochs s) idx = Some ref"
      and "e = sv_epochs st ! ref" and "try_finish enc n idx e = (Ok resp, e\<lparr>ep_state := EpochFinished\<rparr>)"
      and "pending_inputs e = 0" and "n = of_nat (length (processed_inputs e))"
      and "st' = put_session (s\<lparr>sess_active_epoch_index := idx + 1,
            sess_epochs := AList.update (idx + 1) (length (sv_epochs st)) (sess_epochs s)\<rparr>)
          (st\<lparr>sv_epochs := (sv_epochs st)[ref := e\<lparr>ep_state := EpochFinished\<rparr>] @
            [empty_epoch K (processed_input_count_since_genesis e + n)]\<rparr>)"
proof -
  let ?checks = "bind_outcome (check_epoch_index_overflow s) (\<lambda>_.
    bind_outcome (check_tainted st s) (\<lambda>_.
    bind_outcome (check_active_epoch idx s) (\<lambda>_. try_get_epoch idx s)))"
  show thesis
  proof (cases ?checks)
    case (Ok ref)
    then have checks: "sv_taints st ! sess_tainted s = None" "sess_active_epoch_index s = idx" "idx \<noteq> - 1"
      and ref: "map_of (sess_epochs s) idx = Some ref"
      by (auto simp: bind_outcome_Ok_iff check_tainted_def check_active_epoch_def check_epoch_index_overflow_def
          try_get_epoch_def elim: ok_or.elims)
    have refs: "session_refs st s" "session_sound K st s"
      using assms(2) checks(1) by (auto simp: session_ok_def)
    have less: "ref < length (sv_epochs st)" and ok: "epoch_ok K (sv_epochs st ! ref)"
      using session_sound_epoch [OF refs ref] by (auto simp: ref_ok_def)
    obtain r e' where fin: "try_finish enc n idx (sv_epochs st ! ref) = (r, e')"
      by (rule prod.exhaust)
    show thesis
    proof (cases "\<exists>resp. r = Ok resp")
      case True
      then obtain resp where resp: "r = Ok resp"
        by blast
      note e' = try_finish_response [OF fin [unfolded resp]]
      show thesis
        by (rule Finished [of resp ref "sv_epochs st ! ref"])
          (use assms(1) Ok fin resp e' checks ref less in
            \<open>simp_all add: try_finish_epoch_def on_epoch_def epoch_new_eq Let_def\<close>)
    next
      case False
      then have "e' = sv_epochs st ! ref"
        using try_finish_err [OF fin ok] by blast
      then have "on_epoch ref (try_finish enc n idx) st = (r, st)"
        using less fin by (intro on_epoch_same) auto
      then show thesis
        using assms(1) Ok False Refused by (cases r) (auto simp: try_finish_epoch_def)
    qed
  next
    case (Err e)
    then show thesis
      using assms(1) Refused by (auto simp: try_finish_epoch_def)
  next
    case Panic
    then show thesis
      using assms(1) Refused by (auto simp: try_finish_epoch_def)
  qed
qed

lemma update_new_key: "k \<notin> fst ` set al \<Longrightarrow> AList.update k v al = al @ [(k, v)]"
  by (induction al) auto

lemma u64_succ_greater: "idx \<noteq> - 1 \<Longrightarrow> (idx :: u64) < idx + 1"
  using unatSuc [of idx] by (simp add: word_less_nat_alt eq_neg_iff_add_eq_0 add.commute)

lemma put_session_entry [simp]:
  "sv_entry (put_session s st) = map_option (\<lambda>(i, _). (i, s)) (sv_entry st)"
  "sv_epochs (put_session s st) = sv_epochs st" "sv_taints (put_session s st) = sv_taints st"
  "sv_tasks (put_session s st) = sv_tasks st" "sv_controller (put_session s st) = sv_controller st"
  "sv_inspecting (put_session s st) = sv_inspecting st"
  by (simp_all add: put_session_def)

lemma session_finish_ok:
  assumes "server_ok K st" and "session_refs st s" and "session_sound K st s"
    and "sess_active_epoch_index s = idx" and "idx \<noteq> - 1" and "map_of (sess_epochs s) idx = Some ref"
    and "pending_inputs (sv_epochs st ! ref) = 0"
    and s': "s' = s\<lparr>sess_active_epoch_index := idx + 1,
      sess_epochs := AList.update (idx + 1) (length (sv_epochs st)) (sess_epochs s)\<rparr>"
    and "sv_epochs st' = (sv_epochs st)[ref := (sv_epochs st ! ref)\<lparr>ep_state := EpochFinished\<rparr>] @ [empty_epoch K m]"
    and "sv_taints st' = sv_taints st" and "sv_tasks st' = sv_tasks st"
  shows "session_refs st' s' \<and> session_sound K st' s'"
proof -
  let ?L = "length (sv_epochs st)"
  have tasks: "\<forall>t \<in> set (sv_tasks st). task_epoch t < ?L"
    using assms(1) by (simp add: server_ok_def)
  have up: "idx < idx + 1"
    by (rule u64_succ_greater [OF assms(5)])
  have le: "i \<le> idx" if "(i, r) \<in> set (sess_epochs s)" for i r
    using assms(3,4) that by (auto simp: session_sound_def)
  then have "idx + 1 \<notin> fst ` set (sess_epochs s)"
    using up by fastforce
  then have epochs': "sess_epochs s' = sess_epochs s @ [(idx + 1, ?L)]"
    by (simp add: s' update_new_key)
  have old: "r < ?L" if "(i, r) \<in> set (sess_epochs s)" for i r
    using assms(2) that by (force simp: session_refs_def)
  have same: "i = idx \<longleftrightarrow> r = ref" if "(i, r) \<in> set (sess_epochs s)" for i r
  proof -
    have "(idx, ref) \<in> set (sess_epochs s)"
      using assms(6) by (rule map_of_SomeD)
    then show ?thesis
      using that assms(2) by (auto simp: session_refs_def distinct_map inj_on_def) (force+)
  qed
  have "epoch_tasks st' r = epoch_tasks st r" for r
    using assms(11) by (simp add: epoch_tasks_def)
  moreover have "epoch_tasks st ?L = []"
    using tasks by (auto simp: epoch_tasks_def filter_empty_conv)
  ultimately have new: "ref_ok K st' ?L"
    using assms(9) empty_epoch_ok [of K m] by (simp add: ref_ok_def nth_append)
  have kept: "ref_ok K st' r \<and> (ep_state (sv_epochs st' ! r) \<noteq> EpochActive)" if "(i, r) \<in> set (sess_epochs s)" for i r
  proof -
    have "ref_ok K st r" "ep_state (sv_epochs st ! r) = EpochActive \<longleftrightarrow> i = idx"
      using assms(3,4) that by (auto simp: session_sound_def)
    then show ?thesis
      using assms(9,11) old [OF that] same [OF that] assms(7)
      by (cases "r = ref") (auto simp: ref_ok_def epoch_tasks_def nth_append epoch_ok_def)
  qed
  have "session_refs st' s'"
    using assms(2,9-11) epochs' tasks \<open>idx + 1 \<notin> fst ` set (sess_epochs s)\<close> old
    by (auto simp: session_refs_def s' simp del: AList.update.simps) (force+)
  moreover have "session_sound K st' s'"
    unfolding session_sound_def epochs'
    using new kept le up by (auto simp: s' nth_append assms(9) empty_epoch_def) (force+)
  ultimately show ?thesis
    by blast
qed

lemma try_finish_epoch_ok:
  assumes "server_ok K st" and "sv_entry st = Some (sid, s)" and "try_finish_epoch K enc idx n s st = (out, st')"
  shows "server_ok K st'"
proof -
  have ok: "session_ok K st s"
    using assms(1,2) by (simp add: server_ok_def)
  from assms(3) ok show ?thesis
  proof (cases rule: try_finish_epoch_cases)
    case Refused
    then show ?thesis
      using assms(1) by simp
  next
    case (Finished resp ref e)
    have sound: "session_refs st s" "session_sound K st s"
      using ok Finished(2) by (auto simp: session_ok_def)
    let ?s = "s\<lparr>sess_active_epoch_index := idx + 1,
      sess_epochs := AList.update (idx + 1) (length (sv_epochs st)) (sess_epochs s)\<rparr>"
    have "session_refs st' ?s \<and> session_sound K st' ?s"
      by (rule session_finish_ok [OF assms(1) sound Finished(3,4,5) _ refl])
        (use Finished(6,8,10) in simp_all)
    then show ?thesis
      using assms(1,2) Finished(10) by (auto simp: server_ok_def session_ok_def)
  qed
qed

lemma try_delete_epoch_ok:
  assumes "server_ok K st" and "sv_entry st = Some (sid, s)" and "try_delete_epoch idx s st = (out, st')"
  shows "server_ok K st'"
proof (cases "st' = st")
  case False
  then obtain ref where ref: "map_of (sess_epochs s) idx = Some ref" "sv_taints st ! sess_tainted s = None"
    "ep_state (sv_epochs st ! ref) \<noteq> EpochActive"
    and st': "st' = put_session (s\<lparr>sess_epochs := AList.delete idx (sess_epochs s)\<rparr>) st"
    using assms(3)
    by (auto simp: try_delete_epoch_def and_then_pure check_tainted_def try_get_epoch_def check_finished_def
        check_active_def ensure_def bind_outcome_Ok_iff elim!: ok_or.elims split: outcome.splits if_splits)
  have ok: "session_refs st s" "session_sound K st s"
    using assms(1,2) ref(2) by (auto simp: server_ok_def session_ok_def)
  have other: "idx \<noteq> sess_active_epoch_index s"
    using session_sound_epoch [OF ok ref(1)] ref(3) by blast
  have "session_refs st' (s\<lparr>sess_epochs := AList.delete idx (sess_epochs s)\<rparr>)"
    using ok(1) by (auto simp: session_refs_def st' AList.delete_eq prod.case_eq_if distinct_map_filter)
  moreover have "session_sound K st' (s\<lparr>sess_epochs := AList.delete idx (sess_epochs s)\<rparr>)"
    using ok(2) other by (auto simp: session_sound_def st' AList.delete_eq prod.case_eq_if ref_ok_def epoch_tasks_def)
  ultimately show ?thesis
    using assms(1,2) by (auto simp: server_ok_def session_ok_def st')
qed (use assms(1) in simp)

lemma server_ok_lock:
  assumes "server_ok K st" and "sv_entry st = Some (sid, s)" and "sv_entry st' = Some (sid, s\<lparr>sess_locked := b\<rparr>)"
    and "sv_epochs st' = sv_epochs st" and "sv_taints st' = sv_taints st" and "sv_tasks st' = sv_tasks st"
  shows "server_ok K st'"
  using assms by (simp add: server_defs)

lemma try_inspect_begin_ok:
  assumes "server_ok K st" and "sv_entry st = Some (sid, s)" and "try_inspect_begin payload s st = Some (out, st')"
  shows "server_ok K st'"
proof (cases "st' = st")
  case False
  then show ?thesis
    using assms(3)
    by (intro server_ok_lock [OF assms(1,2), where b = True])
      (auto simp: try_inspect_begin_def assms(2) split: outcome.splits option.splits)
qed (use assms(1) in simp)

lemma try_inspect_end_ok:
  assumes "server_ok K st" and "try_inspect_end st = Some (out, st')"
  shows "server_ok K st'"
proof -
  obtain sid s where entry: "sv_entry st = Some (sid, s)"
    and st': "st' = put_session (s\<lparr>sess_locked := False\<rparr>) (st\<lparr>sv_inspecting := None\<rparr>)"
    using assms(2) by (auto simp: try_inspect_end_def Let_def split: option.splits Response.splits if_splits)
  show ?thesis
    by (rule server_ok_lock [OF assms(1) entry, where b = False]) (simp_all add: st' entry)
qed

section \<open>Runs of the server\<close>

text \<open>A step of the host runner: a handler, the end of an inspect, a spawned task, a request from
  the HTTP server to the controller, or a turn of the loop of the controller.\<close>

inductive server_step :: "Hasher \<Rightarrow> (U256 \<Rightarrow> byte list) \<Rightarrow> ServerState \<Rightarrow> ServerState \<Rightarrow> bool" for K enc where
  "start_session K r st = (out, st') \<Longrightarrow> server_step K enc st st'"
| "end_session sid st = (out, st') \<Longrightarrow> server_step K enc st st'"
| "advance_state r st = Some (out, st') \<Longrightarrow> server_step K enc st st'"
| "finish_epoch_handler K enc f st = (resp, st') \<Longrightarrow> server_step K enc st st'"
| "delete_epoch_handler sid idx st = (out, st') \<Longrightarrow> server_step K enc st st'"
| "inspect_state_begin sid payload st = Some (out, st') \<Longrightarrow> server_step K enc st st'"
| "try_inspect_end st = Some (iresp, st') \<Longrightarrow> server_step K enc st st'"
| "\<lbrakk>t \<in> set (sv_tasks st); advance_task K t st = Some st'\<rbrakk> \<Longrightarrow> server_step K enc st st'"
| "client_call (sv_controller st) tx svc \<Longrightarrow> server_step K enc st (st\<lparr>sv_controller := svc\<rparr>)"
| "service_run elapsed (sv_controller st) = Some (b, svc) \<Longrightarrow> server_step K enc st (st\<lparr>sv_controller := svc\<rparr>)"

definition server_reachable :: "Hasher \<Rightarrow> (U256 \<Rightarrow> byte list) \<Rightarrow> ServerState \<Rightarrow> bool" where
  "server_reachable K enc st \<longleftrightarrow> (server_step K enc)\<^sup>*\<^sup>* server_new st"

lemma advance_state_ok: "\<lbrakk>server_ok K st; advance_state r st = Some (out, st')\<rbrakk> \<Longrightarrow> server_ok K st'"
  using try_advance_ok
  by (fastforce simp: advance_state_def bind_outcome_Ok_iff split: outcome.splits dest: get_locked_session_entry)

lemma handler_ok:
  assumes "server_ok K st"
    and "\<And>s r st'. \<lbrakk>sv_entry st = Some (sid, s); f s st = (r, st')\<rbrakk> \<Longrightarrow> server_ok K st'"
    and "and_then (get_locked_session sid st, st) f = (out, st')"
  shows "server_ok K st'"
  using assms by (cases "get_locked_session sid st") (auto dest: get_locked_session_entry)

lemma inspect_state_begin_ok: "\<lbrakk>server_ok K st; inspect_state_begin sid p st = Some (out, st')\<rbrakk> \<Longrightarrow> server_ok K st'"
  using try_inspect_begin_ok
  by (fastforce simp: inspect_state_begin_def split: outcome.splits dest: get_locked_session_entry)

lemma server_step_ok: "\<lbrakk>server_step K enc st st'; server_ok K st\<rbrakk> \<Longrightarrow> server_ok K st'"
proof (induction rule: server_step.induct)
  case (4 f st resp st')
  then show ?case
    unfolding finish_epoch_handler_def by (rule_tac handler_ok [OF _ try_finish_epoch_ok]) auto
next
  case (5 sid idx st out st')
  then show ?case
    unfolding delete_epoch_handler_def by (rule_tac handler_ok [OF _ try_delete_epoch_ok]) auto
next
  case (9 st tx svc)
  then show ?case
    by (auto intro: server_ok_cong)
next
  case (10 elapsed st b svc)
  then show ?case
    by (auto intro: server_ok_cong)
qed (blast intro: start_session_ok end_session_ok advance_state_ok inspect_state_begin_ok try_inspect_end_ok advance_task_ok)+

lemma server_reachable_ok: "server_reachable K enc st \<Longrightarrow> server_ok K st"
  unfolding server_reachable_def by (induction rule: rtranclp_induct) (auto intro: server_ok_new server_step_ok)

section \<open>Properties of the server\<close>

text \<open>A session that has just been started.\<close>

definition sample_start :: StartSessionRequest where
  "sample_start = \<lparr> ss_session_id = ''s'', ss_machine_directory = [], ss_runtime = None, ss_active_epoch_index = 0,
     ss_processed_input_count = 0, ss_server_cycles = None, ss_server_deadline = None \<rparr>"

definition sample_session :: Session where
  "sample_session = \<lparr> sess_active_epoch_index = 0, sess_epochs = [(0, 0)], sess_tainted = 0, sess_locked = False \<rparr>"

definition sample_server :: "Hasher \<Rightarrow> ServerState" where
  "sample_server K = server_new\<lparr>sv_entry := Some (''s'', sample_session), sv_epochs := [empty_epoch K 0], sv_taints := [None]\<rparr>"

lemma sample_server_start: "start_session K sample_start server_new = (Ok (), sample_server K)"
  by (simp add: start_session_def try_set_session_def session_new_def epoch_new_eq sample_start_def sample_server_def
      sample_session_def server_new_def)

lemma sample_server_reachable: "server_reachable K enc (sample_server K)"
  unfolding server_reachable_def by (rule r_into_rtranclp) (rule server_step.intros(1) [OF sample_server_start])

text \<open>C16: in every reachable state of the host runner, as long as the session is not tainted, the
  trees of each of its epochs are the trees over the results of that epoch and every output
  carries its proof; exactly one epoch is active, the one with the greatest index, all others
  are finished; and every task that waits for a result is counted as a pending input.\<close>

theorem session_invariant:
  assumes "server_reachable K enc st" and "sv_entry st = Some (sid, s)" and "sv_taints st ! sess_tainted s = None"
  shows "\<exists>ref. map_of (sess_epochs s) (sess_active_epoch_index s) = Some ref \<and>
    ep_state (sv_epochs st ! ref) = EpochActive \<and>
    length (epoch_tasks st ref) \<le> unat (pending_inputs (sv_epochs st ! ref)) \<and>
    (\<forall>idx r. map_of (sess_epochs s) idx = Some r \<longrightarrow> epoch_ok K (sv_epochs st ! r) \<and>
       (idx \<noteq> sess_active_epoch_index s \<longrightarrow>
          idx < sess_active_epoch_index s \<and> ep_state (sv_epochs st ! r) = EpochFinished))"
proof -
  have ok: "session_refs st s" "session_sound K st s"
    using server_reachable_ok [OF assms(1)] assms(2,3) by (auto simp: server_ok_def session_ok_def)
  have epochs: "epoch_ok K (sv_epochs st ! r) \<and> (idx \<noteq> sess_active_epoch_index s \<longrightarrow>
      idx < sess_active_epoch_index s \<and> ep_state (sv_epochs st ! r) = EpochFinished)"
    if "map_of (sess_epochs s) idx = Some r" for idx r
    using session_sound_epoch [OF ok that] by (auto simp: ref_ok_def order_less_le intro: EpochState.exhaust)
  have "sess_active_epoch_index s \<in> fst ` set (sess_epochs s)"
    using ok(2) by (simp add: session_sound_def)
  then obtain ref where ref: "map_of (sess_epochs s) (sess_active_epoch_index s) = Some ref"
    by (metis map_of_eq_None_iff not_None_eq)
  show ?thesis
    using session_sound_epoch [OF ok ref] ref epochs by (auto simp: ref_ok_def)
qed

theorem session_invariant_witness:
  "\<exists>ref. map_of (sess_epochs sample_session) 0 = Some ref \<and>
     ep_state (sv_epochs (sample_server (\<lambda>d. d)) ! ref) = EpochActive"
  using session_invariant [OF sample_server_reachable [of "\<lambda>d. d" "\<lambda>_. []"], of "''s''" sample_session]
  by (auto simp: sample_server_def sample_session_def)

text \<open>C25: in every reachable state, finishing the active epoch with the right number of inputs
  succeeds when no input is pending and the session is neither locked nor tainted: it returns
  valid proofs of all outputs of the epoch, keeps the finished epoch with its results, and
  opens the next epoch, empty, at the number of inputs since genesis.\<close>

theorem finish_epoch_opens_next:
  assumes "server_reachable K enc st" and "get_locked_session sid st = Ok s"
    and "sv_taints st ! sess_tainted s = None" and "sess_active_epoch_index s = idx" and "idx \<noteq> - 1"
    and "map_of (sess_epochs s) idx = Some ref" and "e = sv_epochs st ! ref" and "pending_inputs e = 0"
    and "n = of_nat (length (processed_inputs e))"
  shows "\<exists>resp st' s' v_root n_root.
    finish_epoch_handler K enc \<lparr> fe_session_id = sid, fe_active_epoch_index = idx,
      fe_processed_input_count_within_epoch = n, fe_storage_directory = dir \<rparr> st = (Ok resp, st') \<and>
    fr_vouchers_epoch_root_hash resp = Some (hash_to_grpc v_root) \<and>
    fr_notices_epoch_root_hash resp = Some (hash_to_grpc n_root) \<and>
    list_all2 (proof_of K v_root n_root (processed_input_count_since_genesis e))
      (outputs_from 0 (processed_inputs e)) (fr_proofs resp) \<and>
    sv_entry st' = Some (sid, s') \<and> sess_active_epoch_index s' = idx + 1 \<and>
    map_of (sess_epochs s') = (map_of (sess_epochs s))(idx + 1 \<mapsto> length (sv_epochs st)) \<and>
    sv_epochs st' ! ref = e\<lparr>ep_state := EpochFinished\<rparr> \<and>
    sv_epochs st' ! length (sv_epochs st) = empty_epoch K (processed_input_count_since_genesis e + n)"
proof -
  have entry: "sv_entry st = Some (sid, s)"
    using get_locked_session_entry [OF assms(2)] by blast
  have ok: "session_refs st s" "session_sound K st s"
    using server_reachable_ok [OF assms(1)] entry assms(3) by (auto simp: server_ok_def session_ok_def)
  have ref: "ref < length (sv_epochs st)" "epoch_ok K e" "ep_state e = EpochActive"
    using session_sound_epoch [OF ok assms(6)] assms(4,7) by (auto simp: ref_ok_def)
  from try_finish_ok [OF ref(2,3) assms(8,9), of enc idx] obtain v_root n_root resp where
    resp: "try_finish enc n idx e = (Ok resp, e\<lparr>ep_state := EpochFinished\<rparr>)"
      "fr_vouchers_epoch_root_hash resp = Some (hash_to_grpc v_root)"
      "fr_notices_epoch_root_hash resp = Some (hash_to_grpc n_root)"
      "list_all2 (proof_of K v_root n_root (processed_input_count_since_genesis e))
        (outputs_from 0 (processed_inputs e)) (fr_proofs resp)"
    by fastforce
  let ?s = "s\<lparr>sess_active_epoch_index := idx + 1,
    sess_epochs := AList.update (idx + 1) (length (sv_epochs st)) (sess_epochs s)\<rparr>"
  let ?st = "put_session ?s (st\<lparr>sv_epochs := (sv_epochs st)[ref := e\<lparr>ep_state := EpochFinished\<rparr>] @
    [empty_epoch K (processed_input_count_since_genesis e + n)]\<rparr>)"
  have "try_finish_epoch K enc idx n s st = (Ok resp, ?st)"
    using assms(3-7) ref(1) resp(1)
    by (simp add: try_finish_epoch_def check_epoch_index_overflow_def check_tainted_def check_active_epoch_def
        try_get_epoch_def on_epoch_def epoch_new_eq Let_def)
  then have run: "finish_epoch_handler K enc \<lparr> fe_session_id = sid, fe_active_epoch_index = idx,
      fe_processed_input_count_within_epoch = n, fe_storage_directory = dir \<rparr> st = (Ok resp, ?st)"
    by (simp add: finish_epoch_handler_def assms(2))
  show ?thesis
    by (intro exI [of _ resp] exI [of _ ?st] exI [of _ ?s] exI [of _ v_root] exI [of _ n_root])
      (use run resp(2-4) ref(1) entry in \<open>simp add: nth_append update_conv'\<close>)
qed

theorem finish_epoch_opens_next_witness:
  "\<exists>resp st'. finish_epoch_handler (\<lambda>d. d) (\<lambda>_. []) \<lparr> fe_session_id = ''s'', fe_active_epoch_index = 0,
      fe_processed_input_count_within_epoch = 0, fe_storage_directory = [] \<rparr> (sample_server (\<lambda>d. d)) = (Ok resp, st') \<and>
     sv_epochs st' ! 1 = empty_epoch (\<lambda>d. d) 0"
proof -
  let ?st = "sample_server (\<lambda>d. d)"
  have "get_locked_session ''s'' ?st = Ok sample_session" "sv_taints ?st ! sess_tainted sample_session = None"
    "sess_active_epoch_index sample_session = 0" "map_of (sess_epochs sample_session) 0 = Some 0"
    "pending_inputs (sv_epochs ?st ! 0) = 0" "0 = of_nat (length (processed_inputs (sv_epochs ?st ! 0)))"
    and e: "processed_input_count_since_genesis (sv_epochs ?st ! 0) = 0" "length (sv_epochs ?st) = 1"
    by (simp_all add: sample_server_def sample_session_def get_locked_session_def empty_epoch_def)
  note finish_epoch_opens_next [OF sample_server_reachable [of "\<lambda>d. d" "\<lambda>_. []"] this(1-3) _ this(4) refl this(5,6), of "[]"]
  then show ?thesis
    unfolding e by auto
qed

lemma advance_request_from_no_panic: "advance_request_from r \<noteq> Panic"
  by (simp add: advance_request_from_def bind_outcome_Panic_iff)

text \<open>C34: a tainted session accepts nothing but its end: advances, inspects, finishing and deleting
  epochs are refused and change nothing, and the session can be ended at once, whatever inputs
  are pending.\<close>

theorem tainted_session_refuses:
  assumes "get_locked_session sid st = Ok s" and "sv_taints st ! sess_tainted s = Some err"
    and "ga_session_id r = sid" and "fe_session_id f = sid"
  shows "(\<exists>e. advance_state r st = Some (Err e, st)) \<and>
    (\<exists>e. finish_epoch_handler K enc f st = (Err e, st)) \<and>
    inspect_state_begin sid payload st = Some (Err (data_loss ''session is tainted''), st) \<and>
    delete_epoch_handler sid idx st = (Err (data_loss ''session is tainted''), st) \<and>
    end_session sid st = (Ok (), st\<lparr>sv_entry := None\<rparr>)"
proof -
  have tainted: "check_tainted st s = Err (data_loss ''session is tainted'')"
    using assms(2) by (simp add: check_tainted_def)
  then have checks: "\<exists>e. bind_outcome (check_epoch_index_overflow s) (\<lambda>_. bind_outcome (check_tainted st s) g) = Err e"
    for g :: "unit \<Rightarrow> (Status, nat) outcome"
    by (cases "sess_active_epoch_index s = - 1") (simp_all add: check_epoch_index_overflow_def)
  have "\<exists>e. try_advance i j q s st = Some (Err e, st)" for i j q
    using checks [of "\<lambda>_. bind_outcome (check_active_epoch i s) (\<lambda>_. try_get_epoch i s)"]
    by (auto simp: try_advance_def)
  then have "\<exists>e. advance_state r st = Some (Err e, st)"
    using assms(1,3) advance_request_from_no_panic [of r]
    by (cases "advance_request_from r") (auto simp: advance_state_def)
  moreover have "\<exists>e. finish_epoch_handler K enc f st = (Err e, st)"
    using checks [of "\<lambda>_. bind_outcome (check_active_epoch (fe_active_epoch_index f) s)
      (\<lambda>_. try_get_epoch (fe_active_epoch_index f) s)"] assms(1,4)
    by (auto simp: finish_epoch_handler_def try_finish_epoch_def)
  moreover have "inspect_state_begin sid payload st = Some (Err (data_loss ''session is tainted''), st)"
    by (simp add: inspect_state_begin_def assms(1) try_inspect_begin_def tainted)
  moreover have "delete_epoch_handler sid idx st = (Err (data_loss ''session is tainted''), st)"
    by (simp add: delete_epoch_handler_def assms(1) try_delete_epoch_def tainted)
  moreover have "end_session sid st = (Ok (), st\<lparr>sv_entry := None\<rparr>)"
    by (simp add: end_session_def try_del_session_def assms session_check_endable_def)
  ultimately show ?thesis
    by blast
qed

theorem tainted_session_refuses_witness:
  "end_session ''s'' ((sample_server (\<lambda>d. d))\<lparr>sv_taints := [Some (internal [])]\<rparr>) =
     (Ok (), (sample_server (\<lambda>d. d))\<lparr>sv_taints := [Some (internal [])], sv_entry := None\<rparr>)"
  using tainted_session_refuses [of "''s''" "(sample_server (\<lambda>d. d))\<lparr>sv_taints := [Some (internal [])]\<rparr>" sample_session
      "internal []" "\<lparr> ga_session_id = ''s'', ga_active_epoch_index = 0, ga_current_input_index = 0,
        ga_input_metadata = None, ga_input_payload = [] \<rparr>"
      "\<lparr> fe_session_id = ''s'', fe_active_epoch_index = 0, fe_processed_input_count_within_epoch = 0,
        fe_storage_directory = [] \<rparr>"]
  by (simp add: sample_server_def sample_session_def get_locked_session_def)

text \<open>C26: an advance that the server accepts is the next input: its index is the number of inputs
  since genesis, processed or pending, its metadata names that index, and accepting it moves the
  index on by one; the request that the controller gets is the one that was sent.\<close>

theorem advance_state_in_order:
  assumes "server_reachable K enc st" and "advance_state r st = Some (Ok (), st')"
  shows "\<exists>s ref m a rx svc. sv_entry st = Some (ga_session_id r, s) \<and> sv_entry st' = sv_entry st \<and>
    map_of (sess_epochs s) (sess_active_epoch_index s) = Some ref \<and>
    sess_active_epoch_index s = ga_active_epoch_index r \<and>
    ga_current_input_index r = get_current_input_index (sv_epochs st ! ref) \<and>
    get_current_input_index (sv_epochs st' ! ref) = ga_current_input_index r + 1 \<and>
    ga_input_metadata r = Some m \<and> gm_msg_sender m = Some a \<and> gm_input_index m = ga_current_input_index r \<and>
    controller_advance \<lparr> asr_metadata = \<lparr> am_msg_sender = ga_data a, am_epoch_index = 0,
        am_input_index = ga_current_input_index r, am_block_number = gm_block_number m,
        am_timestamp = gm_timestamp m \<rparr>, asr_payload = ga_input_payload r \<rparr> (sv_controller st) = Some (rx, svc) \<and>
    sv_controller st' = svc"
proof -
  obtain q s where q: "advance_request_from r = Ok q" and s: "get_locked_session (ga_session_id r) st = Ok s"
    and adv: "try_advance (ga_active_epoch_index r) (ga_current_input_index r) q s st = Some (Ok (), st')"
    using assms(2) by (auto simp: advance_state_def bind_outcome_Ok_iff split: outcome.splits)
  have entry: "sv_entry st = Some (ga_session_id r, s)"
    using get_locked_session_entry [OF s] by blast
  have okst: "session_ok K st s" "session_refs st s"
    using server_reachable_ok [OF assms(1)] entry by (auto simp: server_ok_def session_ok_def)
  obtain m a where ma: "ga_input_metadata r = Some m" "gm_msg_sender m = Some a" "gm_input_index m = ga_current_input_index r"
    and q_eq: "q = \<lparr> asr_metadata = \<lparr> am_msg_sender = ga_data a, am_epoch_index = 0,
        am_input_index = ga_current_input_index r, am_block_number = gm_block_number m,
        am_timestamp = gm_timestamp m \<rparr>, asr_payload = ga_input_payload r \<rparr>"
    using q by (auto simp: advance_request_from_def bind_outcome_Ok_iff elim!: ok_or.elims)
  from adv okst(2) show ?thesis
  proof (cases rule: try_advance_cases)
    case (Sent ref e' rx svc)
    have sound: "session_sound K st s"
      using okst(1) Sent(2) by (simp add: session_ok_def)
    from session_sound_epoch [OF okst(2) sound Sent(4)] have ref: "ref < length (sv_epochs st)" "epoch_ok K (sv_epochs st ! ref)"
      by (auto simp: ref_ok_def)
    note e' = try_add_pending_input_ok [OF ref(2) Sent(5)]
    then have "get_current_input_index e' = ga_current_input_index r + 1"
      by (auto simp: get_current_input_index_def get_num_processed_inputs_since_genesis_def
          get_num_processed_inputs_within_epoch_def)
    then show ?thesis
      using entry Sent ref(1) e' ma q_eq by auto
  qed simp
qed

definition sample_advance_request :: GrpcAdvanceStateRequest where
  "sample_advance_request = \<lparr> ga_session_id = ''s'', ga_active_epoch_index = 0, ga_current_input_index = 0,
     ga_input_metadata = Some \<lparr> gm_msg_sender = Some \<lparr> ga_data = replicate 20 1 \<rparr>, gm_block_number = 5,
       gm_timestamp = 6, gm_epoch_index = 0, gm_input_index = 0 \<rparr>, ga_input_payload = [9] \<rparr>"

theorem advance_state_in_order_witness:
  "\<exists>st'. advance_state sample_advance_request (sample_server (\<lambda>d. d)) = Some (Ok (), st') \<and>
     get_current_input_index (sv_epochs st' ! 0) = 1"
proof -
  have "\<exists>st'. advance_state sample_advance_request (sample_server (\<lambda>d. d)) = Some (Ok (), st')"
    by (simp add: advance_state_def sample_advance_request_def advance_request_from_def ADDRESS_SIZE_def
        get_locked_session_def sample_server_def sample_session_def try_advance_def check_epoch_index_overflow_def
        check_tainted_def check_active_epoch_def try_get_epoch_def on_epoch_def try_add_pending_input_def
        check_active_def check_current_input_index_def check_input_limit_def empty_epoch_def
        get_current_input_index_def get_num_processed_inputs_since_genesis_def
        get_num_processed_inputs_within_epoch_def epoch_sizes server_new_def run_simps)
  then obtain st' where adv: "advance_state sample_advance_request (sample_server (\<lambda>d. d)) = Some (Ok (), st')"
    by blast
  have "sess_active_epoch_index sample_session = 0" "map_of (sess_epochs sample_session) 0 = Some 0"
    "sv_entry (sample_server (\<lambda>d. d)) = Some (''s'', sample_session)" "ga_current_input_index sample_advance_request = 0"
    by (simp_all add: sample_session_def sample_server_def sample_advance_request_def)
  then have "get_current_input_index (sv_epochs st' ! 0) = 1"
    using advance_state_in_order [OF sample_server_reachable [of "\<lambda>d. d" "\<lambda>_. []"] adv] by auto
  then show ?thesis
    using adv by blast
qed

end
