(* ===== verification/Host_Http.thy ===== *)
theory Host_Http
  imports Host_Controller
begin

text \<open>
  The HTTP server through which the DApp talks to the host runner (\<open>http/rollup_server.rs\<close>,
  \<open>http/model.rs\<close>, \<open>http/errors.rs\<close>) and its encoding of binary data (\<open>conversions.rs\<close>).
  \<open>hex_encode\<close> and \<open>hex_decode\<close> are the functions of the crate \<open>hex\<close>.

  A handler has two parts: it decodes the body and sends a request to the controller, and when
  the controller has answered, or dropped the channel (\<open>None\<close>), it builds the HTTP response.
\<close>

section \<open>Ethereum binary format (conversions.rs)\<close>

datatype DecodeError = InvalidPrefix string | FromHex string string

fun decode_error_display :: "DecodeError \<Rightarrow> string" where
  "decode_error_display (InvalidPrefix s) =
     ''Failed to decode ethereum binary string '' @ s @ '' (expected 0x prefix)''"
| "decode_error_display (FromHex s e) = ''Failed to decode ethereum binary string '' @ s @ '' ('' @ e @ '')''"

definition encode_ethereum_binary :: "(byte list \<Rightarrow> string) \<Rightarrow> byte list \<Rightarrow> string" where
  "encode_ethereum_binary hex_encode bytes = ''0x'' @ hex_encode bytes"

definition decode_ethereum_binary :: "(string \<Rightarrow> string + byte list) \<Rightarrow> string \<Rightarrow> (DecodeError, byte list) outcome" where
  "decode_ethereum_binary hex_decode s =
     bind_outcome (ensure (take 2 s = ''0x'') (InvalidPrefix s)) (\<lambda>_. from_result (FromHex s) (hex_decode (drop 2 s)))"

definition exception_display :: "(byte list \<Rightarrow> string) \<Rightarrow> RollupException \<Rightarrow> string" where
  "exception_display hex_encode e = ''rollup exception ('' @ encode_ethereum_binary hex_encode (re_payload e) @ '')''"

section \<open>Messages (http/model.rs)\<close>

record HttpAdvanceMetadata =
  ham_msg_sender :: string
  ham_epoch_index :: u64
  ham_input_index :: u64
  ham_block_number :: u64
  ham_timestamp :: u64

definition http_advance_metadata :: "(byte list \<Rightarrow> string) \<Rightarrow> AdvanceMetadata \<Rightarrow> HttpAdvanceMetadata" where
  "http_advance_metadata hex_encode m =
     \<lparr> ham_msg_sender = encode_ethereum_binary hex_encode (am_msg_sender m), ham_epoch_index = am_epoch_index m,
       ham_input_index = am_input_index m, ham_block_number = am_block_number m, ham_timestamp = am_timestamp m \<rparr>"

record HttpAdvanceStateRequest =
  has_metadata :: HttpAdvanceMetadata
  has_payload :: string

definition http_advance_state_request :: "(byte list \<Rightarrow> string) \<Rightarrow> AdvanceStateRequest \<Rightarrow> HttpAdvanceStateRequest" where
  "http_advance_state_request hex_encode r =
     \<lparr> has_metadata = http_advance_metadata hex_encode (asr_metadata r),
       has_payload = encode_ethereum_binary hex_encode (asr_payload r) \<rparr>"

record HttpInspectStateRequest =
  his_payload :: string

definition http_inspect_state_request :: "(byte list \<Rightarrow> string) \<Rightarrow> InspectStateRequest \<Rightarrow> HttpInspectStateRequest" where
  "http_inspect_state_request hex_encode r = \<lparr> his_payload = encode_ethereum_binary hex_encode (isr_payload r) \<rparr>"

datatype HttpRollupRequest =
    HttpAdvanceState HttpAdvanceStateRequest
  | HttpInspectState HttpInspectStateRequest

fun http_rollup_request :: "(byte list \<Rightarrow> string) \<Rightarrow> RollupRequest \<Rightarrow> HttpRollupRequest" where
  "http_rollup_request hex_encode (AdvanceState r) = HttpAdvanceState (http_advance_state_request hex_encode r)"
| "http_rollup_request hex_encode (InspectState r) = HttpInspectState (http_inspect_state_request hex_encode r)"

record HttpVoucher =
  hvo_destination :: string
  hvo_payload :: string

datatype VoucherDecodeError = InvalidAddressSize nat | HexDecodeError DecodeError

fun voucher_decode_error_display :: "VoucherDecodeError \<Rightarrow> string" where
  "voucher_decode_error_display (InvalidAddressSize got) =
     ''Invalid Ethereum address size (got '' @ show_nat got @ '' bytes, expected 20 bytes)''"
| "voucher_decode_error_display (HexDecodeError e) = decode_error_display e"

definition voucher_try_from ::
  "Hasher \<Rightarrow> (string \<Rightarrow> string + byte list) \<Rightarrow> HttpVoucher \<Rightarrow> (VoucherDecodeError, HostVoucher) outcome" where
  "voucher_try_from K hex_decode v =
     bind_outcome (map_err HexDecodeError (decode_ethereum_binary hex_decode (hvo_destination v))) (\<lambda>destination.
     bind_outcome (ensure (length destination = ADDRESS_SIZE) (InvalidAddressSize (length destination))) (\<lambda>_.
     bind_outcome (map_err HexDecodeError (decode_ethereum_binary hex_decode (hvo_payload v))) (\<lambda>payload.
       Ok (host_voucher_new K destination payload))))"

record HttpNotice =
  hno_payload :: string

definition notice_try_from ::
  "Hasher \<Rightarrow> (string \<Rightarrow> string + byte list) \<Rightarrow> HttpNotice \<Rightarrow> (DecodeError, HostNotice) outcome" where
  "notice_try_from K hex_decode n =
     bind_outcome (decode_ethereum_binary hex_decode (hno_payload n)) (\<lambda>payload. Ok (host_notice_new K payload))"

record HttpReport =
  hre_payload :: string

definition http_report :: "(byte list \<Rightarrow> string) \<Rightarrow> HostReport \<Rightarrow> HttpReport" where
  "http_report hex_encode r = \<lparr> hre_payload = encode_ethereum_binary hex_encode (hr_payload r) \<rparr>"

definition report_try_from :: "(string \<Rightarrow> string + byte list) \<Rightarrow> HttpReport \<Rightarrow> (DecodeError, HostReport) outcome" where
  "report_try_from hex_decode r =
     bind_outcome (decode_ethereum_binary hex_decode (hre_payload r)) (\<lambda>payload. Ok \<lparr> hr_payload = payload \<rparr>)"

record HttpRollupException =
  hex_payload :: string

definition exception_try_from ::
  "(string \<Rightarrow> string + byte list) \<Rightarrow> HttpRollupException \<Rightarrow> (DecodeError, RollupException) outcome" where
  "exception_try_from hex_decode r =
     bind_outcome (decode_ethereum_binary hex_decode (hex_payload r)) (\<lambda>payload. Ok \<lparr> re_payload = payload \<rparr>)"

record HttpFinishRequest =
  hfr_status :: string

datatype DecodeStatusError = DecodeStatusError

definition decode_status_error_display :: "DecodeStatusError \<Rightarrow> string" where
  "decode_status_error_display e = ''status must be '' @ [CHR 0x27] @ ''accept'' @ [CHR 0x27] @ '' or '' @ [CHR 0x27] @ ''reject'' @ [CHR 0x27]"

definition finish_status_try_from :: "HttpFinishRequest \<Rightarrow> (DecodeStatusError, FinishStatus) outcome" where
  "finish_status_try_from r =
     (if hfr_status r = ''accept'' then Ok Accept
      else if hfr_status r = ''reject'' then Ok Reject
      else Err DecodeStatusError)"

section \<open>Responses (http/errors.rs)\<close>

datatype HttpBody =
    NoBody
  | TextBody string
  | IndexBody u64
  | RequestBody HttpRollupRequest

record HttpResponse =
  http_status :: nat
  http_body :: HttpBody

fun controller_error_display :: "ControllerError \<Rightarrow> string" where
  "controller_error_display FetchRequestTimeout = ''no rollup request available''"
| "controller_error_display (InvalidRequest request_name state) =
     ''invalid request '' @ request_name @ '' in '' @ state @ '' state''"

definition error_bad_request :: "string \<Rightarrow> HttpResponse" where
  "error_bad_request m = \<lparr> http_status = 400, http_body = TextBody m \<rparr>"

definition error_internal :: "string \<Rightarrow> HttpResponse" where
  "error_internal m = \<lparr> http_status = 500, http_body = TextBody m \<rparr>"

definition http_ok :: "HttpBody \<Rightarrow> HttpResponse" where
  "http_ok b = \<lparr> http_status = 200, http_body = b \<rparr>"

section \<open>Handlers (http/rollup_server.rs)\<close>

text \<open>The first part of a handler: the response to a body that does not decode, or the channel of
  the response of the controller; \<open>None\<close> while the channel of the controller is full.\<close>

definition http_send ::
  "('e \<Rightarrow> string) \<Rightarrow> ('e, 'r) outcome \<Rightarrow> ('r \<Rightarrow> HostService \<Rightarrow> (nat \<times> HostService) option) \<Rightarrow> HostService \<Rightarrow>
   (HttpResponse + nat \<times> HostService) option" where
  "http_send display decoded send svc =
     (case decoded of
        Ok r \<Rightarrow> map_option Inr (send r svc)
      | Err e \<Rightarrow> Some (Inl (error_bad_request (display e)))
      | Panic \<Rightarrow> None)"

definition http_voucher ::
  "Hasher \<Rightarrow> (string \<Rightarrow> string + byte list) \<Rightarrow> HttpVoucher \<Rightarrow> HostService \<Rightarrow> (HttpResponse + nat \<times> HostService) option" where
  "http_voucher K hex_decode v = http_send voucher_decode_error_display (voucher_try_from K hex_decode v) controller_insert_voucher"

definition http_notice ::
  "Hasher \<Rightarrow> (string \<Rightarrow> string + byte list) \<Rightarrow> HttpNotice \<Rightarrow> HostService \<Rightarrow> (HttpResponse + nat \<times> HostService) option" where
  "http_notice K hex_decode n = http_send decode_error_display (notice_try_from K hex_decode n) controller_insert_notice"

definition http_report_post ::
  "(string \<Rightarrow> string + byte list) \<Rightarrow> HttpReport \<Rightarrow> HostService \<Rightarrow> (HttpResponse + nat \<times> HostService) option" where
  "http_report_post hex_decode r = http_send decode_error_display (report_try_from hex_decode r) controller_insert_report"

definition http_exception ::
  "(string \<Rightarrow> string + byte list) \<Rightarrow> HttpRollupException \<Rightarrow> HostService \<Rightarrow> (HttpResponse + nat \<times> HostService) option" where
  "http_exception hex_decode r = http_send decode_error_display (exception_try_from hex_decode r) notify_exception"

definition http_finish :: "HttpFinishRequest \<Rightarrow> HostService \<Rightarrow> (HttpResponse + nat \<times> HostService) option" where
  "http_finish r = http_send decode_status_error_display (finish_status_try_from r) controller_finish"

text \<open>The second part, of \<open>voucher\<close> and \<open>notice\<close>, of \<open>report\<close> and \<open>exception\<close>, and of \<open>finish\<close>.\<close>

fun http_index_response :: "string \<Rightarrow> (ControllerError + nat) option \<Rightarrow> HttpResponse" where
  "http_index_response failure None = error_internal failure"
| "http_index_response failure (Some (Inr index)) = http_ok (IndexBody (of_nat index))"
| "http_index_response failure (Some (Inl e)) = error_bad_request (controller_error_display e)"

fun http_unit_response :: "string \<Rightarrow> (ControllerError + unit) option \<Rightarrow> HttpResponse" where
  "http_unit_response failure None = error_internal failure"
| "http_unit_response failure (Some (Inr u)) = http_ok NoBody"
| "http_unit_response failure (Some (Inl e)) = error_bad_request (controller_error_display e)"

fun http_finish_response :: "(byte list \<Rightarrow> string) \<Rightarrow> (ControllerError + RollupRequest) option \<Rightarrow> HttpResponse" where
  "http_finish_response hex_encode None = error_internal ''failed to finish''"
| "http_finish_response hex_encode (Some (Inr r)) = http_ok (RequestBody (http_rollup_request hex_encode r))"
| "http_finish_response hex_encode (Some (Inl FetchRequestTimeout)) =
     \<lparr> http_status = 202, http_body = TextBody (controller_error_display FetchRequestTimeout) \<rparr>"
| "http_finish_response hex_encode (Some (Inl (InvalidRequest r s))) =
     \<lparr> http_status = 400, http_body = TextBody (controller_error_display (InvalidRequest r s)) \<rparr>"

section \<open>Properties\<close>

lemma decode_encode:
  "hex_laws hex_encode hex_decode \<Longrightarrow> decode_ethereum_binary hex_decode (encode_ethereum_binary hex_encode b) = Ok b"
  by (simp add: decode_ethereum_binary_def encode_ethereum_binary_def hex_laws_def)

text \<open>Binary data survives the Ethereum format: what was encoded decodes to itself, in the
  payload and in the sender of the request that the DApp fetches, and in the vouchers, notices
  and reports that it posts.  Text without the prefix is refused before it is decoded.\<close>

theorem ethereum_binary_roundtrip:
  assumes "hex_laws hex_encode hex_decode"
  shows "decode_ethereum_binary hex_decode (has_payload (http_advance_state_request hex_encode r)) = Ok (asr_payload r) \<and>
    decode_ethereum_binary hex_decode (ham_msg_sender (has_metadata (http_advance_state_request hex_encode r)))
      = Ok (am_msg_sender (asr_metadata r)) \<and>
    report_try_from hex_decode (http_report hex_encode rep) = Ok rep \<and>
    notice_try_from K hex_decode \<lparr> hno_payload = encode_ethereum_binary hex_encode b \<rparr> = Ok (host_notice_new K b) \<and>
    voucher_try_from K hex_decode \<lparr> hvo_destination = encode_ethereum_binary hex_encode d,
        hvo_payload = encode_ethereum_binary hex_encode b \<rparr> =
      (if length d = ADDRESS_SIZE then Ok (host_voucher_new K d b) else Err (InvalidAddressSize (length d))) \<and>
    (take 2 s \<noteq> ''0x'' \<longrightarrow> decode_ethereum_binary hex_decode s = Err (InvalidPrefix s))"
  using decode_encode [OF assms]
  by (simp add: http_advance_state_request_def http_advance_metadata_def report_try_from_def http_report_def
      notice_try_from_def voucher_try_from_def ensure_def) (simp add: decode_ethereum_binary_def)

theorem ethereum_binary_roundtrip_witness:
  "report_try_from plain_hex_decode (http_report plain_hex_encode \<lparr> hr_payload = [1, 255] \<rparr>) = Ok \<lparr> hr_payload = [1, 255] \<rparr>"
  using ethereum_binary_roundtrip [OF plain_hex_laws, of sample_advance "\<lparr> hr_payload = [1, 255] \<rparr>" "\<lambda>d. d" "[]" "[]" "[]"]
  by blast

text \<open>C39: a voucher that the DApp posts while it works on an input is stored with the destination
  and the payload that were posted, and the answer is 200 with its index among the vouchers of
  the input; a voucher posted in any other state is answered with 400 and changes nothing.\<close>

theorem voucher_post_answered:
  assumes "hex_laws hex_encode hex_decode" and "length d = ADDRESS_SIZE" and "svc_state svc = Some state"
    and "finish_rx (svc_data svc) = []" and "voucher_rx (svc_data svc) = []" and "report_rx (svc_data svc) = []"
    and "exception_rx (svc_data svc) = []" and "inspect_rx (svc_data svc) = []" and "advance_rx (svc_data svc) = []"
    and v: "v = \<lparr> hvo_destination = encode_ethereum_binary hex_encode d, hvo_payload = encode_ethereum_binary hex_encode p \<rparr>"
  shows "\<exists>tx svc1 svc2 answer. http_voucher K hex_decode v svc = Some (Inr (tx, svc1)) \<and>
    service_run False svc1 = Some (TookVoucher (host_voucher_new K d p), svc2) \<and>
    svc_sent svc2 = svc_sent svc @ [(tx, RIndex answer)] \<and>
    (case state of
       AdvancingState atx vs ns rs \<Rightarrow>
         svc_state svc2 = Some (AdvancingState atx (vs @ [host_voucher_new K d p]) ns rs) \<and>
         http_index_response failure (Some answer) = \<lparr> http_status = 200, http_body = IndexBody (of_nat (length vs)) \<rparr>
     | _ \<Rightarrow> svc_state svc2 = Some state \<and> http_status (http_index_response failure (Some answer)) = 400)"
proof -
  have "voucher_try_from K hex_decode v = Ok (host_voucher_new K d p)"
    using decode_encode [OF assms(1)] assms(2) v by (simp add: voucher_try_from_def)
  then show ?thesis
    using assms(3-9)
    by (cases state) (simp_all add: http_voucher_def http_send_def controller_insert_voucher_def sync_send_def service_run_def
        MPSC_BUFFER_SIZE_def process_defs http_ok_def error_bad_request_def)
qed

theorem voucher_post_answered_witness:
  "\<exists>tx svc1 svc2 answer.
     http_voucher (\<lambda>d. d) plain_hex_decode \<lparr> hvo_destination = encode_ethereum_binary plain_hex_encode (replicate 20 1),
       hvo_payload = encode_ethereum_binary plain_hex_encode [7] \<rparr> sample_advancing = Some (Inr (tx, svc1)) \<and>
     service_run False svc1 = Some (TookVoucher (host_voucher_new (\<lambda>d. d) (replicate 20 1) [7]), svc2) \<and>
     http_index_response [] (Some answer) = \<lparr> http_status = 200, http_body = IndexBody 0 \<rparr>"
proof -
  have s: "svc_state sample_advancing = Some (AdvancingState 1 [] [] [])" "finish_rx (svc_data sample_advancing) = []"
    "voucher_rx (svc_data sample_advancing) = []" "report_rx (svc_data sample_advancing) = []"
    "exception_rx (svc_data sample_advancing) = []" "inspect_rx (svc_data sample_advancing) = []"
    "advance_rx (svc_data sample_advancing) = []"
    by (simp_all add: sample_advancing_eq controller_new_def)
  have "length (replicate 20 1 :: byte list) = ADDRESS_SIZE"
    by (simp add: ADDRESS_SIZE_def)
  from voucher_post_answered [OF plain_hex_laws this s refl, of "\<lambda>d. d" "[7]" "[]"] show ?thesis
    by auto
qed

end
