(* ===== verification/Http_Client.thy ===== *)
theory Http_Client
  imports Host_Http
begin

text \<open>
  The HTTP client with which an application talks to the HTTP server of the host runner,
  \<open>rollups-http-client/src/client.rs\<close>.

  Its messages (\<open>rollup.rs\<close>) have the same fields and the same JSON as those of the server, whose
  types the model shares.  \<open>hyper\<close> is the argument \<open>HttpClient\<close>: \<open>hc_uri_valid\<close> says whether a request to
  an address can be built, \<open>hc_request\<close> sends it and gives the response or why there is none, and
  \<open>hc_text\<close> is the text of a body, or \<open>None\<close> when it is not UTF-8.  The body of a response is \<open>None\<close>
  when reading it failed.
\<close>

datatype ClientPost =
    PostVoucher HttpVoucher
  | PostNotice HttpNotice
  | PostReport HttpReport
  | PostException HttpRollupException
  | PostFinish HttpFinishRequest

record ClientResponse =
  cr_status :: nat
  cr_body :: "HttpBody option"

record 'w HttpClient =
  hc_uri_valid :: "string \<Rightarrow> bool"
  hc_request :: "string \<Rightarrow> ClientPost \<Rightarrow> 'w \<Rightarrow> (string + ClientResponse) \<times> 'w"
  hc_text :: "HttpBody \<Rightarrow> string option"

text \<open>Building a request panics on an invalid address; sending it changes the world.\<close>

definition client_post ::
  "'w HttpClient \<Rightarrow> string \<Rightarrow> ClientPost \<Rightarrow> 'w \<Rightarrow> ('w, 'e, string + ClientResponse) action" where
  "client_post H uri body w =
     (if hc_uri_valid H uri then (case hc_request H uri body w of (r, w') \<Rightarrow> (Ok r, w')) else (Panic, w))"

text \<open>The index in the response is only logged, so it does not matter whether it parses.\<close>

fun client_read_index :: "string + ClientResponse \<Rightarrow> 'w \<Rightarrow> ('w, 'e, unit) action" where
  "client_read_index (Inr res) w = ((case cr_body res of Some b \<Rightarrow> Ok () | None \<Rightarrow> Panic), w)"
| "client_read_index (Inl e) w = (Ok (), w)"

definition send_voucher :: "'w HttpClient \<Rightarrow> string \<Rightarrow> HttpVoucher \<Rightarrow> 'w \<Rightarrow> ('w, 'e, unit) action" where
  "send_voucher H addr voucher w =
     and_then (client_post H (addr @ ''/voucher'') (PostVoucher voucher) w) client_read_index"

definition send_notice :: "'w HttpClient \<Rightarrow> string \<Rightarrow> HttpNotice \<Rightarrow> 'w \<Rightarrow> ('w, 'e, unit) action" where
  "send_notice H addr notice w =
     and_then (client_post H (addr @ ''/notice'') (PostNotice notice) w) client_read_index"

definition send_report :: "'w HttpClient \<Rightarrow> string \<Rightarrow> HttpReport \<Rightarrow> 'w \<Rightarrow> ('w, 'e, unit) action" where
  "send_report H addr report w =
     and_then (client_post H (addr @ ''/report'') (PostReport report) w) (\<lambda>_ w. (Ok (), w))"

text \<open>On the architecture of the machine the application panics after the exception.\<close>

definition throw_exception :: "bool \<Rightarrow> 'w HttpClient \<Rightarrow> string \<Rightarrow> HttpRollupException \<Rightarrow> 'w \<Rightarrow> ('w, 'e, unit) action" where
  "throw_exception riscv64 H addr exception w =
     and_then (client_post H (addr @ ''/exception'') (PostException exception) w)
       (\<lambda>_ w. (if riscv64 then Panic else Ok (), w))"

datatype RollupResponse = Finish bool

definition is_success :: "nat \<Rightarrow> bool" where
  "is_success status = (200 \<le> status \<and> status < 300)"

fun finish_status :: "RollupResponse \<Rightarrow> string" where
  "finish_status (Finish value) = (if value then ''accept'' else ''reject'')"

fun parse_finish_body :: "HttpBody \<Rightarrow> HttpRollupRequest option" where
  "parse_finish_body (RequestBody r) = Some r"
| "parse_finish_body _ = None"

definition finish_outcome :: "'w HttpClient \<Rightarrow> ClientResponse \<Rightarrow> (string, HttpRollupRequest) outcome" where
  "finish_outcome H res =
     (if is_success (cr_status res) then
        bind_outcome (unwrap (cr_body res)) (\<lambda>buf. unwrap (parse_finish_body buf))
      else bind_outcome (unwrap (cr_body res)) (\<lambda>buf. bind_outcome (unwrap (hc_text H buf)) Err))"

definition send_finish_request ::
  "'w HttpClient \<Rightarrow> string \<Rightarrow> RollupResponse \<Rightarrow> 'w \<Rightarrow> ('w, string, HttpRollupRequest) action" where
  "send_finish_request H addr result w =
     and_then (client_post H (addr @ ''/finish'') (PostFinish \<lparr> hfr_status = finish_status result \<rparr>) w) (\<lambda>r w.
       case r of Inr res \<Rightarrow> (finish_outcome H res, w) | Inl e \<Rightarrow> (Err e, w))"

section \<open>The client against the host runner\<close>

text \<open>A connection on which the response of the server arrives whole.\<close>

definition delivers :: "'w HttpClient \<Rightarrow> string \<Rightarrow> ClientPost \<Rightarrow> 'w \<Rightarrow> HttpResponse \<Rightarrow> 'w \<Rightarrow> bool" where
  "delivers H uri body w res w' =
     (hc_uri_valid H uri \<and> hc_request H uri body w = (Inr \<lparr> cr_status = http_status res, cr_body = Some (http_body res) \<rparr>, w') \<and>
      (\<forall>m. hc_text H (TextBody m) = Some m))"

lemma client_post_delivers:
  "delivers H uri body w res w' \<Longrightarrow>
   client_post H uri body w = (Ok (Inr \<lparr> cr_status = http_status res, cr_body = Some (http_body res) \<rparr>), w')"
  by (simp add: client_post_def delivers_def)

text \<open>C38: What an application gets from a finish is what the controller of the host runner answered: the next
  request with its data in Ethereum format, or the text of its refusal.  The server decodes the
  status that the client sends to the verdict of the application.  When the controller had no
  request in time the server answers 202, which the client takes for a success: it panics on
  the text of that response.\<close>

theorem finish_seen_by_application:
  assumes "delivers H (addr @ ''/finish'') (PostFinish \<lparr> hfr_status = finish_status (Finish ok) \<rparr>) w
    (http_finish_response hex_encode answer) w'"
  shows "finish_status_try_from \<lparr> hfr_status = finish_status (Finish ok) \<rparr> = Ok (if ok then Accept else Reject) \<and>
    send_finish_request H addr (Finish ok) w =
      ((case answer of
          None \<Rightarrow> Err ''failed to finish''
        | Some (Inr r) \<Rightarrow> Ok (http_rollup_request hex_encode r)
        | Some (Inl FetchRequestTimeout) \<Rightarrow> Panic
        | Some (Inl (InvalidRequest name state)) \<Rightarrow> Err (''invalid request '' @ name @ '' in '' @ state @ '' state'')), w')"
proof -
  have plain: "\<And>m. hc_text H (TextBody m) = Some m"
    using assms by (simp add: delivers_def)
  have "send_finish_request H addr (Finish ok) w =
      (finish_outcome H \<lparr> cr_status = http_status (http_finish_response hex_encode answer),
         cr_body = Some (http_body (http_finish_response hex_encode answer)) \<rparr>, w')"
    by (simp add: send_finish_request_def client_post_delivers [OF assms] del: finish_status.simps)
  then show ?thesis
    using plain
    by (cases "(hex_encode, answer)" rule: http_finish_response.cases)
      (auto simp: finish_outcome_def is_success_def finish_status_try_from_def error_internal_def http_ok_def)
qed

definition echo_http :: "HttpResponse \<Rightarrow> nat HttpClient" where
  "echo_http res = \<lparr> hc_uri_valid = (\<lambda>_. True),
     hc_request = (\<lambda>_ _ n. (Inr \<lparr> cr_status = http_status res, cr_body = Some (http_body res) \<rparr>, Suc n)),
     hc_text = (\<lambda>b. case b of TextBody m \<Rightarrow> Some m | _ \<Rightarrow> None) \<rparr>"

theorem finish_seen_by_application_witness:
  "send_finish_request (echo_http (http_finish_response plain_hex_encode (Some (Inl FetchRequestTimeout)))) [] (Finish True) 0 = (Panic, 1) \<and>
   send_finish_request (echo_http (http_finish_response plain_hex_encode None)) [] (Finish False) 0 = (Err ''failed to finish'', 1)"
proof -
  have d: "delivers (echo_http res) uri body n res (Suc n)" for res uri body n
    by (simp add: delivers_def echo_http_def)
  show ?thesis
    using finish_seen_by_application [OF d, where ok = True and answer = "Some (Inl FetchRequestTimeout)"]
      finish_seen_by_application [OF d, where ok = False and answer = None]
    by (auto simp del: http_finish_response.simps)
qed

text \<open>A voucher, a notice or a report reaches the server as the application wrote it, and the client returns
  also when the server refuses it.\<close>

lemma outputs_sent:
  assumes "delivers H (addr @ ''/voucher'') (PostVoucher v) w res w'"
  shows "send_voucher H addr v w = (Ok (), w')"
  by (simp add: send_voucher_def client_post_delivers [OF assms])

end
