(* ===== verification/Server_Manager.thy ===== *)
theory Server_Manager
  imports Grpc
begin

text \<open>
  The part of the advance runner that talks to the server manager
  (\<open>advance-runner/src/server_manager\<close>): its configuration, the conversions of the messages and the
  facade that sends an input, waits for it and collects its outputs, or finishes an epoch.

  The gRPC client of the server manager is a parameter: a record of its methods, each a function
  on a state of any type; \<open>sm_sleep\<close> is the time that passes while the runner sleeps.  The
  \<open>backoff\<close> of a call is the number of retries that its time allows.  A request id, a random UUID,
  only labels a call and is left out.  \<open>keccak\<close> is Keccak-256.
\<close>

section \<open>Conversions (server_manager/conversions.rs, error.rs, claim.rs)\<close>

datatype ServerManagerError =
    SmConnectionError string
  | MethodCallError string Status
  | PendingInputsExceededError
  | MissingFieldError string
  | WrongArraySizeError string nat nat
  | MissingProcessedInputError
  | InvalidProcessedInputError u64 u64
  | EmptyEpochError u64

definition get_field :: "string \<Rightarrow> 'a option \<Rightarrow> (ServerManagerError, 'a) outcome" where
  "get_field field opt = ok_or (MissingFieldError field) opt"

fun convert_completion_status :: "GrpcCompletionStatus \<Rightarrow> RollupsCompletionStatus" where
  "convert_completion_status GAccepted = Accepted"
| "convert_completion_status GRejected = Rejected"
| "convert_completion_status GException = Exception"
| "convert_completion_status GMachineHalted = MachineHalted"
| "convert_completion_status GCycleLimitExceeded = CycleLimitExceeded"
| "convert_completion_status GTimeLimitExceeded = TimeLimitExceeded"
| "convert_completion_status GPayloadLengthLimitExceeded = PayloadLengthLimitExceeded"

definition convert_hash :: "GrpcHash \<Rightarrow> (ServerManagerError, Hash) outcome" where
  "convert_hash h =
     (if length (gh_data h) = HASH_SIZE then Ok (gh_data h)
      else Err (WrongArraySizeError ''hash'' HASH_SIZE (length (gh_data h))))"

definition convert_address :: "GrpcAddress \<Rightarrow> (ServerManagerError, Address) outcome" where
  "convert_address a =
     (if length (ga_data a) = ADDRESS_SIZE then Ok (ga_data a)
      else Err (WrongArraySizeError ''address'' ADDRESS_SIZE (length (ga_data a))))"

definition convert_validity :: "OutputValidityProof \<Rightarrow> (ServerManagerError, RollupsOutputValidityProof) outcome" where
  "convert_validity v =
     bind_outcome (bind_outcome (get_field ''validity.output_hashes_root_hash'' (ov_output_hashes_root_hash v)) convert_hash) (\<lambda>oh.
     bind_outcome (bind_outcome (get_field ''validity.vouchers_epoch_root_hash'' (ov_vouchers_epoch_root_hash v)) convert_hash) (\<lambda>vh.
     bind_outcome (bind_outcome (get_field ''validity.notices_epoch_root_hash'' (ov_notices_epoch_root_hash v)) convert_hash) (\<lambda>nh.
     bind_outcome (bind_outcome (get_field ''validity.machine_state_hash'' (ov_machine_state_hash v)) convert_hash) (\<lambda>mh.
     bind_outcome (try_all convert_hash (ov_output_hash_in_output_hashes_siblings v)) (\<lambda>os.
     bind_outcome (try_all convert_hash (ov_output_hashes_in_epoch_siblings v)) (\<lambda>es.
       Ok \<lparr> vp_input_index_within_epoch = ov_input_index_within_epoch v,
            vp_output_index_within_input = ov_output_index_within_input v,
            vp_output_hashes_root_hash = oh, vp_vouchers_epoch_root_hash = vh,
            vp_notices_epoch_root_hash = nh, vp_machine_state_hash = mh,
            vp_output_hash_in_output_hashes_siblings = os,
            vp_output_hashes_in_epoch_siblings = es \<rparr>))))))"

definition convert_proof :: "GrpcProof \<Rightarrow> (ServerManagerError, RollupsProof) outcome" where
  "convert_proof p =
     (let output_enum = (case gp_output_enum p of EnumVoucher \<Rightarrow> OutputVoucher | EnumNotice \<Rightarrow> OutputNotice) in
      bind_outcome (bind_outcome (get_field ''proof.validity'' (gp_validity p)) convert_validity) (\<lambda>validity.
        Ok \<lparr> rp_input_index = gp_input_index p, rp_output_index = gp_output_index p,
             rp_output_enum = output_enum, rp_validity = validity, rp_context = gp_context p \<rparr>))"

definition compute_epoch_hash :: "(byte list \<Rightarrow> Hash) \<Rightarrow> Hash \<Rightarrow> Hash \<Rightarrow> Hash \<Rightarrow> Hash" where
  "compute_epoch_hash keccak machine_state_hash vouchers_metadata_hash notices_metadata_hash =
     keccak (machine_state_hash @ vouchers_metadata_hash @ notices_metadata_hash)"

section \<open>Configuration (server_manager/config.rs)\<close>

record ServerManagerCLIConfig =
  cli_server_manager_endpoint :: string
  cli_machine_snapshot_path :: string
  cli_max_decoding_message_size :: nat
  cli_session_id :: string
  sm_pending_inputs_sleep_duration :: u64
  sm_pending_inputs_max_retries :: u64
  sm_concurrency_update_merkle_tree :: u64
  sm_deadline_checkin :: u64
  sm_deadline_advance_state :: u64
  sm_deadline_advance_state_increment :: u64
  sm_deadline_inspect_state :: u64
  sm_deadline_inspect_state_increment :: u64
  sm_deadline_machine :: u64
  sm_deadline_store :: u64
  sm_deadline_fast :: u64
  sm_cycles_max_advance_state :: u64
  sm_cycles_advance_state_increment :: u64
  sm_cycles_max_inspect_state :: u64
  sm_cycles_inspect_state_increment :: u64

record ServerManagerConfig =
  smc_server_manager_endpoint :: string
  smc_machine_snapshot_path :: string
  smc_max_decoding_message_size :: nat
  smc_session_id :: string
  smc_pending_inputs_sleep_duration :: u64
  smc_pending_inputs_max_retries :: u64
  smc_runtime_config :: MachineRuntimeConfig
  smc_deadline_config :: DeadlineConfig
  smc_cycles_config :: CyclesConfig

definition parse_from_cli :: "ServerManagerCLIConfig \<Rightarrow> ServerManagerConfig" where
  "parse_from_cli cli =
     (let runtime_config = \<lparr> concurrency = Some \<lparr> update_merkle_tree = sm_concurrency_update_merkle_tree cli \<rparr> \<rparr>;
          deadline_config = \<lparr> dl_checkin = sm_deadline_checkin cli,
            dl_advance_state = sm_deadline_advance_state cli,
            dl_advance_state_increment = sm_deadline_advance_state_increment cli,
            dl_inspect_state = sm_deadline_inspect_state cli,
            dl_inspect_state_increment = sm_deadline_inspect_state_increment cli,
            dl_machine = sm_deadline_machine cli, dl_store = sm_deadline_store cli, dl_fast = sm_deadline_fast cli \<rparr>;
          cycles_config = \<lparr> cy_max_advance_state = sm_cycles_max_advance_state cli,
            cy_advance_state_increment = sm_cycles_advance_state_increment cli,
            cy_max_inspect_state = sm_cycles_max_inspect_state cli,
            cy_inspect_state_increment = sm_cycles_inspect_state_increment cli \<rparr>
      in \<lparr> smc_server_manager_endpoint = cli_server_manager_endpoint cli,
           smc_machine_snapshot_path = cli_machine_snapshot_path cli,
           smc_max_decoding_message_size = cli_max_decoding_message_size cli,
           smc_session_id = cli_session_id cli,
           smc_pending_inputs_sleep_duration = sm_pending_inputs_sleep_duration cli,
           smc_pending_inputs_max_retries = sm_pending_inputs_max_retries cli,
           smc_runtime_config = runtime_config, smc_deadline_config = deadline_config,
           smc_cycles_config = cycles_config \<rparr>)"

text \<open>The configuration that the command line gives when no option is set.\<close>

definition default_cli :: ServerManagerCLIConfig where
  "default_cli = \<lparr> cli_server_manager_endpoint = ''http://127.0.0.1:5001'', cli_machine_snapshot_path = [],
     cli_max_decoding_message_size = 100 * 1024 * 1024, cli_session_id = ''default_rollups_id'',
     sm_pending_inputs_sleep_duration = 1000, sm_pending_inputs_max_retries = 600,
     sm_concurrency_update_merkle_tree = 0, sm_deadline_checkin = 5 * 1000,
     sm_deadline_advance_state = 1000 * 60 * 3, sm_deadline_advance_state_increment = 1000 * 10,
     sm_deadline_inspect_state = 1000 * 60 * 3, sm_deadline_inspect_state_increment = 1000 * 10,
     sm_deadline_machine = 1000 * 60 * 5, sm_deadline_store = 1000 * 60 * 3, sm_deadline_fast = 1000 * 5,
     sm_cycles_max_advance_state = drop_bit 2 (- 1), sm_cycles_advance_state_increment = push_bit 22 1,
     sm_cycles_max_inspect_state = drop_bit 2 (- 1), sm_cycles_inspect_state_increment = push_bit 22 1 \<rparr>"

section \<open>The server manager facade (server_manager/facade.rs)\<close>

record 'g ServerManagerClient =
  sm_get_status :: "'g \<Rightarrow> (Status + string list) \<times> 'g"
  sm_get_session_status :: "string \<Rightarrow> 'g \<Rightarrow> (Status + GetSessionStatusResponse) \<times> 'g"
  sm_start_session :: "StartSessionRequest \<Rightarrow> 'g \<Rightarrow> (Status + unit) \<times> 'g"
  sm_end_session :: "string \<Rightarrow> 'g \<Rightarrow> (Status + unit) \<times> 'g"
  sm_advance_state :: "GrpcAdvanceStateRequest \<Rightarrow> 'g \<Rightarrow> (Status + unit) \<times> 'g"
  sm_finish_epoch :: "FinishEpochRequest \<Rightarrow> 'g \<Rightarrow> (Status + FinishEpochResponse) \<times> 'g"
  sm_get_epoch_status :: "string \<Rightarrow> u64 \<Rightarrow> 'g \<Rightarrow> (Status + GetEpochStatusResponse) \<times> 'g"
  sm_sleep :: "u64 \<Rightarrow> 'g \<Rightarrow> 'g"

record 'g ServerManagerFacade =
  smf_dapp_address :: Address
  smf_client :: "'g ServerManagerClient"
  smf_server :: 'g
  smf_config :: ServerManagerConfig
  smf_backoff :: nat

abbreviation smf_session_id :: "'g ServerManagerFacade \<Rightarrow> string" where
  "smf_session_id f \<equiv> smc_session_id (smf_config f)"

abbreviation pending_inputs_max_retries :: "'g ServerManagerFacade \<Rightarrow> nat" where
  "pending_inputs_max_retries f \<equiv> unat (smc_pending_inputs_max_retries (smf_config f))"

abbreviation pending_inputs_sleep_duration :: "'g ServerManagerFacade \<Rightarrow> u64" where
  "pending_inputs_sleep_duration f \<equiv> smc_pending_inputs_sleep_duration (smf_config f)"

text \<open>The codes that the retry treats as permanent.\<close>

fun is_permanent :: "Code \<Rightarrow> bool" where
  "is_permanent InvalidArgument = True"
| "is_permanent NotFound = True"
| "is_permanent AlreadyExists = True"
| "is_permanent FailedPrecondition = True"
| "is_permanent OutOfRange = True"
| "is_permanent Unimplemented = True"
| "is_permanent DataLoss = True"
| "is_permanent _ = False"

fun retry_call :: "nat \<Rightarrow> string \<Rightarrow> ('g \<Rightarrow> (Status + 'a) \<times> 'g) \<Rightarrow> 'g \<Rightarrow> ('g, ServerManagerError, 'a) action" where
  "retry_call n method_name call g =
     (case call g of
        (Inr response, g') \<Rightarrow> (Ok response, g')
      | (Inl status, g') \<Rightarrow>
          if is_permanent (status_code status) then (Err (MethodCallError method_name status), g')
          else (case n of
                  0 \<Rightarrow> (Err (MethodCallError method_name status), g')
                | Suc m \<Rightarrow> retry_call m method_name call g'))"

declare retry_call.simps [simp del]

definition grpc_call ::
  "string \<Rightarrow> ('g ServerManagerClient \<Rightarrow> 'g \<Rightarrow> (Status + 'a) \<times> 'g) \<Rightarrow> 'g ServerManagerFacade \<Rightarrow>
   ('g ServerManagerFacade, ServerManagerError, 'a) action" where
  "grpc_call method_name method f =
     (case retry_call (smf_backoff f) method_name (method (smf_client f)) (smf_server f) of
        (r, g) \<Rightarrow> (r, f\<lparr>smf_server := g\<rparr>))"

text \<open>The loop of \<open>wait_for_pending_inputs\<close>, with the retries that are left.\<close>

fun wait_loop ::
  "nat \<Rightarrow> u64 \<Rightarrow> 'g ServerManagerFacade \<Rightarrow> ('g ServerManagerFacade, ServerManagerError, ProcessedInput list) action" where
  "wait_loop 0 idx f = (Err PendingInputsExceededError, f)"
| "wait_loop (Suc n) idx f =
     and_then (grpc_call ''get_epoch_status'' (\<lambda>c. sm_get_epoch_status c (smf_session_id f) idx) f) (\<lambda>response f.
       if es_pending_input_count response > 0
       then wait_loop n idx
              (f\<lparr>smf_server := sm_sleep (smf_client f) (pending_inputs_sleep_duration f) (smf_server f)\<rparr>)
       else (Ok (es_processed_inputs response), f))"

definition wait_for_pending_inputs ::
  "u64 \<Rightarrow> 'g ServerManagerFacade \<Rightarrow> ('g ServerManagerFacade, ServerManagerError, ProcessedInput list) action" where
  "wait_for_pending_inputs idx f = wait_loop (pending_inputs_max_retries f) idx f"

text \<open>The session that \<open>ServerManagerFacade::new\<close> opens once it is connected: one that exists is
  finished and deleted first.\<close>

definition open_session ::
  "'g ServerManagerFacade \<Rightarrow> ('g ServerManagerFacade, ServerManagerError, unit) action" where
  "open_session f =
     and_then (grpc_call ''get_status'' sm_get_status f) (\<lambda>sessions f.
     and_then
       (if smf_session_id f \<in> set sessions then
          and_then (grpc_call ''get_session_status'' (\<lambda>c. sm_get_session_status c (smf_session_id f)) f) (\<lambda>session_status f.
          and_then (wait_for_pending_inputs (sst_active_epoch_index session_status) f) (\<lambda>processed f.
          and_then (grpc_call ''finish_epoch'' (\<lambda>c. sm_finish_epoch c
              \<lparr> fe_session_id = smf_session_id f, fe_active_epoch_index = sst_active_epoch_index session_status,
                fe_processed_input_count_within_epoch = of_nat (length processed), fe_storage_directory = [] \<rparr>) f) (\<lambda>_ f.
            grpc_call ''end_session'' (\<lambda>c. sm_end_session c (smf_session_id f)) f)))
        else (Ok (), f)) (\<lambda>_ f.
       grpc_call ''start_session'' (\<lambda>c. sm_start_session c
         \<lparr> ss_session_id = smf_session_id f, ss_machine_directory = smc_machine_snapshot_path (smf_config f),
           ss_runtime = Some (smc_runtime_config (smf_config f)), ss_active_epoch_index = 0, ss_processed_input_count = 0,
           ss_server_cycles = Some (smc_cycles_config (smf_config f)),
           ss_server_deadline = Some (smc_deadline_config (smf_config f)) \<rparr>) f))"

text \<open>\<open>connected\<close> is the outcome of connecting to the endpoint, retried by the backoff.\<close>

definition server_manager_facade_new ::
  "(string + 'g ServerManagerClient \<times> 'g) \<Rightarrow> Address \<Rightarrow> ServerManagerConfig \<Rightarrow> nat \<Rightarrow>
   (ServerManagerError, 'g ServerManagerFacade) outcome" where
  "server_manager_facade_new connected dapp config backoff =
     (case connected of
        Inl e \<Rightarrow> Err (SmConnectionError e)
      | Inr (client, g) \<Rightarrow>
          (case open_session \<lparr> smf_dapp_address = dapp, smf_client = client, smf_server = g,
                               smf_config = config, smf_backoff = backoff \<rparr> of
             (out, f) \<Rightarrow> map_ok (\<lambda>_. f) out))"

definition advance_request ::
  "string \<Rightarrow> u64 \<Rightarrow> u64 \<Rightarrow> InputMetadata \<Rightarrow> byte list \<Rightarrow> GrpcAdvanceStateRequest" where
  "advance_request session_id active_epoch_index current_input_index m input_payload =
     \<lparr> ga_session_id = session_id, ga_active_epoch_index = active_epoch_index,
       ga_current_input_index = current_input_index,
       ga_input_metadata = Some
         \<lparr> gm_msg_sender = Some \<lparr> ga_data = msg_sender m \<rparr>, gm_block_number = im_block_number m,
           gm_timestamp = im_timestamp m, gm_epoch_index = im_epoch_index m, gm_input_index = im_input_index m \<rparr>,
       ga_input_payload = input_payload \<rparr>"

fun convert_vouchers :: "u64 \<Rightarrow> nat \<Rightarrow> GrpcVoucher list \<Rightarrow> (ServerManagerError, RollupsOutput list) outcome" where
  "convert_vouchers input_index i [] = Ok []"
| "convert_vouchers input_index i (v # vs) =
     bind_outcome (bind_outcome (get_field ''voucher.destination'' (gv_destination v)) convert_address) (\<lambda>destination.
     bind_outcome (convert_vouchers input_index (Suc i) vs) (\<lambda>os.
       Ok (Voucher \<lparr> rv_index = of_nat i, rv_input_index = input_index, rv_destination = destination,
                     rv_payload = gv_payload v \<rparr> # os)))"

text \<open>The outputs that \<open>advance_state\<close> builds from a processed input.\<close>

definition processed_outputs :: "u64 \<Rightarrow> ProcessedInput \<Rightarrow> (ServerManagerError, RollupsOutput list) outcome" where
  "processed_outputs input_index p =
     (let result = AdvanceResult \<lparr> ar_input_index = input_index, ar_status = convert_completion_status (pi_status p) \<rparr>;
          reports = map (\<lambda>(i, r). Report \<lparr> rr_index = of_nat i, rr_input_index = input_index, rr_payload = gr_payload r \<rparr>)
            (List.enumerate 0 (pi_reports p))
      in case pi_processed_input_one_of p of
           Some (OneOfAcceptedData data) \<Rightarrow>
             bind_outcome (convert_vouchers input_index 0 (ad_vouchers data)) (\<lambda>vouchers.
               Ok (result # reports @ vouchers @
                   map (\<lambda>(i, n). Notice \<lparr> rn_index = of_nat i, rn_input_index = input_index, rn_payload = gn_payload n \<rparr>)
                     (List.enumerate 0 (ad_notices data))))
         | _ \<Rightarrow> Ok (result # reports))"

definition smf_advance_state ::
  "u64 \<Rightarrow> u64 \<Rightarrow> InputMetadata \<Rightarrow> byte list \<Rightarrow> 'g ServerManagerFacade \<Rightarrow>
   ('g ServerManagerFacade, ServerManagerError, RollupsOutput list) action" where
  "smf_advance_state active_epoch_index current_input_index m input_payload f =
     and_then (grpc_call ''advance_state'' (\<lambda>c. sm_advance_state c
       (advance_request (smf_session_id f) active_epoch_index current_input_index m input_payload)) f) (\<lambda>_ f.
     and_then (wait_for_pending_inputs active_epoch_index f) (\<lambda>processed f.
     and_then (ok_or MissingProcessedInputError (if processed = [] then None else Some (last processed)), f) (\<lambda>p f.
     and_then (ensure (pi_input_index p = current_input_index)
       (InvalidProcessedInputError current_input_index (pi_input_index p)), f) (\<lambda>_ f.
       (processed_outputs current_input_index p, f)))))"

definition smf_finish_epoch ::
  "(byte list \<Rightarrow> Hash) \<Rightarrow> u64 \<Rightarrow> 'g ServerManagerFacade \<Rightarrow>
   ('g ServerManagerFacade, ServerManagerError, RollupsClaim \<times> RollupsOutput list) action" where
  "smf_finish_epoch keccak idx f =
     and_then (wait_for_pending_inputs idx f) (\<lambda>processed f.
     and_then (grpc_call ''finish_epoch'' (\<lambda>c. sm_finish_epoch c
        \<lparr> fe_session_id = smf_session_id f, fe_active_epoch_index = idx,
          fe_processed_input_count_within_epoch = of_nat (length processed), fe_storage_directory = [] \<rparr>) f) (\<lambda>response f.
     and_then (ensure (processed \<noteq> []) (EmptyEpochError idx), f) (\<lambda>_ f.
     and_then (bind_outcome (get_field ''response.vouchers_epoch_root_hash'' (fr_vouchers_epoch_root_hash response)) convert_hash, f) (\<lambda>vouchers_metadata_hash f.
     and_then (bind_outcome (get_field ''response.notices_epoch_root_hash'' (fr_notices_epoch_root_hash response)) convert_hash, f) (\<lambda>notices_metadata_hash f.
     and_then (bind_outcome (get_field ''response.machine_hash'' (fr_machine_hash response)) convert_hash, f) (\<lambda>machine_state_hash f.
       let epoch_hash = compute_epoch_hash keccak vouchers_metadata_hash notices_metadata_hash machine_state_hash in
     and_then (try_all convert_proof (fr_proofs response), f) (\<lambda>proofs f.
       (Ok (\<lparr> rc_dapp_address = smf_dapp_address f, rc_epoch_index = idx, rc_epoch_hash = epoch_hash,
              rc_first_index = ucast (pi_input_index (hd processed)),
              rc_last_index = ucast (pi_input_index (last processed)) \<rparr>,
            map Proof proofs), f))))))))"

section \<open>The facade only talks to the server\<close>

definition same_facade :: "'g ServerManagerFacade \<Rightarrow> 'g ServerManagerFacade \<Rightarrow> bool" where
  "same_facade f f' \<longleftrightarrow> f' = f\<lparr>smf_server := smf_server f'\<rparr>"

lemma same_facade_refl [simp]: "same_facade f f"
  by (simp add: same_facade_def)

lemma same_facade_server [simp]: "same_facade f f' \<Longrightarrow> same_facade f (f'\<lparr>smf_server := g\<rparr>)"
  by (metis same_facade_def ServerManagerFacade.select_convs(3) ServerManagerFacade.surjective
      ServerManagerFacade.update_convs(3))

lemma same_facade_fields:
  "same_facade f f' \<Longrightarrow> smf_dapp_address f' = smf_dapp_address f \<and> smf_session_id f' = smf_session_id f"
  by (metis same_facade_def ServerManagerFacade.select_convs(1,4) ServerManagerFacade.surjective
      ServerManagerFacade.update_convs(3))

lemma grpc_call_keeps: "same_facade f s \<Longrightarrow> same_facade f (snd (grpc_call method_name method s))"
  by (simp add: grpc_call_def split: prod.splits)

lemma wait_loop_keeps: "same_facade f s \<Longrightarrow> same_facade f (snd (wait_loop n idx s))"
proof (induction n arbitrary: s)
  case (Suc n)
  then show ?case
    unfolding wait_loop.simps by (intro and_then_keeps [where Q = "same_facade f"] grpc_call_keeps) simp_all
qed simp

lemma wait_keeps: "same_facade f s \<Longrightarrow> same_facade f (snd (wait_for_pending_inputs idx s))"
  unfolding wait_for_pending_inputs_def by (rule wait_loop_keeps)

lemma finish_epoch_claim:
  assumes "smf_finish_epoch keccak idx f = (Ok (claim, proofs), f')"
  shows "rc_epoch_index claim = idx \<and> rc_dapp_address claim = smf_dapp_address f"
proof -
  obtain processed f1 response f2 where w: "wait_for_pending_inputs idx f = (Ok processed, f1)"
    and c: "grpc_call ''finish_epoch'' (\<lambda>c. sm_finish_epoch c
        \<lparr> fe_session_id = smf_session_id f1, fe_active_epoch_index = idx,
          fe_processed_input_count_within_epoch = of_nat (length processed), fe_storage_directory = [] \<rparr>) f1 = (Ok response, f2)"
    and claim: "rc_epoch_index claim = idx" "rc_dapp_address claim = smf_dapp_address f2"
    using assms by (auto simp: smf_finish_epoch_def and_then_Ok_iff Let_def)
  have "same_facade f f1"
    using wait_keeps [of f f idx] w by simp
  from grpc_call_keeps [OF this, of "''finish_epoch''"] c have "same_facade f f2"
    by (metis snd_conv)
  then show ?thesis
    using claim same_facade_fields [of f f2] by simp
qed

lemma advance_state_keeps: "same_facade f s \<Longrightarrow> same_facade f (snd (smf_advance_state idx i m payload s))"
  unfolding smf_advance_state_def
  by (intro and_then_keeps [where Q = "same_facade f"] grpc_call_keeps wait_keeps) simp_all

lemma finish_epoch_keeps: "same_facade f s \<Longrightarrow> same_facade f (snd (smf_finish_epoch keccak idx s))"
  unfolding smf_finish_epoch_def Let_def
  by (intro and_then_keeps [where Q = "same_facade f"] grpc_call_keeps wait_keeps) simp_all

section \<open>A concrete server\<close>

definition zero_hash :: Hash where
  "zero_hash = replicate HASH_SIZE 0"

text \<open>A server that has processed one input, without outputs, in every epoch.\<close>

definition sample_machine_server :: "unit ServerManagerClient" where
  "sample_machine_server = \<lparr>
     sm_get_status = (\<lambda>g. (Inr [], g)),
     sm_get_session_status = (\<lambda>s g. (Inl (invalid_argument []), g)),
     sm_start_session = (\<lambda>q g. (Inr (), g)),
     sm_end_session = (\<lambda>s g. (Inr (), g)),
     sm_advance_state = (\<lambda>q g. (Inr (), g)),
     sm_finish_epoch = (\<lambda>q g. (Inr \<lparr> fr_machine_hash = Some \<lparr> gh_data = zero_hash \<rparr>,
        fr_vouchers_epoch_root_hash = Some \<lparr> gh_data = zero_hash \<rparr>,
        fr_notices_epoch_root_hash = Some \<lparr> gh_data = zero_hash \<rparr>, fr_proofs = [] \<rparr>, g)),
     sm_get_epoch_status = (\<lambda>s idx g. (Inr \<lparr> es_session_id = s, es_epoch_index = idx, es_state = EpochActive,
        es_processed_inputs = [\<lparr> pi_input_index = 0, pi_status = GAccepted,
          pi_processed_input_one_of = Some (OneOfAcceptedData \<lparr> ad_vouchers = [], ad_notices = [] \<rparr>), pi_reports = [] \<rparr>],
        es_pending_input_count = 0, es_taint_status = None \<rparr>, g)),
     sm_sleep = (\<lambda>n g. g) \<rparr>"

definition sample_facade :: "unit ServerManagerFacade" where
  "sample_facade = \<lparr> smf_dapp_address = replicate ADDRESS_SIZE 0, smf_client = sample_machine_server, smf_server = (),
     smf_config = parse_from_cli default_cli, smf_backoff = 0 \<rparr>"

definition sample_claim :: RollupsClaim where
  "sample_claim = \<lparr> rc_dapp_address = replicate ADDRESS_SIZE 0, rc_epoch_index = 0, rc_epoch_hash = zero_hash,
     rc_first_index = 0, rc_last_index = 0 \<rparr>"

lemma default_retries: "unat (smc_pending_inputs_max_retries (parse_from_cli default_cli)) = 600"
  by (simp add: parse_from_cli_def default_cli_def Let_def)

lemma sample_finish:
  "smf_finish_epoch (\<lambda>_. zero_hash) 0 sample_facade = (Ok (sample_claim, []), sample_facade)"
  by (simp add: smf_finish_epoch_def wait_for_pending_inputs_def sample_facade_def grpc_call_def sample_machine_server_def
      retry_call.simps get_field_def convert_hash_def zero_hash_def compute_epoch_hash_def sample_claim_def Let_def
      default_retries numeral_eq_Suc)

section \<open>Proofs from the server\<close>

text \<open>A proof is complete when every hash it needs is present and has 32 bytes.\<close>

definition hash32 :: "GrpcHash \<Rightarrow> bool" where
  "hash32 h \<longleftrightarrow> length (gh_data h) = HASH_SIZE"

definition proof_complete :: "GrpcProof \<Rightarrow> bool" where
  "proof_complete p = (case gp_validity p of None \<Rightarrow> False | Some v \<Rightarrow>
     list_all (pred_option hash32)
       [ov_output_hashes_root_hash v, ov_vouchers_epoch_root_hash v, ov_notices_epoch_root_hash v, ov_machine_state_hash v] \<and>
     None \<notin> set [ov_output_hashes_root_hash v, ov_vouchers_epoch_root_hash v, ov_notices_epoch_root_hash v, ov_machine_state_hash v] \<and>
     list_all hash32 (ov_output_hash_in_output_hashes_siblings v) \<and>
     list_all hash32 (ov_output_hashes_in_epoch_siblings v))"

text \<open>The hashes of a proof of the broker, all of them.\<close>

definition proof_hashes :: "RollupsProof \<Rightarrow> Hash list" where
  "proof_hashes q = (let v = rp_validity q in
     [vp_output_hashes_root_hash v, vp_vouchers_epoch_root_hash v, vp_notices_epoch_root_hash v, vp_machine_state_hash v] @
     vp_output_hash_in_output_hashes_siblings v @ vp_output_hashes_in_epoch_siblings v)"

lemma convert_hash_Ok: "convert_hash h = Ok x \<longleftrightarrow> hash32 h \<and> x = gh_data h"
  by (auto simp: convert_hash_def hash32_def)

lemma convert_hash_not_Panic [simp]: "convert_hash h \<noteq> Panic"
  by (simp add: convert_hash_def)

lemma try_all_convert_hash:
  "try_all convert_hash hs = Ok xs \<longleftrightarrow> list_all hash32 hs \<and> xs = map gh_data hs"
  by (induction hs arbitrary: xs) (auto simp: convert_hash_Ok bind_outcome_Ok_iff)

lemma try_all_not_Panic: "(\<And>x. f x \<noteq> Panic) \<Longrightarrow> try_all f xs \<noteq> Panic"
  by (induction xs) (auto simp: bind_outcome_Panic_iff)

lemma get_field_Ok: "get_field n x = Ok y \<longleftrightarrow> x = Some y"
  by (cases x) (simp_all add: get_field_def)

lemma get_field_not_Panic [simp]: "get_field n x \<noteq> Panic"
  by (simp add: get_field_def)

lemma convert_proof_Ok:
  "convert_proof p = Ok q \<longleftrightarrow> (\<exists>v oh vh nh mh.
     gp_validity p = Some v \<and> ov_output_hashes_root_hash v = Some oh \<and> ov_vouchers_epoch_root_hash v = Some vh \<and>
     ov_notices_epoch_root_hash v = Some nh \<and> ov_machine_state_hash v = Some mh \<and>
     hash32 oh \<and> hash32 vh \<and> hash32 nh \<and> hash32 mh \<and>
     list_all hash32 (ov_output_hash_in_output_hashes_siblings v) \<and> list_all hash32 (ov_output_hashes_in_epoch_siblings v) \<and>
     q = \<lparr> rp_input_index = gp_input_index p, rp_output_index = gp_output_index p,
       rp_output_enum = (case gp_output_enum p of EnumVoucher \<Rightarrow> OutputVoucher | EnumNotice \<Rightarrow> OutputNotice),
       rp_validity = \<lparr> vp_input_index_within_epoch = ov_input_index_within_epoch v,
         vp_output_index_within_input = ov_output_index_within_input v,
         vp_output_hashes_root_hash = gh_data oh, vp_vouchers_epoch_root_hash = gh_data vh,
         vp_notices_epoch_root_hash = gh_data nh, vp_machine_state_hash = gh_data mh,
         vp_output_hash_in_output_hashes_siblings = map gh_data (ov_output_hash_in_output_hashes_siblings v),
         vp_output_hashes_in_epoch_siblings = map gh_data (ov_output_hashes_in_epoch_siblings v) \<rparr>,
       rp_context = gp_context p \<rparr>)"
  unfolding convert_proof_def convert_validity_def Let_def bind_outcome_Ok_iff get_field_Ok convert_hash_Ok
    try_all_convert_hash outcome.inject
  by blast

lemma convert_proof_not_Panic: "convert_proof p \<noteq> Panic"
  by (auto simp: convert_proof_def convert_validity_def bind_outcome_Panic_iff try_all_not_Panic)

lemma proof_complete_iff: "proof_complete p \<longleftrightarrow> (\<exists>q. convert_proof p = Ok q)"
proof (cases "gp_validity p")
  case (Some v)
  then show ?thesis
    by (cases "ov_output_hashes_root_hash v"; cases "ov_vouchers_epoch_root_hash v";
        cases "ov_notices_epoch_root_hash v"; cases "ov_machine_state_hash v")
       (auto simp: proof_complete_def convert_proof_Ok)
qed (simp add: proof_complete_def convert_proof_Ok)

text \<open>C37: the conversion of a proof succeeds exactly when every hash is there with 32 bytes, it never
  panics, and its result is well typed and the same proof: every hash of the result has 32
  bytes and the indices, siblings and context are those received.\<close>

theorem convert_proof_type:
  "convert_proof p \<noteq> Panic \<and> is_ok (convert_proof p) = proof_complete p \<and>
   (\<forall>q. convert_proof p = Ok q \<longrightarrow>
      list_all (\<lambda>h. length h = HASH_SIZE) (proof_hashes q) \<and>
      rp_input_index q = gp_input_index p \<and> rp_output_index q = gp_output_index p \<and> rp_context q = gp_context p \<and>
      (\<exists>v. gp_validity p = Some v \<and>
        vp_output_hash_in_output_hashes_siblings (rp_validity q) = map gh_data (ov_output_hash_in_output_hashes_siblings v) \<and>
        vp_output_hashes_in_epoch_siblings (rp_validity q) = map gh_data (ov_output_hashes_in_epoch_siblings v)))"
proof (intro conjI allI impI)
  show "is_ok (convert_proof p) = proof_complete p"
    by (cases "convert_proof p") (auto simp: proof_complete_iff)
next
  fix q assume "convert_proof p = Ok q"
  then show "list_all (\<lambda>h. length h = HASH_SIZE) (proof_hashes q)"
    by (auto simp: convert_proof_Ok proof_hashes_def hash32_def list_all_iff Let_def)
qed (auto simp: convert_proof_Ok convert_proof_not_Panic)

definition sample_grpc_proof :: GrpcProof where
  "sample_grpc_proof = \<lparr> gp_input_index = 3, gp_output_index = 1, gp_output_enum = EnumNotice,
     gp_validity = Some \<lparr> ov_input_index_within_epoch = 3, ov_output_index_within_input = 1,
       ov_output_hashes_root_hash = Some \<lparr> gh_data = zero_hash \<rparr>,
       ov_vouchers_epoch_root_hash = Some \<lparr> gh_data = zero_hash \<rparr>,
       ov_notices_epoch_root_hash = Some \<lparr> gh_data = zero_hash \<rparr>,
       ov_machine_state_hash = Some \<lparr> gh_data = zero_hash \<rparr>,
       ov_output_hash_in_output_hashes_siblings = [\<lparr> gh_data = zero_hash \<rparr>],
       ov_output_hashes_in_epoch_siblings = [] \<rparr>,
     gp_context = [1] \<rparr>"

theorem convert_proof_type_witness:
  "\<exists>q. convert_proof sample_grpc_proof = Ok q \<and> list_all (\<lambda>h. length h = 32) (proof_hashes q) \<and>
     rp_input_index q = 3 \<and> length (proof_hashes q) = 5"
proof -
  have "proof_complete sample_grpc_proof"
    by (simp add: proof_complete_def sample_grpc_proof_def hash32_def zero_hash_def)
  then have ok: "is_ok (convert_proof sample_grpc_proof)"
    using convert_proof_type [of sample_grpc_proof] by blast
  then obtain q where q: "convert_proof sample_grpc_proof = Ok q"
    by (cases "convert_proof sample_grpc_proof") auto
  moreover have "length (proof_hashes q) = 5"
    using convert_proof_type [of sample_grpc_proof] q by (auto simp: proof_hashes_def sample_grpc_proof_def Let_def)
  ultimately show ?thesis
    using convert_proof_type [of sample_grpc_proof] by (auto simp: sample_grpc_proof_def HASH_SIZE_def)
qed
section \<open>The outputs of an input\<close>

lemma convert_vouchers_Ok:
  "convert_vouchers input_index i vs = Ok os \<Longrightarrow> length os = length vs \<and>
     (\<forall>k < length vs. \<exists>a. gv_destination (vs ! k) = Some a \<and> length (ga_data a) = ADDRESS_SIZE \<and>
        os ! k = Voucher \<lparr> rv_index = of_nat (i + k), rv_input_index = input_index, rv_destination = ga_data a,
          rv_payload = gv_payload (vs ! k) \<rparr>)"
proof (induction vs arbitrary: i os)
  case (Cons v vs)
  then obtain a os' where a: "gv_destination v = Some a" "length (ga_data a) = ADDRESS_SIZE"
    and os': "convert_vouchers input_index (Suc i) vs = Ok os'"
    and os: "os = Voucher \<lparr> rv_index = of_nat i, rv_input_index = input_index, rv_destination = ga_data a,
      rv_payload = gv_payload v \<rparr> # os'"
    by (auto simp: bind_outcome_Ok_iff get_field_Ok convert_address_def split: if_splits)
  from Cons.IH [OF os'] a show ?case
    by (auto simp: os less_Suc_eq_0_disj nth_Cons' add.commute)
qed simp

text \<open>The outputs that an accepted or rejected input is expected to give: its result, its
  reports, and, when it was accepted, its vouchers and its notices, each kind numbered from
  zero.\<close>

definition reports_of :: "u64 \<Rightarrow> ProcessedInput \<Rightarrow> RollupsOutput list" where
  "reports_of i p = map (\<lambda>k. Report \<lparr> rr_index = of_nat k, rr_input_index = i,
     rr_payload = gr_payload (pi_reports p ! k) \<rparr>) [0..<length (pi_reports p)]"

definition notices_of :: "u64 \<Rightarrow> AcceptedData \<Rightarrow> RollupsOutput list" where
  "notices_of i d = map (\<lambda>k. Notice \<lparr> rn_index = of_nat k, rn_input_index = i,
     rn_payload = gn_payload (ad_notices d ! k) \<rparr>) [0..<length (ad_notices d)]"

definition vouchers_of :: "u64 \<Rightarrow> AcceptedData \<Rightarrow> RollupsOutput list \<Rightarrow> bool" where
  "vouchers_of i d os \<longleftrightarrow> length os = length (ad_vouchers d) \<and>
     (\<forall>k < length os. \<exists>a. gv_destination (ad_vouchers d ! k) = Some a \<and> length (ga_data a) = ADDRESS_SIZE \<and>
        os ! k = Voucher \<lparr> rv_index = of_nat k, rv_input_index = i, rv_destination = ga_data a,
          rv_payload = gv_payload (ad_vouchers d ! k) \<rparr>)"

lemma enumerate_map: "map (\<lambda>(k, x). f k x) (List.enumerate 0 xs) = map (\<lambda>k. f k (xs ! k)) [0..<length xs]"
  by (rule nth_equalityI) (simp_all add: nth_enumerate_eq)

lemma processed_outputs_Ok:
  assumes "processed_outputs i p = Ok outs"
  shows "\<exists>vs ns. outs = AdvanceResult \<lparr> ar_input_index = i, ar_status = convert_completion_status (pi_status p) \<rparr> #
      reports_of i p @ vs @ ns \<and>
    (case pi_processed_input_one_of p of
       Some (OneOfAcceptedData d) \<Rightarrow> vouchers_of i d vs \<and> ns = notices_of i d
     | _ \<Rightarrow> vs = [] \<and> ns = [])"
proof -
  have reports: "map (\<lambda>(k, r). Report \<lparr> rr_index = of_nat k, rr_input_index = i, rr_payload = gr_payload r \<rparr>)
      (List.enumerate 0 (pi_reports p)) = reports_of i p"
    by (simp add: reports_of_def enumerate_map)
  have notices: "map (\<lambda>(k, n). Notice \<lparr> rn_index = of_nat k, rn_input_index = i, rn_payload = gn_payload n \<rparr>)
      (List.enumerate 0 (ad_notices d)) = notices_of i d" for d
    by (simp add: notices_of_def enumerate_map)
  show ?thesis
    using assms unfolding processed_outputs_def Let_def reports notices
    by (auto simp: bind_outcome_Ok_iff vouchers_of_def dest: convert_vouchers_Ok
        split: option.splits ProcessedInputOneOf.splits)
qed

text \<open>C19: the outputs that the runner publishes for an input are those of the last input the server
  reports as processed in the epoch, which must be the input just sent: the completion
  status, then every report, then, for an accepted input, every voucher and every notice,
  each kind numbered from zero in the order of the server and every destination of 20
  bytes; a reply about another input, or none, is an error.\<close>

theorem advance_outputs_complete:
  assumes "smf_advance_state idx i m payload f = (out, f')"
  shows "(\<forall>outs. out = Ok outs \<longrightarrow> (\<exists>f1 processed vs ns. wait_for_pending_inputs idx f1 = (Ok processed, f') \<and>
      processed \<noteq> [] \<and> pi_input_index (last processed) = i \<and>
      outs = AdvanceResult \<lparr> ar_input_index = i, ar_status = convert_completion_status (pi_status (last processed)) \<rparr> #
        reports_of i (last processed) @ vs @ ns \<and>
      (case pi_processed_input_one_of (last processed) of
         Some (OneOfAcceptedData d) \<Rightarrow> vouchers_of i d vs \<and> ns = notices_of i d
       | _ \<Rightarrow> vs = [] \<and> ns = []))) \<and>
    (\<forall>f1 f2 processed. grpc_call ''advance_state'' (\<lambda>c. sm_advance_state c
        (advance_request (smf_session_id f) idx i m payload)) f = (Ok (), f1) \<and>
      wait_for_pending_inputs idx f1 = (Ok processed, f2) \<longrightarrow>
      (processed = [] \<longrightarrow> out = Err MissingProcessedInputError) \<and>
      (processed \<noteq> [] \<and> pi_input_index (last processed) \<noteq> i \<longrightarrow>
        out = Err (InvalidProcessedInputError i (pi_input_index (last processed)))))"
proof (intro conjI allI impI)
  fix outs assume "out = Ok outs"
  then obtain f1 processed where w: "wait_for_pending_inputs idx f1 = (Ok processed, f')"
    and ne: "processed \<noteq> []" "pi_input_index (last processed) = i"
    and po: "processed_outputs i (last processed) = Ok outs"
    using assms by (auto simp: smf_advance_state_def and_then_Ok_iff ensure_def split: if_splits)
  from processed_outputs_Ok [OF po] w ne show "\<exists>f1 processed vs ns. wait_for_pending_inputs idx f1 = (Ok processed, f') \<and>
      processed \<noteq> [] \<and> pi_input_index (last processed) = i \<and>
      outs = AdvanceResult \<lparr> ar_input_index = i, ar_status = convert_completion_status (pi_status (last processed)) \<rparr> #
        reports_of i (last processed) @ vs @ ns \<and>
      (case pi_processed_input_one_of (last processed) of
         Some (OneOfAcceptedData d) \<Rightarrow> vouchers_of i d vs \<and> ns = notices_of i d
       | _ \<Rightarrow> vs = [] \<and> ns = [])"
    by blast
qed (use assms in \<open>auto simp: smf_advance_state_def ensure_def\<close>)

definition sample_metadata :: InputMetadata where
  "sample_metadata = \<lparr> msg_sender = replicate ADDRESS_SIZE 7, im_block_number = 1, im_timestamp = 2,
     im_epoch_index = 0, im_input_index = 0 \<rparr>"

lemma sample_advance_reply:
  "smf_advance_state 0 0 sample_metadata [] sample_facade =
     (Ok [AdvanceResult \<lparr> ar_input_index = 0, ar_status = Accepted \<rparr>], sample_facade)"
  by (simp add: smf_advance_state_def wait_for_pending_inputs_def sample_facade_def grpc_call_def sample_machine_server_def
      retry_call.simps processed_outputs_def default_retries numeral_eq_Suc Let_def)

theorem advance_outputs_complete_witness:
  "\<exists>f1 processed. wait_for_pending_inputs 0 f1 = (Ok processed, sample_facade) \<and> processed \<noteq> [] \<and>
     pi_input_index (last processed) = 0"
  using advance_outputs_complete [OF sample_advance_reply] by blast
section \<open>Waiting for the server\<close>

lemma wait_loop_drains:
  assumes status: "\<forall>g. \<exists>resp g'. sm_get_epoch_status (smf_client f) (smf_session_id f) idx g = (Inr resp, g') \<and>
      left g' = left g \<and> (es_pending_input_count resp > 0 \<longleftrightarrow> left g > 0) \<and>
      (left g = 0 \<longrightarrow> es_processed_inputs resp = processed)"
    and sleeps: "\<forall>g. left (sm_sleep (smf_client f) (pending_inputs_sleep_duration f) g) = left g - (1 :: nat)"
    and "same_facade f s"
  shows "fst (wait_loop n idx s) = (if left (smf_server s) < n then Ok processed else Err PendingInputsExceededError)"
  using assms(3)
proof (induction n arbitrary: s)
  case (Suc n)
  have same: "smf_client s = smf_client f" "smf_session_id s = smf_session_id f"
    "pending_inputs_sleep_duration s = pending_inputs_sleep_duration f"
    using Suc.prems by (metis same_facade_def ServerManagerFacade.select_convs(2,4) ServerManagerFacade.surjective
        ServerManagerFacade.update_convs(3))+
  obtain resp g' where poll: "sm_get_epoch_status (smf_client f) (smf_session_id f) idx (smf_server s) = (Inr resp, g')"
    and left: "left g' = left (smf_server s)" "es_pending_input_count resp > 0 \<longleftrightarrow> left (smf_server s) > 0"
    "left (smf_server s) = 0 \<longrightarrow> es_processed_inputs resp = processed"
    using status by blast
  let ?s = "s\<lparr>smf_server := g'\<rparr>"
  have call: "grpc_call ''get_epoch_status'' (\<lambda>c. sm_get_epoch_status c (smf_session_id s) idx) s = (Ok resp, ?s)"
    using poll by (simp add: grpc_call_def same retry_call.simps)
  have "fst (wait_loop n idx (?s\<lparr>smf_server := sm_sleep (smf_client s) (pending_inputs_sleep_duration s) g'\<rparr>)) =
      (if left (smf_server s) - 1 < n then Ok processed else Err PendingInputsExceededError)"
    using Suc.IH [OF same_facade_server [OF Suc.prems]] sleeps left(1) by (simp add: same)
  then show ?case
    using left by (auto simp: call)
qed simp

text \<open>When the server works off its pending inputs, one unit of work while the runner sleeps, the
  wait returns the processed inputs exactly if the work left is less than the number of
  retries, and otherwise it gives up with an error; it always ends.\<close>

theorem wait_returns_processed:
  assumes "\<forall>g. \<exists>resp g'. sm_get_epoch_status (smf_client f) (smf_session_id f) idx g = (Inr resp, g') \<and>
      left g' = left g \<and> (es_pending_input_count resp > 0 \<longleftrightarrow> left g > 0) \<and>
      (left g = 0 \<longrightarrow> es_processed_inputs resp = processed)"
    and "\<forall>g. left (sm_sleep (smf_client f) (pending_inputs_sleep_duration f) g) = left g - (1 :: nat)"
  shows "fst (wait_for_pending_inputs idx f) =
    (if left (smf_server f) < pending_inputs_max_retries f then Ok processed else Err PendingInputsExceededError)"
  unfolding wait_for_pending_inputs_def by (rule wait_loop_drains [OF assms]) simp

text \<open>A server with work for a number of sleeps.\<close>

definition busy_server :: "nat ServerManagerClient" where
  "busy_server = \<lparr>
     sm_get_status = (\<lambda>g. (Inr [], g)),
     sm_get_session_status = (\<lambda>s g. (Inl (invalid_argument []), g)),
     sm_start_session = (\<lambda>q g. (Inr (), g)),
     sm_end_session = (\<lambda>s g. (Inr (), g)),
     sm_advance_state = (\<lambda>q g. (Inr (), g)),
     sm_finish_epoch = (\<lambda>q g. (Inl (invalid_argument []), g)),
     sm_get_epoch_status = (\<lambda>s idx g. (Inr \<lparr> es_session_id = s, es_epoch_index = idx, es_state = EpochActive,
        es_processed_inputs = [], es_pending_input_count = (if g = 0 then 0 else 1), es_taint_status = None \<rparr>, g)),
     sm_sleep = (\<lambda>n g. g - 1) \<rparr>"

definition busy_facade :: "nat \<Rightarrow> nat ServerManagerFacade" where
  "busy_facade g = \<lparr> smf_dapp_address = replicate ADDRESS_SIZE 0, smf_client = busy_server, smf_server = g,
     smf_config = parse_from_cli (default_cli\<lparr>sm_pending_inputs_max_retries := 3\<rparr>), smf_backoff = 0 \<rparr>"

theorem wait_returns_processed_witness:
  "fst (wait_for_pending_inputs 0 (busy_facade 2)) = Ok [] \<and>
   fst (wait_for_pending_inputs 0 (busy_facade 3)) = Err PendingInputsExceededError"
  using wait_returns_processed [of "busy_facade 2" 0 "\<lambda>g. g" "[]"] wait_returns_processed [of "busy_facade 3" 0 "\<lambda>g. g" "[]"]
  by (simp add: busy_facade_def busy_server_def parse_from_cli_def default_cli_def Let_def)

end
