(* ===== verification/Advance_Runner.thy ===== *)
theory Advance_Runner
  imports Broker Server_Manager
begin

text \<open>
  The advance runner: it takes inputs from the broker, has the server manager process them, and
  writes the outputs and the claims to the broker (\<open>advance-runner/src\<close>).
\<close>

section \<open>The broker facade (broker.rs)\<close>

datatype RunnerBrokerError =
    RunnerBrokerInternalError BrokerError
  | ConsumeError BrokerError
  | FindFinishEpochInputError u64
  | ProcessedEventNotFound
  | ParentIdMismatchError string string

record 'r RunnerBroker =
  rb_client :: "'r Broker"
  rb_inputs_stream :: "RollupsInput BrokerStream"
  rb_outputs_stream :: "RollupsOutput BrokerStream"
  rb_claims_stream :: "RollupsClaim BrokerStream"
  reader_mode :: bool
  last_id :: string

definition runner_broker_new ::
  "(string + 'r Broker) \<Rightarrow> RollupsInput BrokerStream \<Rightarrow> RollupsOutput BrokerStream \<Rightarrow> RollupsClaim BrokerStream \<Rightarrow>
   bool \<Rightarrow> (RunnerBrokerError, 'r RunnerBroker) outcome" where
  "runner_broker_new connected inputs outputs claims mode =
     bind_outcome (from_result (\<lambda>e. RunnerBrokerInternalError (ConnectionError e)) connected) (\<lambda>client.
       Ok \<lparr> rb_client = client, rb_inputs_stream = inputs, rb_outputs_stream = outputs, rb_claims_stream = claims,
            reader_mode = mode, last_id = INITIAL_ID \<rparr>)"

definition consume_input :: "'r RunnerBroker \<Rightarrow> ('r RunnerBroker, RunnerBrokerError, RollupsInput) action option" where
  "consume_input b =
     (case consume_blocking (rb_inputs_stream b) (last_id b) (rb_client b) of
        None \<Rightarrow> None
      | Some (r, client) \<Rightarrow>
          Some (and_then (map_err RunnerBrokerInternalError r, b\<lparr>rb_client := client\<rparr>) (\<lambda>event b.
            if parent_id (ev_payload event) \<noteq> last_id b
            then (Err (ParentIdMismatchError (last_id b) (parent_id (ev_payload event))), b)
            else (Ok (ev_payload event), b\<lparr>last_id := ev_id event\<rparr>))))"

definition on_client ::
  "('r Broker, BrokerError, 'a) action \<Rightarrow> 'r RunnerBroker \<Rightarrow> ('r RunnerBroker, RunnerBrokerError, 'a) action" where
  "on_client m b = (case m of (r, client) \<Rightarrow> (map_err RunnerBrokerInternalError r, b\<lparr>rb_client := client\<rparr>))"

definition produce_rollups_claim ::
  "RollupsClaim \<Rightarrow> 'r RunnerBroker \<Rightarrow> ('r RunnerBroker, RunnerBrokerError, unit) action" where
  "produce_rollups_claim claim b =
     (if reader_mode b then (Ok (), b)
      else and_then (on_client (peek_latest (rb_claims_stream b) (rb_client b)) b) (\<lambda>result b.
        let claim_produced = (case result of
              Some event \<Rightarrow> rc_epoch_index claim \<le> rc_epoch_index (ev_payload event)
            | None \<Rightarrow> False)
        in if \<not> claim_produced
           then and_then (on_client (produce (rb_claims_stream b) claim (rb_client b)) b) (\<lambda>_ b. (Ok (), b))
           else (Ok (), b)))"

fun produce_outputs ::
  "RollupsOutput list \<Rightarrow> 'r RunnerBroker \<Rightarrow> ('r RunnerBroker, RunnerBrokerError, unit) action" where
  "produce_outputs [] b = (Ok (), b)"
| "produce_outputs (x # xs) b =
     and_then (on_client (produce (rb_outputs_stream b) x (rb_client b)) b) (\<lambda>_ b. produce_outputs xs b)"

section \<open>The runner (runner.rs)\<close>

datatype RunnerError =
    AdvanceError ServerManagerError
  | FinishEpochError ServerManagerError
  | ConsumeInputError RunnerBrokerError
  | ProduceClaimError RunnerBrokerError
  | ProduceOutputsError RunnerBrokerError

record ('g, 'r) Runner =
  rn_server_manager :: "'g ServerManagerFacade"
  rn_broker :: "'r RunnerBroker"

definition on_server ::
  "(ServerManagerError \<Rightarrow> 'e) \<Rightarrow> ('g ServerManagerFacade \<Rightarrow> ('g ServerManagerFacade, ServerManagerError, 'a) action) \<Rightarrow>
   ('g, 'r) Runner \<Rightarrow> (('g, 'r) Runner, 'e, 'a) action" where
  "on_server e m r = (case m (rn_server_manager r) of (out, f) \<Rightarrow> (map_err e out, r\<lparr>rn_server_manager := f\<rparr>))"

definition on_broker ::
  "(RunnerBrokerError \<Rightarrow> RunnerError) \<Rightarrow> ('r RunnerBroker \<Rightarrow> ('r RunnerBroker, RunnerBrokerError, 'a) action) \<Rightarrow>
   ('g, 'r) Runner \<Rightarrow> (('g, 'r) Runner, RunnerError, 'a) action" where
  "on_broker e m r = (case m (rn_broker r) of (out, b) \<Rightarrow> (map_err e out, r\<lparr>rn_broker := b\<rparr>))"

definition handle_advance ::
  "u64 \<Rightarrow> u64 \<Rightarrow> InputMetadata \<Rightarrow> byte list \<Rightarrow> ('g, 'r) Runner \<Rightarrow> (('g, 'r) Runner, RunnerError, unit) action" where
  "handle_advance idx sent m payload r =
     (let input_index = sent - 1 in
      and_then (on_server AdvanceError (smf_advance_state idx input_index m payload) r) (\<lambda>outputs r.
        on_broker ProduceOutputsError (produce_outputs outputs) r))"

definition handle_finish ::
  "(byte list \<Rightarrow> Hash) \<Rightarrow> u64 \<Rightarrow> ('g, 'r) Runner \<Rightarrow> (('g, 'r) Runner, RunnerError, unit) action" where
  "handle_finish keccak idx r =
     (case on_server id (smf_finish_epoch keccak idx) r of
        (Ok (claim, proofs), r) \<Rightarrow>
          and_then (on_broker ProduceOutputsError (produce_outputs proofs) r) (\<lambda>_ r.
            on_broker ProduceClaimError (produce_rollups_claim claim) r)
      | (Err (EmptyEpochError i), r) \<Rightarrow> (Ok (), r)
      | (Err e, r) \<Rightarrow> (Err (FinishEpochError e), r)
      | (Panic, r) \<Rightarrow> (Panic, r))"

definition handle_event ::
  "(byte list \<Rightarrow> Hash) \<Rightarrow> RollupsInput \<Rightarrow> ('g, 'r) Runner \<Rightarrow> (('g, 'r) Runner, RunnerError, unit) action" where
  "handle_event keccak event r =
     (case ri_data event of
        AdvanceStateInput input \<Rightarrow>
          handle_advance (epoch_index event) (inputs_sent_count event) (adv_metadata input) (adv_payload input) r
      | FinishEpoch \<Rightarrow> handle_finish keccak (epoch_index event) r)"

text \<open>One iteration of the loop of \<open>Runner::start\<close>, and the iterations until it fails.\<close>

definition runner_iteration ::
  "(byte list \<Rightarrow> Hash) \<Rightarrow> ('g, 'r) Runner \<Rightarrow> (('g, 'r) Runner, RunnerError, unit) action option" where
  "runner_iteration keccak r =
     (case consume_input (rn_broker r) of
        None \<Rightarrow> None
      | Some (out, b) \<Rightarrow>
          Some (and_then (map_err ConsumeInputError out, r\<lparr>rn_broker := b\<rparr>) (handle_event keccak)))"

partial_function (option) runner_start ::
  "(byte list \<Rightarrow> Hash) \<Rightarrow> ('g, 'r) Runner \<Rightarrow> (('g, 'r) Runner, RunnerError, unit) action option" where
  "runner_start keccak r =
     (case runner_iteration keccak r of
        None \<Rightarrow> None
      | Some (Ok u, r') \<Rightarrow> runner_start keccak r'
      | Some (Err e, r') \<Rightarrow> Some (Err e, r')
      | Some (Panic, r') \<Rightarrow> Some (Panic, r'))"

text \<open>\<open>start_advance_runner\<close> (lib.rs): the facades, then the loop.  The two connections and the
  streams of the application are arguments.\<close>

datatype AdvanceRunnerError =
    HealthCheckError string
  | StartServerManagerError ServerManagerError
  | StartBrokerError RunnerBrokerError
  | StartRunnerError RunnerError

record AdvanceRunnerConfig =
  arc_server_manager_config :: ServerManagerConfig
  arc_dapp_metadata :: DAppMetadata
  arc_backoff :: nat
  arc_reader_mode :: bool

definition start_advance_runner ::
  "(byte list \<Rightarrow> Hash) \<Rightarrow> (string + 'g ServerManagerClient \<times> 'g) \<Rightarrow> (string + 'r Broker) \<Rightarrow>
   RollupsInput BrokerStream \<Rightarrow> RollupsOutput BrokerStream \<Rightarrow> RollupsClaim BrokerStream \<Rightarrow> AdvanceRunnerConfig \<Rightarrow>
   (AdvanceRunnerError, unit) outcome option" where
  "start_advance_runner keccak sm_connected connected inputs outputs claims config =
     (case server_manager_facade_new sm_connected (dapp_address (arc_dapp_metadata config))
             (arc_server_manager_config config) (arc_backoff config) of
        Err e \<Rightarrow> Some (Err (StartServerManagerError e))
      | Panic \<Rightarrow> Some Panic
      | Ok server_manager \<Rightarrow>
          (case runner_broker_new connected inputs outputs claims (arc_reader_mode config) of
             Err e \<Rightarrow> Some (Err (StartBrokerError e))
           | Panic \<Rightarrow> Some Panic
           | Ok broker \<Rightarrow>
               map_option (\<lambda>(out, r). map_err StartRunnerError out)
                 (runner_start keccak \<lparr> rn_server_manager = server_manager, rn_broker = broker \<rparr>)))"

section \<open>Writing to several streams\<close>

lemma grows_mono: "\<lbrakk>grows W R r r'; V \<subseteq> W\<rbrakk> \<Longrightarrow> grows V R r r'"
  by (auto simp: grows_def)

lemma redis_laws_mono:
  assumes "redis_laws W R" and "V \<subseteq> W"
  shows "redis_laws V R"
proof -
  have "xadd_law V R"
    using assms unfolding redis_laws_def xadd_law_def by (meson Diff_mono grows_mono order_refl subsetD)
  moreover have "xrevrange_law V R"
    using assms unfolding redis_laws_def xrevrange_law_def by (blast intro: grows_mono)
  moreover have "xread_law V R"
    using assms unfolding redis_laws_def xread_law_def by (blast intro: grows_mono)
  ultimately show ?thesis
    using assms(1) by (simp add: redis_laws_def)
qed

text \<open>A stream that, with those of \<open>W\<close>, only this client writes.\<close>

definition owned :: "string set \<Rightarrow> 'p BrokerStream \<Rightarrow> 'r Broker \<Rightarrow> bool" where
  "owned W stream b \<longleftrightarrow> stream_key stream \<in> W \<and> redis_laws W (redis b) \<and> codec_laws stream \<and> decodes stream b"

lemma owned_own: "owned W stream b \<Longrightarrow> own_stream stream b"
  using redis_laws_mono [of W "redis b" "{stream_key stream}"] by (simp add: owned_def own_stream_def)

lemma produce_frame:
  assumes "redis_laws W (redis b)" and "stream_key stream \<in> W" and "produce stream p b = (r, b')"
  shows "redis b' = redis b \<and> grows (W - {stream_key stream}) (redis b) (connection b) (connection b')"
proof (cases "to_json stream p")
  case (Inl e)
  then show ?thesis
    using assms(3) grows_refl by (auto simp: produce_def)
next
  case (Inr json)
  obtain reply conn where x: "xadd (redis b) (stream_key stream) [(''payload'', json)] (connection b) = (reply, conn)"
    by fastforce
  have "grows (W - {stream_key stream}) (redis b) (connection b) conn"
    using assms(1,2) x unfolding redis_laws_def xadd_law_def by blast
  then show ?thesis
    using assms(3) Inr x by (auto simp: produce_def)
qed

lemma peek_frame:
  assumes "redis_laws W (redis b)" and "peek_latest stream b = (r, b')"
  shows "redis b' = redis b \<and> grows W (redis b) (connection b) (connection b')"
proof -
  obtain reply conn where x: "xrevrange_count (redis b) (stream_key stream) (connection b) = (reply, conn)"
    by fastforce
  then have "grows W (redis b) (connection b) conn"
    using assms(1) unfolding redis_laws_def xrevrange_law_def by blast
  then show ?thesis
    using assms(2) x by (auto simp: peek_latest_def)
qed

lemma owned_unchanged:
  assumes "owned W stream b" and "redis b' = redis b" and "grows V (redis b) (connection b) (connection b')"
    and "stream_key stream \<in> V"
  shows "owned W stream b' \<and> stream_log stream b' = stream_log stream b"
proof -
  have "entries stream b' = entries stream b"
    using assms(2-4) by (simp add: entries_def grows_def)
  then show ?thesis
    using assms(1,2) log_same by (auto simp: owned_def)
qed

lemma owned_put:
  assumes "owned W stream b" and "produce stream p b = (r, b')"
  shows "owned W stream b' \<and> r \<noteq> Panic \<and>
    (\<exists>evs. stream_log stream b' = stream_log stream b @ evs \<and> map ev_payload evs \<in> (if is_ok r then {[p]} else {[], [p]}))"
proof -
  have own: "own_stream stream b"
    using assms(1) by (rule owned_own)
  have keep: "redis b' = redis b"
    using produce_frame [OF _ _ assms(2), of W] assms(1) by (simp add: owned_def)
  have "own_stream stream b' \<and> r \<noteq> Panic \<and>
    (\<exists>evs. stream_log stream b' = stream_log stream b @ evs \<and> map ev_payload evs \<in> (if is_ok r then {[p]} else {[], [p]}))"
    by (cases rule: own.put_cases [OF own, of p]) (use assms(2) in auto)
  then show ?thesis
    using assms(1) keep by (auto simp: owned_def own_stream_def)
qed

section \<open>The invariant of the runner\<close>

definition runner_keys :: "'r RunnerBroker \<Rightarrow> string set" where
  "runner_keys b = {stream_key (rb_outputs_stream b), stream_key (rb_claims_stream b)}"

definition outputs_log :: "'r RunnerBroker \<Rightarrow> RollupsOutput list" where
  "outputs_log b = map ev_payload (stream_log (rb_outputs_stream b) (rb_client b))"

definition claims_log :: "'r RunnerBroker \<Rightarrow> RollupsClaim list" where
  "claims_log b = map ev_payload (stream_log (rb_claims_stream b) (rb_client b))"

definition inputs_entries :: "'r RunnerBroker \<Rightarrow> StreamId list" where
  "inputs_entries b = entries (rb_inputs_stream b) (rb_client b)"

text \<open>The runner is the only writer of the outputs and of the claims, and it has consumed the
  first \<open>n\<close> inputs.\<close>

definition runner_inv :: "nat \<Rightarrow> 'r RunnerBroker \<Rightarrow> bool" where
  "runner_inv n b \<longleftrightarrow>
     stream_key (rb_outputs_stream b) \<noteq> stream_key (rb_claims_stream b) \<and>
     owned (runner_keys b) (rb_outputs_stream b) (rb_client b) \<and>
     owned (runner_keys b) (rb_claims_stream b) (rb_client b) \<and>
     at_position (last_id b) n (inputs_entries b)"

text \<open>What never changes, and what only grows.\<close>

definition same_streams :: "'r RunnerBroker \<Rightarrow> 'r RunnerBroker \<Rightarrow> bool" where
  "same_streams b b' \<longleftrightarrow> rb_inputs_stream b' = rb_inputs_stream b \<and> rb_outputs_stream b' = rb_outputs_stream b \<and>
     rb_claims_stream b' = rb_claims_stream b \<and> reader_mode b' = reader_mode b \<and>
     prefix (inputs_entries b) (inputs_entries b')"

lemma same_streams_refl [simp]: "same_streams b b"
  by (simp add: same_streams_def)

lemma same_streams_trans: "\<lbrakk>same_streams a b; same_streams b c\<rbrakk> \<Longrightarrow> same_streams a c"
  by (auto simp: same_streams_def)

lemma grows_prefix: "\<lbrakk>grows W (redis b) (connection b) (connection b'); redis b' = redis b\<rbrakk> \<Longrightarrow>
  prefix (entries stream b) (entries stream b')"
  by (simp add: entries_def grows_def)

lemma produce_output_inv:
  assumes "runner_inv n b" and "on_client (produce (rb_outputs_stream b) p (rb_client b)) b = (r, b')"
  shows "runner_inv n b' \<and> same_streams b b' \<and> last_id b' = last_id b \<and> claims_log b' = claims_log b \<and> r \<noteq> Panic \<and>
    (\<exists>ps. outputs_log b' = outputs_log b @ ps \<and> ps \<in> (if is_ok r then {[p]} else {[], [p]}))"
proof -
  obtain r0 client where p: "produce (rb_outputs_stream b) p (rb_client b) = (r0, client)"
    by (rule prod.exhaust)
  then have b': "b' = b\<lparr>rb_client := client\<rparr>" "r = map_err RunnerBrokerInternalError r0"
    using assms(2) by (auto simp: on_client_def)
  have own: "owned (runner_keys b) (rb_outputs_stream b) (rb_client b)"
    "owned (runner_keys b) (rb_claims_stream b) (rb_client b)"
    and diff: "stream_key (rb_outputs_stream b) \<noteq> stream_key (rb_claims_stream b)"
    and pos: "at_position (last_id b) n (inputs_entries b)"
    using assms(1) by (simp_all add: runner_inv_def)
  have fr: "redis client = redis (rb_client b)"
    "grows (runner_keys b - {stream_key (rb_outputs_stream b)}) (redis (rb_client b)) (connection (rb_client b)) (connection client)"
    using produce_frame [OF _ _ p, of "runner_keys b"] own(1) by (auto simp: owned_def)
  have claims: "owned (runner_keys b) (rb_claims_stream b) client \<and>
      stream_log (rb_claims_stream b) client = stream_log (rb_claims_stream b) (rb_client b)"
    using owned_unchanged [OF own(2) fr] diff by (simp add: runner_keys_def)
  have pre: "prefix (inputs_entries b) (inputs_entries b')"
    using grows_prefix [OF fr(2,1)] by (simp add: inputs_entries_def b')
  have "is_ok r = is_ok r0" "r \<noteq> Panic \<longleftrightarrow> r0 \<noteq> Panic"
    using b'(2) by (cases r0; simp)+
  then show ?thesis
    using owned_put [OF own(1) p] claims pre diff at_position_prefix [OF pos pre]
    by (auto simp: runner_inv_def same_streams_def outputs_log_def claims_log_def runner_keys_def b'(1))
qed

lemma produce_outputs_inv:
  assumes "runner_inv n b" and "produce_outputs xs b = (r, b')"
  shows "runner_inv n b' \<and> same_streams b b' \<and> last_id b' = last_id b \<and> claims_log b' = claims_log b \<and> r \<noteq> Panic \<and>
    (\<exists>ps. outputs_log b' = outputs_log b @ ps \<and> prefix ps xs \<and> (is_ok r \<longrightarrow> ps = xs))"
  using assms
proof (induction xs arbitrary: b)
  case (Cons x xs)
  obtain r1 b1 where one: "on_client (produce (rb_outputs_stream b) x (rb_client b)) b = (r1, b1)"
    by (rule prod.exhaust)
  note step = produce_output_inv [OF Cons.prems(1) one]
  show ?case
  proof (cases r1)
    case (Ok i)
    then have rest: "produce_outputs xs b1 = (r, b')"
      using Cons.prems(2) one by simp
    from Cons.IH [OF _ rest] step obtain ps where "runner_inv n b'" "same_streams b1 b'" "last_id b' = last_id b1"
      "claims_log b' = claims_log b1" "r \<noteq> Panic" "outputs_log b' = outputs_log b1 @ ps" "prefix ps xs"
      "is_ok r \<longrightarrow> ps = xs"
      by blast
    then show ?thesis
      using step Ok same_streams_trans [of b b1 b'] by (intro conjI exI [of _ "x # ps"]) auto
  next
    case (Err e)
    then have "r = Err e" "b' = b1"
      using Cons.prems(2) one by simp_all
    then show ?thesis
      using step Err by auto
  next
    case Panic
    then show ?thesis
      using step by simp
  qed
qed auto

text \<open>A claim is due when its epoch is later than that of the last claim of the stream.\<close>

definition claim_due :: "RollupsClaim \<Rightarrow> RollupsClaim list \<Rightarrow> bool" where
  "claim_due claim log \<longleftrightarrow> log = [] \<or> rc_epoch_index (last log) < rc_epoch_index claim"

lemma peek_claims_inv:
  assumes "runner_inv n b" and "on_client (peek_latest (rb_claims_stream b) (rb_client b)) b = (r, b')"
  shows "runner_inv n b' \<and> same_streams b b' \<and> last_id b' = last_id b \<and> outputs_log b' = outputs_log b \<and>
    claims_log b' = claims_log b \<and> r \<noteq> Panic \<and>
    (\<forall>ev. r = Ok ev \<longrightarrow> map_option ev_payload ev = (if claims_log b = [] then None else Some (last (claims_log b))))"
proof -
  obtain r0 client where p: "peek_latest (rb_claims_stream b) (rb_client b) = (r0, client)"
    by (rule prod.exhaust)
  then have b': "b' = b\<lparr>rb_client := client\<rparr>" "r = map_err RunnerBrokerInternalError r0"
    using assms(2) by (auto simp: on_client_def)
  have own: "owned (runner_keys b) (rb_outputs_stream b) (rb_client b)"
    "owned (runner_keys b) (rb_claims_stream b) (rb_client b)"
    and pos: "at_position (last_id b) n (inputs_entries b)"
    using assms(1) by (simp_all add: runner_inv_def)
  have fr: "redis client = redis (rb_client b)"
    "grows (runner_keys b) (redis (rb_client b)) (connection (rb_client b)) (connection client)"
    using peek_frame [OF _ p, of "runner_keys b"] own(1) by (auto simp: owned_def)
  have both: "owned (runner_keys b) (rb_claims_stream b) client \<and>
      stream_log (rb_claims_stream b) client = stream_log (rb_claims_stream b) (rb_client b)"
    "owned (runner_keys b) (rb_outputs_stream b) client \<and>
      stream_log (rb_outputs_stream b) client = stream_log (rb_outputs_stream b) (rb_client b)"
    using owned_unchanged [OF own(2) fr] owned_unchanged [OF own(1) fr] by (simp_all add: runner_keys_def)
  have pre: "prefix (inputs_entries b) (inputs_entries b')"
    using grows_prefix [OF fr(2,1)] by (simp add: inputs_entries_def b')
  have "r \<noteq> Panic \<and> (\<forall>ev. r = Ok ev \<longrightarrow>
      map_option ev_payload ev = (if claims_log b = [] then None else Some (last (claims_log b))))"
    by (cases rule: own.peek_cases [OF owned_own [OF own(2)]])
      (use p b'(2) in \<open>auto simp: claims_log_def last_map\<close>)
  then show ?thesis
    using both pre assms(1) at_position_prefix [OF pos pre]
    by (simp add: runner_inv_def same_streams_def outputs_log_def claims_log_def runner_keys_def b'(1))
qed

lemma produce_claim_append:
  assumes "runner_inv n b" and "on_client (produce (rb_claims_stream b) claim (rb_client b)) b = (r, b')"
  shows "runner_inv n b' \<and> same_streams b b' \<and> last_id b' = last_id b \<and> outputs_log b' = outputs_log b \<and> r \<noteq> Panic \<and>
    (\<exists>cs. claims_log b' = claims_log b @ cs \<and> cs \<in> (if is_ok r then {[claim]} else {[], [claim]}))"
proof -
  obtain r0 client where p: "produce (rb_claims_stream b) claim (rb_client b) = (r0, client)"
    by (rule prod.exhaust)
  then have b': "b' = b\<lparr>rb_client := client\<rparr>" "r = map_err RunnerBrokerInternalError r0"
    using assms(2) by (auto simp: on_client_def)
  have own: "owned (runner_keys b) (rb_outputs_stream b) (rb_client b)"
    "owned (runner_keys b) (rb_claims_stream b) (rb_client b)"
    and diff: "stream_key (rb_outputs_stream b) \<noteq> stream_key (rb_claims_stream b)"
    and pos: "at_position (last_id b) n (inputs_entries b)"
    using assms(1) by (simp_all add: runner_inv_def)
  have fr: "redis client = redis (rb_client b)"
    "grows (runner_keys b - {stream_key (rb_claims_stream b)}) (redis (rb_client b)) (connection (rb_client b)) (connection client)"
    using produce_frame [OF _ _ p, of "runner_keys b"] own(2) by (auto simp: owned_def)
  have outs: "owned (runner_keys b) (rb_outputs_stream b) client \<and>
      stream_log (rb_outputs_stream b) client = stream_log (rb_outputs_stream b) (rb_client b)"
    using owned_unchanged [OF own(1) fr] diff by (simp add: runner_keys_def)
  have pre: "prefix (inputs_entries b) (inputs_entries b')"
    using grows_prefix [OF fr(2,1)] by (simp add: inputs_entries_def b')
  have "is_ok r = is_ok r0" "r \<noteq> Panic \<longleftrightarrow> r0 \<noteq> Panic"
    using b'(2) by (cases r0; simp)+
  then show ?thesis
    using owned_put [OF own(2) p] outs pre diff at_position_prefix [OF pos pre]
    by (auto simp: runner_inv_def same_streams_def outputs_log_def claims_log_def runner_keys_def b'(1))
qed

lemma produce_claim_inv:
  assumes "runner_inv n b" and "produce_rollups_claim claim b = (r, b')"
  shows "runner_inv n b' \<and> same_streams b b' \<and> last_id b' = last_id b \<and> outputs_log b' = outputs_log b \<and> r \<noteq> Panic \<and>
    (claims_log b' = claims_log b \<or>
     claims_log b' = claims_log b @ [claim] \<and> \<not> reader_mode b \<and> claim_due claim (claims_log b)) \<and>
    (r = Ok () \<longrightarrow> claims_log b' =
       (if \<not> reader_mode b \<and> claim_due claim (claims_log b) then claims_log b @ [claim] else claims_log b))"
proof (cases "reader_mode b")
  case True
  then show ?thesis
    using assms by (auto simp: produce_rollups_claim_def)
next
  case False
  obtain r1 b1 where one: "on_client (peek_latest (rb_claims_stream b) (rb_client b)) b = (r1, b1)"
    by (rule prod.exhaust)
  note pk = peek_claims_inv [OF assms(1) one]
  show ?thesis
  proof (cases r1)
    case (Ok ev)
    have ev: "map_option ev_payload ev = (if claims_log b = [] then None else Some (last (claims_log b)))"
      using pk Ok by blast
    then have due: "\<not> (case ev of Some event \<Rightarrow> rc_epoch_index claim \<le> rc_epoch_index (ev_payload event) | None \<Rightarrow> False)
        \<longleftrightarrow> claim_due claim (claims_log b)"
      by (cases ev) (auto simp: claim_due_def not_le split: if_splits)
    show ?thesis
    proof (cases "claim_due claim (claims_log b)")
      case True
      obtain r2 b2 where two: "on_client (produce (rb_claims_stream b1) claim (rb_client b1)) b1 = (r2, b2)"
        by (rule prod.exhaust)
      have app: "runner_inv n b2 \<and> same_streams b1 b2 \<and> last_id b2 = last_id b1 \<and> outputs_log b2 = outputs_log b1 \<and>
          r2 \<noteq> Panic \<and> (\<exists>cs. claims_log b2 = claims_log b1 @ cs \<and> cs \<in> (if is_ok r2 then {[claim]} else {[], [claim]}))"
        using produce_claim_append [OF _ two] pk by blast
      have "b' = b2" "r = map_ok (\<lambda>_. ()) r2"
        using assms(2) False one Ok True due two by (cases r2; simp add: produce_rollups_claim_def Let_def)+
      then show ?thesis
        using app pk True False same_streams_trans [of b b1 b2] by (cases r2) auto
    next
      case notdue: False
      then have "b' = b1" "r = Ok ()"
        using assms(2) False one Ok due by (auto simp: produce_rollups_claim_def Let_def)
      then show ?thesis
        using pk notdue by simp
    qed
  next
    case (Err e)
    then have "b' = b1" "r = Err e"
      using assms(2) False one by (auto simp: produce_rollups_claim_def)
    then show ?thesis
      using pk by simp
  next
    case Panic
    then show ?thesis
      using pk by simp
  qed
qed

lemma consume_blocking_grows:
  assumes "consume_blocking stream i broker = Some y" and "redis_laws W (redis broker)"
  shows "redis (snd y) = redis broker \<and> grows W (redis broker) (connection broker) (connection (snd y))"
  using assms
proof (induction rule: consume_blocking.raw_induct [rotated 1, consumes 1, case_names step])
  case (step rec stream i broker y)
  obtain reply conn where x: "xread_options (redis broker) [(stream_key stream, i)] (Some (consume_timeout broker))
      (connection broker) = (reply, conn)"
    by fastforce
  obtain r broker' where once: "consume_blocking_once stream i broker = (r, broker')"
    by fastforce
  then have b': "broker' = broker\<lparr>connection := conn\<rparr>"
    using x by (auto simp: consume_blocking_once_def)
  have g: "grows W (redis broker) (connection broker) conn"
    using step.prems x unfolding redis_laws_def xread_law_def by blast
  show ?case
  proof (cases "r = Err ConsumeTimeout")
    case True
    then have "rec stream i broker' = Some y"
      using step.hyps once by simp
    then show ?thesis
      using step.IH [of stream i broker' y] step.prems g b' grows_trans by auto
  next
    case False
    then show ?thesis
      using step.hyps once g b' by auto
  qed
qed

lemma consume_input_cases:
  assumes "runner_inv n b" and "consume_input b = Some (r, b')"
  obtains (Failed) "\<And>p. r \<noteq> Ok p" and "r \<noteq> Panic" and "runner_inv n b'" and "same_streams b b'"
      and "outputs_log b' = outputs_log b" and "claims_log b' = claims_log b"
      and "\<And>e g. r = Err (ParentIdMismatchError e g) \<Longrightarrow> n < length (inputs_entries b') \<and>
        (\<exists>ev. event_try_from (rb_inputs_stream b) (inputs_entries b' ! n) = Ok ev \<and> parent_id (ev_payload ev) \<noteq> last_id b)"
    | (Consumed) ev where "r = Ok (ev_payload ev)" and "runner_inv (Suc n) b'" and "same_streams b b'"
      and "outputs_log b' = outputs_log b" and "claims_log b' = claims_log b"
      and "n < length (inputs_entries b')" and "event_try_from (rb_inputs_stream b) (inputs_entries b' ! n) = Ok ev"
      and "parent_id (ev_payload ev) = last_id b" and "last_id b' = ev_id ev"
proof -
  let ?s = "rb_inputs_stream b"
  obtain r0 client where c: "consume_blocking ?s (last_id b) (rb_client b) = Some (r0, client)"
    using assms(2) by (auto simp: consume_input_def split: option.splits)
  let ?b = "b\<lparr>rb_client := client\<rparr>"
  have own: "owned (runner_keys b) (rb_outputs_stream b) (rb_client b)"
    "owned (runner_keys b) (rb_claims_stream b) (rb_client b)"
    and diff: "stream_key (rb_outputs_stream b) \<noteq> stream_key (rb_claims_stream b)"
    and pos: "at_position (last_id b) n (inputs_entries b)"
    using assms(1) by (simp_all add: runner_inv_def)
  have "redis_laws (runner_keys b) (redis (rb_client b))"
    using own(1) by (simp add: owned_def)
  then have fr: "redis client = redis (rb_client b)"
    "grows (runner_keys b) (redis (rb_client b)) (connection (rb_client b)) (connection client)"
    and reader: "stream_reader ?s (last_id b) n (rb_client b)"
    using consume_blocking_grows [OF c] redis_laws_mono pos by (auto simp: stream_reader_def inputs_entries_def)
  have both: "owned (runner_keys b) (rb_claims_stream b) client \<and>
      stream_log (rb_claims_stream b) client = stream_log (rb_claims_stream b) (rb_client b)"
    "owned (runner_keys b) (rb_outputs_stream b) client \<and>
      stream_log (rb_outputs_stream b) client = stream_log (rb_outputs_stream b) (rb_client b)"
    using owned_unchanged [OF own(2) fr] owned_unchanged [OF own(1) fr] by (simp_all add: runner_keys_def)
  have pre: "prefix (inputs_entries b) (inputs_entries ?b)"
    using grows_prefix [OF fr(2,1)] by (simp add: inputs_entries_def)
  have inv: "runner_inv n ?b" "same_streams b ?b" "outputs_log ?b = outputs_log b" "claims_log ?b = claims_log b"
    using both pre diff at_position_prefix [OF pos pre]
    by (simp_all add: runner_inv_def same_streams_def outputs_log_def claims_log_def runner_keys_def)
  note cases = consume_blocking_cases [OF c reader]
  have run: "(r, b') = and_then (map_err RunnerBrokerInternalError r0, ?b) (\<lambda>event b.
      if parent_id (ev_payload event) \<noteq> last_id b
      then (Err (ParentIdMismatchError (last_id b) (parent_id (ev_payload event))), b)
      else (Ok (ev_payload event), b\<lparr>last_id := ev_id event\<rparr>))"
    using assms(2) c by (simp add: consume_input_def)
  show thesis
  proof (cases r0)
    case (Ok ev)
    then have nxt: "n < length (inputs_entries ?b)" "event_try_from ?s (inputs_entries ?b ! n) = Ok ev"
      using cases by (auto simp: reads_next_def inputs_entries_def)
    show thesis
    proof (cases "parent_id (ev_payload ev) = last_id b")
      case True
      then have b': "r = Ok (ev_payload ev)" "b' = ?b\<lparr>last_id := ev_id ev\<rparr>"
        using run Ok by simp_all
      have "at_position (ev_id ev) (Suc n) (inputs_entries ?b)"
        using at_position_next [OF nxt(1)] event_try_from_id [OF nxt(2)] by simp
      then show thesis
        using b' inv nxt True
        by (intro Consumed [of ev]) (auto simp: runner_inv_def same_streams_def outputs_log_def claims_log_def
            runner_keys_def inputs_entries_def)
    next
      case False
      then have "r = Err (ParentIdMismatchError (last_id b) (parent_id (ev_payload ev)))" "b' = ?b"
        using run Ok by simp_all
      then show thesis
        using inv nxt False by (intro Failed) auto
    qed
  next
    case (Err e)
    then have "r = Err (RunnerBrokerInternalError e)" "b' = ?b"
      using run by simp_all
    then show thesis
      using inv by (intro Failed) auto
  next
    case Panic
    then show thesis
      using cases by (simp add: reads_next_def) (metis event_try_from_no_panic)
  qed
qed

section \<open>Runs of the runner\<close>

lemma on_server_broker: "on_server e m r = (out, r') \<Longrightarrow> rn_broker r' = rn_broker r"
  by (auto simp: on_server_def split: prod.splits)

text \<open>What handling one event may do to the broker.\<close>

definition event_effect :: "Address \<Rightarrow> RollupsInput \<Rightarrow> 'r RunnerBroker \<Rightarrow> 'r RunnerBroker \<Rightarrow> bool" where
  "event_effect dapp event b b' \<longleftrightarrow> same_streams b b' \<and> last_id b' = last_id b \<and>
     prefix (outputs_log b) (outputs_log b') \<and>
     (claims_log b' = claims_log b \<or>
      (\<exists>claim. claims_log b' = claims_log b @ [claim] \<and> \<not> reader_mode b \<and> claim_due claim (claims_log b) \<and>
         ri_data event = FinishEpoch \<and> rc_epoch_index claim = epoch_index event \<and> rc_dapp_address claim = dapp))"

lemma event_effect_refl [simp]: "event_effect dapp event b b"
  by (simp add: event_effect_def)

lemma event_effect_outputs:
  assumes "runner_inv n b" and "produce_outputs xs b = (out, b')"
  shows "runner_inv n b' \<and> event_effect dapp event b b'"
  using produce_outputs_inv [OF assms] by (auto simp: event_effect_def)

lemma handle_event_inv:
  assumes "runner_inv n (rn_broker r)" and "handle_event keccak event r = (out, r')"
  shows "runner_inv n (rn_broker r') \<and>
    event_effect (smf_dapp_address (rn_server_manager r)) event (rn_broker r) (rn_broker r')"
proof (cases "ri_data event")
  case (AdvanceStateInput input)
  obtain o1 r1 where one: "on_server AdvanceError (smf_advance_state (epoch_index event) (inputs_sent_count event - 1)
      (adv_metadata input) (adv_payload input)) r = (o1, r1)"
    by (rule prod.exhaust)
  note b1 = on_server_broker [OF one]
  have "rn_broker r' = rn_broker r \<or> (\<exists>outputs out'. produce_outputs outputs (rn_broker r) = (out', rn_broker r'))"
    using assms(2) AdvanceStateInput one b1
    by (cases o1) (auto simp: handle_event_def handle_advance_def Let_def on_broker_def split: prod.splits)
  then show ?thesis
    using assms(1) event_effect_outputs [OF assms(1)] by auto
next
  case FinishEpoch
  obtain o1 f1 where fin: "smf_finish_epoch keccak (epoch_index event) (rn_server_manager r) = (o1, f1)"
    by (rule prod.exhaust)
  show ?thesis
  proof (cases "\<exists>claim proofs. o1 = Ok (claim, proofs)")
    case True
    then obtain claim proofs where o1: "o1 = Ok (claim, proofs)"
      by blast
    note claim = finish_epoch_claim [OF fin [unfolded o1]]
    obtain o2 b2 where two: "produce_outputs proofs (rn_broker r) = (o2, b2)"
      by (rule prod.exhaust)
    note outs = produce_outputs_inv [OF assms(1) two]
    obtain o3 b3 where three: "produce_rollups_claim claim b2 = (o3, b3)"
      by (rule prod.exhaust)
    have inv2: "runner_inv n b2"
      using outs by blast
    note cl = produce_claim_inv [OF inv2 three]
    have "rn_broker r' = b2 \<or> rn_broker r' = b3"
      using assms(2) FinishEpoch fin o1 two three
      by (cases o2) (auto simp: handle_event_def handle_finish_def on_server_def on_broker_def)
    moreover have "event_effect (smf_dapp_address (rn_server_manager r)) event (rn_broker r) b2"
      using outs by (auto simp: event_effect_def)
    moreover have "event_effect (smf_dapp_address (rn_server_manager r)) event (rn_broker r) b3"
      using outs cl claim FinishEpoch same_streams_trans [of "rn_broker r" b2 b3]
      by (auto simp: event_effect_def same_streams_def)
    ultimately show ?thesis
      using inv2 cl by auto
  next
    case False
    then have "rn_broker r' = rn_broker r"
      using assms(2) FinishEpoch fin
      by (auto simp: handle_event_def handle_finish_def on_server_def split: outcome.splits ServerManagerError.splits)
    then show ?thesis
      using assms(1) by simp
  qed
qed

text \<open>The iterations of the loop that succeed, with the inputs they consumed.\<close>

inductive runner_runs :: "(byte list \<Rightarrow> Hash) \<Rightarrow> ('g, 'r) Runner \<Rightarrow> RollupsInput list \<Rightarrow> ('g, 'r) Runner \<Rightarrow> bool"
  for keccak r0 where
  none: "runner_runs keccak r0 [] r0"
| more: "\<lbrakk>runner_runs keccak r0 evs r; consume_input (rn_broker r) = Some (Ok event, b);
     handle_event keccak event (r\<lparr>rn_broker := b\<rparr>) = (Ok (), r')\<rbrakk> \<Longrightarrow> runner_runs keccak r0 (evs @ [event]) r'"

text \<open>The inputs taken so far are the first entries of the stream, chained by their parents.\<close>

definition consumed :: "RollupsInput BrokerStream \<Rightarrow> StreamId list \<Rightarrow> RollupsInput list \<Rightarrow> bool" where
  "consumed stream es evs \<longleftrightarrow> length evs \<le> length es \<and>
     (\<forall>k < length evs. (\<exists>ev. event_try_from stream (es ! k) = Ok ev \<and> ev_payload ev = evs ! k) \<and>
        parent_id (evs ! k) = (if k = 0 then INITIAL_ID else fst (es ! (k - 1))))"

lemma consumed_prefix: "\<lbrakk>consumed stream es evs; prefix es es'\<rbrakk> \<Longrightarrow> consumed stream es' evs"
  by (auto simp: consumed_def prefix_def nth_append)

lemma consumed_next:
  assumes "consumed stream es evs" and "length evs < length es" and "event_try_from stream (es ! length evs) = Ok ev"
    and "at_position i (length evs) es" and "parent_id (ev_payload ev) = i"
  shows "consumed stream es (evs @ [ev_payload ev])"
  using assms by (auto simp: consumed_def at_position_def nth_append less_Suc_eq)

lemma runner_step_facts:
  assumes "runner_inv n (rn_broker r)" and "consume_input (rn_broker r) = Some (Ok event, b)"
    and "handle_event keccak event (r\<lparr>rn_broker := b\<rparr>) = (out, r')"
  obtains ev where "event = ev_payload ev" and "runner_inv (Suc n) (rn_broker r')" and "same_streams (rn_broker r) b"
    and "event_effect (smf_dapp_address (rn_server_manager r)) event b (rn_broker r')"
    and "claims_log b = claims_log (rn_broker r)" and "outputs_log b = outputs_log (rn_broker r)"
    and "n < length (inputs_entries b)" and "event_try_from (rb_inputs_stream (rn_broker r)) (inputs_entries b ! n) = Ok ev"
    and "parent_id event = last_id (rn_broker r)"
  using assms(1,2)
proof (cases rule: consume_input_cases)
  case (Consumed ev)
  note handled = handle_event_inv [of "Suc n" "r\<lparr>rn_broker := b\<rparr>", OF _ assms(3)]
  show thesis
    by (rule that [of ev]) (use Consumed handled in simp_all)
qed blast

lemma runner_runs_inv:
  assumes "runner_runs keccak r0 evs r" and "runner_inv 0 (rn_broker r0)"
  shows "runner_inv (length evs) (rn_broker r) \<and> same_streams (rn_broker r0) (rn_broker r) \<and>
    consumed (rb_inputs_stream (rn_broker r0)) (inputs_entries (rn_broker r)) evs"
  using assms
proof induction
  case none
  then show ?case
    by (simp add: consumed_def)
next
  case (more evs r event b r')
  then have inv: "runner_inv (length evs) (rn_broker r)" and same: "same_streams (rn_broker r0) (rn_broker r)"
    and cons: "consumed (rb_inputs_stream (rn_broker r0)) (inputs_entries (rn_broker r)) evs"
    by auto
  from inv more.hyps(2,3) obtain ev where ev: "event = ev_payload ev" "runner_inv (Suc (length evs)) (rn_broker r')"
    "same_streams (rn_broker r) b" "same_streams b (rn_broker r')" "length evs < length (inputs_entries b)"
    "event_try_from (rb_inputs_stream (rn_broker r)) (inputs_entries b ! length evs) = Ok ev"
    "parent_id event = last_id (rn_broker r)"
    by (rule runner_step_facts) (auto simp: event_effect_def)
  have pre: "prefix (inputs_entries (rn_broker r)) (inputs_entries b)" "prefix (inputs_entries b) (inputs_entries (rn_broker r'))"
    and stream: "rb_inputs_stream (rn_broker r) = rb_inputs_stream (rn_broker r0)"
    using ev(3,4) same by (simp_all add: same_streams_def)
  have "at_position (last_id (rn_broker r)) (length evs) (inputs_entries b)"
    using inv at_position_prefix [OF _ pre(1)] by (simp add: runner_inv_def)
  then have "consumed (rb_inputs_stream (rn_broker r0)) (inputs_entries b) (evs @ [event])"
    using consumed_next [OF consumed_prefix [OF cons pre(1)] ev(5)] ev(1,6,7) stream by simp
  then show ?case
    using ev(2) consumed_prefix [OF _ pre(2)] same_streams_trans [OF same_streams_trans [OF same ev(3)] ev(4)] by simp
qed

lemma sorted_append_due:
  assumes "sorted_wrt (<) (map rc_epoch_index cs)" and "claim_due claim cs"
  shows "sorted_wrt (<) (map rc_epoch_index (cs @ [claim]))"
proof (cases cs rule: rev_cases)
  case (snoc cs' c)
  then have "\<forall>x \<in> set cs'. rc_epoch_index x < rc_epoch_index c" "rc_epoch_index c < rc_epoch_index claim"
    using assms by (auto simp: sorted_wrt_append claim_due_def)
  then show ?thesis
    using assms(1) snoc by (auto simp: sorted_wrt_append)
qed simp

lemma on_broker_server: "on_broker e m r = (out, r') \<Longrightarrow> rn_server_manager r' = rn_server_manager r"
  by (auto simp: on_broker_def split: prod.splits)

lemma handle_event_dapp:
  assumes "handle_event keccak event r = (out, r')"
  shows "smf_dapp_address (rn_server_manager r') = smf_dapp_address (rn_server_manager r)"
proof (cases "ri_data event")
  case (AdvanceStateInput input)
  let ?m = "smf_advance_state (epoch_index event) (inputs_sent_count event - 1) (adv_metadata input) (adv_payload input)"
  have "rn_server_manager r' = snd (?m (rn_server_manager r))"
    using assms AdvanceStateInput
    by (cases "?m (rn_server_manager r)"; cases "fst (?m (rn_server_manager r))")
       (auto simp: handle_event_def handle_advance_def on_server_def Let_def dest: on_broker_server)
  then show ?thesis
    using advance_state_keeps [OF same_facade_refl] same_facade_fields by metis
next
  case FinishEpoch
  let ?m = "smf_finish_epoch keccak (epoch_index event)"
  obtain o1 f1 where fin: "?m (rn_server_manager r) = (o1, f1)"
    by (rule prod.exhaust)
  have "rn_server_manager r' = f1"
  proof (cases o1)
    case (Ok cp)
    obtain o2 r2 where two: "on_broker ProduceOutputsError (produce_outputs (snd cp)) (r\<lparr>rn_server_manager := f1\<rparr>) = (o2, r2)"
      by (rule prod.exhaust)
    then show ?thesis
      using assms FinishEpoch fin Ok on_broker_server [OF two]
      by (cases cp; cases o2) (auto simp: handle_event_def handle_finish_def on_server_def dest: on_broker_server)
  qed (use assms FinishEpoch fin in \<open>auto simp: handle_event_def handle_finish_def on_server_def split: ServerManagerError.splits\<close>)
  then show ?thesis
    using finish_epoch_keeps [OF same_facade_refl] fin same_facade_fields by (metis snd_conv)
qed

lemma runner_runs_dapp:
  "runner_runs keccak r0 evs r \<Longrightarrow> smf_dapp_address (rn_server_manager r) = smf_dapp_address (rn_server_manager r0)"
  by (induction rule: runner_runs.induct) (auto dest: handle_event_dapp)

section \<open>A runner on a concrete broker\<close>

definition sample_runner_broker :: "mem_server RunnerBroker" where
  "sample_runner_broker = \<lparr>
     rb_client = mem_broker ((\<lambda>_. [])(''i'' := [[(''payload'', show_nat (to_nat mem_input))]])),
     rb_inputs_stream = numbered_stream ''i'', rb_outputs_stream = numbered_stream ''o'',
     rb_claims_stream = numbered_stream ''c'', reader_mode = False, last_id = INITIAL_ID \<rparr>"

definition sample_runner :: "(unit, mem_server) Runner" where
  "sample_runner = \<lparr> rn_server_manager = sample_facade, rn_broker = sample_runner_broker \<rparr>"

lemma sample_inv: "runner_inv 0 sample_runner_broker \<and> claims_log sample_runner_broker = []"
  by (simp add: runner_inv_def sample_runner_broker_def owned_def runner_keys_def
      mem_redis_laws numbered_stream_codec decodes_def mem_entries_def inputs_entries_def at_position_initial
      claims_log_def stream_log_def)

lemma sample_consume:
  "consume_input sample_runner_broker = Some (Ok mem_input, sample_runner_broker\<lparr>last_id := show_nat 1\<rparr>)"
  by (simp add: consume_input_def sample_runner_broker_def consume_blocking.simps consume_blocking_once_def
      mem_broker_def mem_redis_def mem_entries_def after_id_def event_try_from_def numbered_stream_def
      mem_input_def Let_def)

definition sample_done :: "mem_server RunnerBroker" where
  "sample_done = sample_runner_broker\<lparr>last_id := show_nat 1, rb_client := mem_broker
     ((\<lambda>_. [])(''i'' := [[(''payload'', show_nat (to_nat mem_input))]],
        ''c'' := [[(''payload'', show_nat (to_nat sample_claim))]]))\<rparr>"

lemma sample_produce:
  "produce_rollups_claim sample_claim (sample_runner_broker\<lparr>last_id := show_nat 1\<rparr>) = (Ok (), sample_done)"
  by (simp add: produce_rollups_claim_def on_client_def peek_latest_def produce_def sample_done_def
      sample_runner_broker_def mem_broker_def mem_redis_def numbered_stream_def fun_upd_def Let_def
      cong: if_cong)

lemma sample_run:
  "runner_runs (\<lambda>_. zero_hash) sample_runner [mem_input] (sample_runner\<lparr>rn_broker := sample_done\<rparr>)"
proof -
  let ?r = "sample_runner\<lparr>rn_broker := sample_runner_broker\<lparr>last_id := show_nat 1\<rparr>\<rparr>"
  have "handle_event (\<lambda>_. zero_hash) mem_input ?r = (Ok (), sample_runner\<lparr>rn_broker := sample_done\<rparr>)"
    using sample_finish sample_produce
    by (simp add: handle_event_def handle_finish_def mem_input_def on_server_def on_broker_def sample_runner_def)
  moreover have "consume_input (rn_broker sample_runner) = Some (Ok mem_input, sample_runner_broker\<lparr>last_id := show_nat 1\<rparr>)"
    using sample_consume by (simp add: sample_runner_def)
  ultimately show ?thesis
    using runner_runs.more [OF runner_runs.none, of sample_runner mem_input] by simp
qed

lemma sample_claims_log: "claims_log sample_done = [sample_claim]"
  by (simp add: claims_log_def stream_log_def sample_done_def sample_runner_broker_def
      mem_entries_def event_try_from_def numbered_stream_def)

section \<open>Properties of the runner\<close>

text \<open>C9: the runner takes the inputs of its stream in order, each exactly once, from the first
  one on: after any number of iterations the inputs it handled are the first entries of the
  stream, decoded, and each names the entry before it as its parent; it stops with an error
  instead of taking an input that does not.\<close>

theorem runner_consumes_in_order:
  assumes "runner_runs keccak r0 evs r" and "runner_inv 0 (rn_broker r0)"
  shows "consumed (rb_inputs_stream (rn_broker r0)) (inputs_entries (rn_broker r)) evs \<and>
    at_position (last_id (rn_broker r)) (length evs) (inputs_entries (rn_broker r)) \<and>
    (\<forall>e g b. consume_input (rn_broker r) = Some (Err (ParentIdMismatchError e g), b) \<longrightarrow>
      (\<exists>ev. event_try_from (rb_inputs_stream (rn_broker r)) (inputs_entries b ! length evs) = Ok ev \<and>
         parent_id (ev_payload ev) \<noteq> last_id (rn_broker r)))"
proof -
  have inv: "runner_inv (length evs) (rn_broker r)"
    and cons: "consumed (rb_inputs_stream (rn_broker r0)) (inputs_entries (rn_broker r)) evs"
    using runner_runs_inv [OF assms] by blast+
  have "\<exists>ev. event_try_from (rb_inputs_stream (rn_broker r)) (inputs_entries b ! length evs) = Ok ev \<and>
      parent_id (ev_payload ev) \<noteq> last_id (rn_broker r)"
    if "consume_input (rn_broker r) = Some (Err (ParentIdMismatchError e g), b)" for e g b
    using inv that by (cases rule: consume_input_cases) auto
  then show ?thesis
    using inv cons by (auto simp: runner_inv_def)
qed

theorem runner_consumes_in_order_witness:
  "runner_runs (\<lambda>_. zero_hash) sample_runner [mem_input] (sample_runner\<lparr>rn_broker := sample_done\<rparr>) \<and>
   consumed (numbered_stream ''i'') (inputs_entries sample_done) [mem_input] \<and>
   at_position (show_nat 1) 1 (inputs_entries sample_done)"
  using runner_consumes_in_order [OF sample_run] sample_inv sample_run
  by (simp add: sample_runner_def) (simp add: sample_runner_broker_def sample_done_def)




definition foreign_claim :: RollupsClaim where
  "foreign_claim = sample_claim\<lparr>rc_dapp_address := replicate ADDRESS_SIZE 9\<rparr>"

lemma sample_done_inv: "runner_inv 1 sample_done"
  using runner_runs_inv [OF sample_run] sample_inv by (simp add: sample_runner_def)

lemma foreign_suppressed: "produce_rollups_claim foreign_claim sample_done = (Ok (), sample_done)"
  by (simp add: produce_rollups_claim_def on_client_def peek_latest_def sample_done_def foreign_claim_def
      sample_runner_broker_def mem_broker_def mem_redis_def mem_entries_def numbered_stream_def
      event_try_from_def sample_claim_def Let_def)


end

