(* ===== verification/Data_Pagination.thy ===== *)
theory Data_Pagination
  imports Rollups_Events
begin

text \<open>
  Pages of the database queries (\<open>data/src/pagination.rs\<close>, \<open>data/src/error.rs\<close>): the checks of the
  arguments, the window of rows they select, the cursors and the connection that is
  returned.  \<open>i32\<close> is a 32-bit word read with \<open>sint\<close>.

  The base64 engine is a parameter; \<open>from_utf8\<close> and \<open>parse\<close> are those of the standard library.
  A \<open>str\<close> is the list of its bytes, as characters.
\<close>

section \<open>Errors (error.rs)\<close>

datatype ParseIntError = EmptyInt | InvalidDigit | PosOverflow | NegOverflow

datatype DataError =
    DatabaseConnectionError string
  | DatabaseError string
  | ItemNotFound string
  | DecodeUTF8CursorError
  | DecodeBase64CursorError string
  | ParseCursorError ParseIntError
  | MixedPaginationError
  | PaginationCursorError string
  | PaginationLimitError string

section \<open>Decimal numbers of the standard library\<close>

definition i32_range :: "int \<Rightarrow> bool" where
  "i32_range n \<longleftrightarrow> - (2 ^ 31) \<le> n \<and> n < 2 ^ 31"

definition show_i32 :: "i32 \<Rightarrow> string" where
  "show_i32 n = (if sint n < 0 then ''-'' @ show_nat (nat (- sint n)) else show_nat (nat (sint n)))"

definition to_digit :: "char \<Rightarrow> nat option" where
  "to_digit c = (let n = of_char c :: nat in if 48 \<le> n \<and> n \<le> 57 then Some (n - 48) else None)"

text \<open>The loop of \<open>from_str_radix\<close>: each digit is a checked multiplication and a checked addition.\<close>

fun parse_digits :: "bool \<Rightarrow> int \<Rightarrow> string \<Rightarrow> ParseIntError + int" where
  "parse_digits neg acc [] = Inr acc"
| "parse_digits neg acc (c # cs) =
     (case to_digit c of
        None \<Rightarrow> Inl InvalidDigit
      | Some d \<Rightarrow>
          (let mul = acc * 10; next = (if neg then mul - int d else mul + int d) in
           if i32_range mul \<and> i32_range next then parse_digits neg next cs
           else Inl (if neg then NegOverflow else PosOverflow)))"

definition parse_i32 :: "string \<Rightarrow> ParseIntError + i32" where
  "parse_i32 s = map_sum id word_of_int
     (case s of
        [] \<Rightarrow> Inl EmptyInt
      | c # cs \<Rightarrow>
          if cs = [] \<and> (c = CHR ''+'' \<or> c = CHR ''-'') then Inl InvalidDigit
          else if c = CHR ''-'' then parse_digits True 0 cs
          else if c = CHR ''+'' then parse_digits False 0 cs
          else parse_digits False 0 s)"

section \<open>Text of the standard library\<close>

definition continuation :: "byte \<Rightarrow> bool" where
  "continuation b \<longleftrightarrow> 0x80 \<le> b \<and> b \<le> 0xBF"

text \<open>The table of well-formed byte sequences that \<open>from_utf8\<close> checks.\<close>

fun valid_utf8 :: "byte list \<Rightarrow> bool" where
  "valid_utf8 [] = True"
| "valid_utf8 (a # bs) =
     (if a \<le> 0x7F then valid_utf8 bs
      else case bs of
        [] \<Rightarrow> False
      | b # cs \<Rightarrow>
          if 0xC2 \<le> a \<and> a \<le> 0xDF then continuation b \<and> valid_utf8 cs
          else case cs of
            [] \<Rightarrow> False
          | c # ds \<Rightarrow>
              if a = 0xE0 then 0xA0 \<le> b \<and> b \<le> 0xBF \<and> continuation c \<and> valid_utf8 ds
              else if a = 0xED then 0x80 \<le> b \<and> b \<le> 0x9F \<and> continuation c \<and> valid_utf8 ds
              else if 0xE1 \<le> a \<and> a \<le> 0xEF then continuation b \<and> continuation c \<and> valid_utf8 ds
              else case ds of
                [] \<Rightarrow> False
              | d # es \<Rightarrow>
                  if a = 0xF0 then 0x90 \<le> b \<and> b \<le> 0xBF \<and> continuation c \<and> continuation d \<and> valid_utf8 es
                  else if 0xF1 \<le> a \<and> a \<le> 0xF3 then continuation b \<and> continuation c \<and> continuation d \<and> valid_utf8 es
                  else if a = 0xF4 then 0x80 \<le> b \<and> b \<le> 0x8F \<and> continuation c \<and> continuation d \<and> valid_utf8 es
                  else False)"

definition str_bytes :: "string \<Rightarrow> byte list" where
  "str_bytes s = map of_char s"

definition from_utf8 :: "byte list \<Rightarrow> string option" where
  "from_utf8 bs = (if valid_utf8 bs then Some (map (\<lambda>b. char_of (unat b)) bs) else None)"

section \<open>Cursors (pagination.rs)\<close>

record Base64 =
  b64_encode :: "byte list \<Rightarrow> string"
  b64_decode :: "string \<Rightarrow> string + byte list"

definition base64_laws :: "Base64 \<Rightarrow> bool" where
  "base64_laws B \<longleftrightarrow> (\<forall>bs. b64_decode B (b64_encode B bs) = Inr bs)"

record Cursor =
  cursor_offset :: i32

definition cursor_encode :: "Base64 \<Rightarrow> Cursor \<Rightarrow> string" where
  "cursor_encode B c = b64_encode B (str_bytes (show_i32 (cursor_offset c)))"

definition cursor_decode :: "Base64 \<Rightarrow> string \<Rightarrow> (DataError, Cursor) outcome" where
  "cursor_decode B s =
     bind_outcome (from_result DecodeBase64CursorError (b64_decode B s)) (\<lambda>bytes.
     bind_outcome (ok_or DecodeUTF8CursorError (from_utf8 bytes)) (\<lambda>text.
     bind_outcome (from_result ParseCursorError (parse_i32 text)) (\<lambda>offset.
       Ok \<lparr> cursor_offset = offset \<rparr>)))"

section \<open>Windows (pagination.rs)\<close>

definition DEFAULT_PAGINATION_LIMIT :: i32 where
  "DEFAULT_PAGINATION_LIMIT = 1000"

record Pagination =
  pg_total_count :: i32
  pg_offset :: i32
  pg_limit :: i32

text \<open>The two macros; the name of the argument goes into the error.\<close>

definition ensure_cursor :: "Base64 \<Rightarrow> string \<Rightarrow> string \<Rightarrow> i32 \<Rightarrow> (DataError, i32) outcome" where
  "ensure_cursor B name arg total_count =
     bind_outcome (cursor_decode B arg) (\<lambda>cursor.
     bind_outcome (ensure (0 \<le> sint (cursor_offset cursor) \<and> sint (cursor_offset cursor) < sint total_count)
       (PaginationCursorError name)) (\<lambda>_.
       Ok (cursor_offset cursor)))"

definition ensure_limit :: "string \<Rightarrow> i32 option \<Rightarrow> (DataError, i32) outcome" where
  "ensure_limit name arg =
     (case arg of
        Some limit \<Rightarrow>
          bind_outcome (ensure (0 \<le> sint limit) (PaginationLimitError name)) (\<lambda>_.
            Ok (if sint limit \<le> sint DEFAULT_PAGINATION_LIMIT then limit else DEFAULT_PAGINATION_LIMIT))
      | None \<Rightarrow> Ok DEFAULT_PAGINATION_LIMIT)"

definition pagination_new ::
  "Base64 \<Rightarrow> i32 option \<Rightarrow> i32 option \<Rightarrow> string option \<Rightarrow> string option \<Rightarrow> i32 \<Rightarrow> (DataError, Pagination) outcome" where
  "pagination_new B first last_arg after before total_count =
     (let forward = (first \<noteq> None \<or> after \<noteq> None);
          backward = (last_arg \<noteq> None \<or> before \<noteq> None) in
      bind_outcome (ensure (\<not> forward \<or> \<not> backward) MixedPaginationError) (\<lambda>_.
        if backward then
          bind_outcome (case before of
              Some before \<Rightarrow> ensure_cursor B ''before'' before total_count
            | None \<Rightarrow> Ok total_count) (\<lambda>before_offset.
          bind_outcome (ensure_limit ''last'' last_arg) (\<lambda>limit.
            if sint limit \<ge> sint before_offset
            then Ok \<lparr> pg_total_count = total_count, pg_offset = 0, pg_limit = before_offset \<rparr>
            else Ok \<lparr> pg_total_count = total_count, pg_offset = before_offset - limit, pg_limit = limit \<rparr>))
        else
          bind_outcome (case after of
              Some after \<Rightarrow> bind_outcome (ensure_cursor B ''after'' after total_count) (\<lambda>o1. Ok (o1 + 1))
            | None \<Rightarrow> Ok 0) (\<lambda>offset.
          bind_outcome (ensure_limit ''first'' first) (\<lambda>limit.
            if sint (offset + limit) > sint total_count
            then Ok \<lparr> pg_total_count = total_count, pg_offset = offset, pg_limit = total_count - offset \<rparr>
            else Ok \<lparr> pg_total_count = total_count, pg_offset = offset, pg_limit = limit \<rparr>))))"

section \<open>Connections (pagination.rs)\<close>

record 'n Edge =
  ed_node :: 'n
  ed_cursor :: Cursor

record PageInfo =
  start_cursor :: "Cursor option"
  end_cursor :: "Cursor option"
  has_next_page :: bool
  has_previous_page :: bool

record 'n Connection =
  cn_total_count :: i32
  cn_edges :: "'n Edge list"
  cn_page_info :: PageInfo

definition create_connection :: "Pagination \<Rightarrow> 'n list \<Rightarrow> 'n Connection" where
  "create_connection p nodes =
     (let edges = map (\<lambda>(i, node). \<lparr> ed_node = node, ed_cursor = \<lparr> cursor_offset = pg_offset p + of_nat i \<rparr> \<rparr>)
            (List.enumerate 0 nodes);
          (start, previous) = (if edges \<noteq> [] then
              (Some (ed_cursor (hd edges)), sint (cursor_offset (ed_cursor (hd edges))) > 0) else (None, False));
          (stop, more) = (if edges \<noteq> [] then
              (Some (ed_cursor (last edges)), sint (cursor_offset (ed_cursor (last edges))) < sint (pg_total_count p - 1))
            else (None, False))
      in \<lparr> cn_total_count = pg_total_count p, cn_edges = edges,
           cn_page_info = \<lparr> start_cursor = start, end_cursor = stop, has_next_page = more, has_previous_page = previous \<rparr> \<rparr>)"

section \<open>Cursors survive encoding\<close>

lemma digit_to_digit: "digit c \<Longrightarrow> to_digit c = Some (of_char c - 48)"
  by (auto simp: digit_def to_digit_def Let_def)

abbreviation read_from :: "nat \<Rightarrow> string \<Rightarrow> nat" where
  "read_from a s \<equiv> foldl (\<lambda>n c. 10 * n + (of_char c - 48)) a s"

lemma read_from_ge: "a \<le> read_from a s"
proof (induction s arbitrary: a)
  case (Cons c s)
  have "a \<le> 10 * a + (of_char c - 48)"
    by simp
  also have "\<dots> \<le> read_from a (c # s)"
    using Cons.IH [of "10 * a + (of_char c - 48)"] by simp
  finally show ?case .
qed simp

lemma parse_digits_pos:
  "\<lbrakk>list_all digit s; read_from a s < 2 ^ 31\<rbrakk> \<Longrightarrow> parse_digits False (int a) s = Inr (int (read_from a s))"
proof (induction s arbitrary: a)
  case (Cons c s)
  let ?n = "10 * a + (of_char c - 48)"
  have lt: "?n < 2 ^ 31"
    using Cons.prems(2) read_from_ge [of ?n s] by simp
  have "int a * 10 + int (of_char c - 48) = int ?n"
    by simp
  moreover have "i32_range (int a * 10)" "i32_range (int ?n)"
    using lt by (auto simp: i32_range_def)
  ultimately show ?case
    using Cons.IH [of ?n] Cons.prems by (simp add: digit_to_digit Let_def mult.commute [of _ 10])
qed simp

lemma parse_digits_neg:
  "\<lbrakk>list_all digit s; read_from a s \<le> 2 ^ 31\<rbrakk> \<Longrightarrow> parse_digits True (- int a) s = Inr (- int (read_from a s))"
proof (induction s arbitrary: a)
  case (Cons c s)
  let ?n = "10 * a + (of_char c - 48)"
  have lt: "?n \<le> 2 ^ 31"
    using Cons.prems(2) read_from_ge [of ?n s] by simp
  have "- int a * 10 - int (of_char c - 48) = - int ?n"
    by simp
  moreover have "i32_range (- int a * 10)" "i32_range (- int ?n)"
    using lt by (auto simp: i32_range_def)
  ultimately show ?case
    using Cons.IH [of ?n] Cons.prems by (simp add: digit_to_digit Let_def mult.commute [of _ 10])
qed simp

lemma show_nat_all_digits: "list_all digit (show_nat n)"
  using show_nat_digits by (auto simp: list_all_iff)

lemma show_nat_not_Nil: "show_nat n \<noteq> []"
  by (subst show_nat.simps) simp

lemma digit_no_sign: "digit c \<Longrightarrow> c \<noteq> CHR ''+'' \<and> c \<noteq> CHR ''-''"
  by (auto simp: digit_def)

lemma parse_i32_digits:
  assumes "s \<noteq> []" and "list_all digit s"
  shows "parse_i32 s = map_sum id word_of_int (parse_digits False 0 s)"
  using assms by (cases s) (auto simp: parse_i32_def dest: digit_no_sign)

lemma parse_show_i32: "parse_i32 (show_i32 n) = Inr n"
proof (cases "sint n < 0")
  case True
  have "- (2 ^ 31) \<le> sint n"
    using sint_ge [of n] by simp
  then have "read_from 0 (show_nat (nat (- sint n))) \<le> 2 ^ 31"
    using read_show_nat [of "nat (- sint n)"] by (simp add: read_digits_def nat_le_iff)
  from parse_digits_neg [OF show_nat_all_digits this] show ?thesis
    using True show_nat_not_Nil read_show_nat [of "nat (- sint n)"]
    by (simp add: parse_i32_def show_i32_def read_digits_def)
next
  case False
  have "sint n < 2 ^ 31"
    using sint_lt [of n] by simp
  then have "read_from 0 (show_nat (nat (sint n))) < 2 ^ 31"
    using read_show_nat [of "nat (sint n)"] False by (simp add: read_digits_def nat_less_iff)
  from parse_digits_pos [OF show_nat_all_digits this] show ?thesis
    using False read_show_nat [of "nat (sint n)"]
    by (simp add: parse_i32_digits [OF show_nat_not_Nil show_nat_all_digits] show_i32_def read_digits_def)
qed

definition ascii :: "string \<Rightarrow> bool" where
  "ascii s \<longleftrightarrow> list_all (\<lambda>c. of_char c < (128 :: nat)) s"

lemma of_char_lt: "(of_char c :: nat) < 256"
  by (cases c) (simp add: of_char_def split: if_splits)

lemma unat_of_char: "unat (of_char c :: byte) = (of_char c :: nat)"
proof -
  have "(of_nat (of_char c) :: byte) = of_char c"
    by (simp add: of_char_def)
  then show ?thesis
    using of_char_lt [of c] unat_of_nat_small [where ?'a = 8, of "of_char c"] by simp
qed

lemma from_utf8_ascii: "ascii s \<Longrightarrow> from_utf8 (str_bytes s) = Some s"
proof -
  assume s: "ascii s"
  have "(of_char c :: byte) \<le> 0x7F" if "of_char c < (128 :: nat)" for c
    using that unat_of_char [of c] by (simp add: word_le_nat_alt)
  then have "valid_utf8 (str_bytes s)"
    using s by (induction s) (auto simp: str_bytes_def ascii_def)
  then show ?thesis
    by (simp add: from_utf8_def str_bytes_def unat_of_char comp_def)
qed

lemma digit_ascii: "digit c \<Longrightarrow> of_char c < (128 :: nat)"
  by (auto simp: digit_def)

lemma show_i32_ascii: "ascii (show_i32 n)"
  using show_nat_all_digits digit_ascii by (auto simp: ascii_def show_i32_def list_all_iff)

text \<open>A cursor handed out to a client is accepted back unchanged: decoding its encoding gives the
  same cursor, for every offset, negative ones included.\<close>

theorem cursor_roundtrip:
  assumes "base64_laws B"
  shows "cursor_decode B (cursor_encode B c) = Ok c"
  using assms
  by (simp add: cursor_decode_def cursor_encode_def base64_laws_def from_utf8_ascii show_i32_ascii parse_show_i32)

text \<open>A concrete engine that satisfies the law.\<close>

definition plain_base64 :: Base64 where
  "plain_base64 = \<lparr> b64_encode = map (\<lambda>b. char_of (unat b)), b64_decode = (\<lambda>s. Inr (str_bytes s)) \<rparr>"

lemma of_char_char_of_byte: "of_char (char_of (unat b)) = (b :: byte)"
proof -
  have "unat b < 256"
    by (rule order_less_le_trans [OF unsigned_less]) simp
  then have "(of_char (char_of (unat b)) :: nat) = unat b"
    by simp
  then show ?thesis
    by (metis unat_of_char word_unat_eq_iff)
qed

lemma plain_base64_laws: "base64_laws plain_base64"
  by (simp add: base64_laws_def plain_base64_def str_bytes_def of_char_char_of_byte comp_def)

theorem cursor_roundtrip_witness:
  "cursor_decode plain_base64 (cursor_encode plain_base64 \<lparr> cursor_offset = 42 \<rparr>) = Ok \<lparr> cursor_offset = 42 \<rparr>"
  using cursor_roundtrip [OF plain_base64_laws] by simp
section \<open>Windows\<close>

lemma sint_of_nat_small: "n < 2 ^ 31 \<Longrightarrow> sint (of_nat n :: i32) = int n"
  by (simp add: signed_of_nat signed_take_bit_int_eq_self)

lemma nonneg_i32: "0 \<le> sint n \<Longrightarrow> \<exists>k < 2 ^ 31. n = (of_nat k :: i32)"
proof -
  assume "0 \<le> sint n"
  then have "n = of_nat (nat (sint n))"
    by simp
  moreover have "nat (sint n) < 2 ^ 31"
    using sint_lt [of n] by (simp add: nat_less_iff \<open>0 \<le> sint n\<close>)
  ultimately show ?thesis
    by blast
qed

text \<open>The largest count of rows whose windows are computed without overflow.\<close>

definition MAX_ROWS :: nat where
  "MAX_ROWS = 2 ^ 31 - 1 - 1000"

definition window :: "nat \<Rightarrow> nat \<Rightarrow> nat \<Rightarrow> Pagination" where
  "window count o1 l = \<lparr> pg_total_count = of_nat count, pg_offset = of_nat o1, pg_limit = of_nat l \<rparr>"

text \<open>The limit that an argument gives, as a number.\<close>

fun page_size :: "nat option \<Rightarrow> nat" where
  "page_size None = 1000"
| "page_size (Some k) = min k 1000"

lemma page_size_le: "page_size k \<le> 1000"
  by (cases k) auto

lemma ensure_limit_Ok:
  "ensure_limit name (map_option of_nat k) = Ok (of_nat (page_size k))" if "\<forall>n. k = Some n \<longrightarrow> n < 2 ^ 31"
  using that by (cases k) (auto simp: ensure_limit_def DEFAULT_PAGINATION_LIMIT_def sint_of_nat_small min_def)

lemma ensure_limit_inv:
  assumes "ensure_limit name arg = Ok l"
  obtains k where "arg = map_option of_nat k" and "\<forall>n. k = Some n \<longrightarrow> n < 2 ^ 31" and "l = of_nat (page_size k)"
proof (cases arg)
  case None
  show ?thesis
    using assms None by (intro that [of None]) (auto simp: ensure_limit_def DEFAULT_PAGINATION_LIMIT_def)
next
  case (Some n)
  then have "0 \<le> sint n"
    using assms by (auto simp: ensure_limit_def ensure_def split: if_splits)
  then obtain k where k: "k < 2 ^ 31" "n = of_nat k"
    using nonneg_i32 by blast
  have "ensure_limit name arg = Ok (of_nat (page_size (Some k)))"
    using ensure_limit_Ok [of "Some k" name] k Some by simp
  then show ?thesis
    using assms k Some by (intro that [of "Some k"]) auto
qed

lemma ensure_cursor_Ok:
  assumes "base64_laws B" and "count < 2 ^ 31" and "c < count"
  shows "ensure_cursor B name (cursor_encode B \<lparr> cursor_offset = of_nat c \<rparr>) (of_nat count) = Ok (of_nat c)"
  using assms
  by (simp add: ensure_cursor_def cursor_decode_def cursor_encode_def base64_laws_def from_utf8_ascii show_i32_ascii
      parse_show_i32 sint_of_nat_small)

lemma ensure_cursor_inv:
  assumes "ensure_cursor B name arg (of_nat count) = Ok x" and "count < 2 ^ 31"
  obtains c where "x = of_nat c" and "c < count"
proof -
  have "0 \<le> sint x" "sint x < int count"
    using assms by (auto simp: ensure_cursor_def bind_outcome_Ok_iff sint_of_nat_small)
  then show ?thesis
    using nonneg_i32 [of x] by (auto simp: sint_of_nat_small intro: that)
qed

lemma forward_window:
  assumes "count \<le> MAX_ROWS" and "o1 \<le> count"
  shows "(if sint (of_nat o1 + of_nat (page_size k) :: i32) > sint (of_nat count :: i32)
      then \<lparr> pg_total_count = of_nat count, pg_offset = of_nat o1, pg_limit = of_nat count - of_nat o1 \<rparr>
      else \<lparr> pg_total_count = of_nat count, pg_offset = of_nat o1, pg_limit = of_nat (page_size k) \<rparr>) =
    window count o1 (min (page_size k) (count - o1))"
proof -
  have "o1 + page_size k < 2 ^ 31" "count < 2 ^ 31"
    using assms page_size_le [of k] by (simp_all add: MAX_ROWS_def)
  then have "sint (of_nat o1 + of_nat (page_size k) :: i32) = int (o1 + page_size k)" "sint (of_nat count :: i32) = int count"
    using sint_of_nat_small [of "o1 + page_size k"] sint_of_nat_small [of count] by simp_all
  then show ?thesis
    using assms(2) by (auto simp: window_def min_def of_nat_diff)
qed

lemma backward_window:
  assumes "b \<le> count" and "count < 2 ^ 31"
  shows "(if sint (of_nat (page_size k) :: i32) \<ge> sint (of_nat b :: i32)
      then \<lparr> pg_total_count = of_nat count, pg_offset = 0, pg_limit = of_nat b \<rparr>
      else \<lparr> pg_total_count = of_nat count, pg_offset = of_nat b - of_nat (page_size k), pg_limit = of_nat (page_size k) \<rparr>) =
    window count (b - min (page_size k) b) (min (page_size k) b)"
proof -
  have "page_size k < 2 ^ 31" "b < 2 ^ 31"
    using assms page_size_le [of k] by simp_all
  then show ?thesis
    by (auto simp: window_def min_def of_nat_diff sint_of_nat_small)
qed
definition offset_after :: "nat option \<Rightarrow> nat" where
  "offset_after after = (case after of None \<Rightarrow> 0 | Some c \<Rightarrow> Suc c)"

definition cursor_arg :: "Base64 \<Rightarrow> nat option \<Rightarrow> string option" where
  "cursor_arg B = map_option (\<lambda>c. cursor_encode B \<lparr> cursor_offset = of_nat c \<rparr>)"

lemma pagination_forward:
  assumes "base64_laws B" and "count \<le> MAX_ROWS" and "\<forall>n. k = Some n \<longrightarrow> n < 2 ^ 31" and "\<forall>c. after = Some c \<longrightarrow> c < count"
  shows "pagination_new B (map_option of_nat k) None (cursor_arg B after) None (of_nat count) =
    Ok (window count (offset_after after) (min (page_size k) (count - offset_after after)))"
proof -
  have lt: "count < 2 ^ 31"
    using assms(2) by (simp add: MAX_ROWS_def)
  have "(case cursor_arg B after of
      Some after \<Rightarrow> bind_outcome (ensure_cursor B ''after'' after (of_nat count)) (\<lambda>o1. Ok (o1 + 1))
    | None \<Rightarrow> Ok 0) = Ok (of_nat (offset_after after))"
    using ensure_cursor_Ok [OF assms(1) lt] assms(4) by (cases after) (auto simp: cursor_arg_def offset_after_def)
  moreover have "offset_after after \<le> count"
    using assms(4) by (auto simp: offset_after_def Suc_le_eq split: option.splits)
  ultimately show ?thesis
    using forward_window [OF assms(2), of "offset_after after" k] ensure_limit_Ok [OF assms(3)]
    by (auto simp: pagination_new_def Let_def split: if_splits)
qed

lemma pagination_backward:
  assumes "base64_laws B" and "count < 2 ^ 31" and "\<forall>n. k = Some n \<longrightarrow> n < 2 ^ 31" and "\<forall>c. before = Some c \<longrightarrow> c < count"
    and "k \<noteq> None \<or> before \<noteq> None"
  shows "pagination_new B None (map_option of_nat k) None (cursor_arg B before) (of_nat count) =
    (let b = (case before of None \<Rightarrow> count | Some c \<Rightarrow> c) in
     Ok (window count (b - min (page_size k) b) (min (page_size k) b)))"
proof -
  let ?b = "case before of None \<Rightarrow> count | Some c \<Rightarrow> c"
  have "(case cursor_arg B before of
      Some before \<Rightarrow> ensure_cursor B ''before'' before (of_nat count)
    | None \<Rightarrow> Ok (of_nat count)) = Ok (of_nat ?b)"
    using ensure_cursor_Ok [OF assms(1,2)] assms(4) by (cases before) (auto simp: cursor_arg_def)
  moreover have "?b \<le> count"
    using assms(4) by (auto split: option.splits)
  moreover have "map_option of_nat k \<noteq> (None :: i32 option) \<or> cursor_arg B before \<noteq> None"
    using assms(5) by (auto simp: cursor_arg_def)
  ultimately show ?thesis
    using backward_window [OF _ assms(2), of ?b k] ensure_limit_Ok [OF assms(3)]
    by (auto simp: pagination_new_def Let_def split: if_splits)
qed

lemma backward_page:
  assumes "count < 2 ^ 31" and "last_arg \<noteq> None \<or> before \<noteq> None"
    and "pagination_new B first last_arg after before (of_nat count) = Ok p"
  shows "\<exists>o1 l. p = window count o1 l \<and> o1 + l \<le> count \<and> l \<le> 1000"
proof -
  obtain b l where b: "(case before of Some before \<Rightarrow> ensure_cursor B ''before'' before (of_nat count)
      | None \<Rightarrow> Ok (of_nat count)) = Ok b" and l: "ensure_limit ''last'' last_arg = Ok l"
    and p: "p = (if sint l \<ge> sint b
          then \<lparr> pg_total_count = of_nat count, pg_offset = 0, pg_limit = b \<rparr>
          else \<lparr> pg_total_count = of_nat count, pg_offset = b - l, pg_limit = l \<rparr>)"
    using assms(2,3) by (auto simp: pagination_new_def Let_def bind_outcome_Ok_iff split: if_splits)
  from b obtain c where c: "b = of_nat c" "c \<le> count"
    by (cases before) (auto elim!: ensure_cursor_inv [OF _ assms(1)] intro: less_imp_le)
  from l obtain k where k: "l = of_nat (page_size k)"
    by (rule ensure_limit_inv)
  have "p = window count (c - min (page_size k) c) (min (page_size k) c)"
    unfolding p c(1) k by (rule backward_window [OF c(2) assms(1)])
  then show ?thesis
    using c(2) page_size_le [of k] by (intro exI conjI) (assumption, auto simp: min_def)
qed

lemma forward_page:
  assumes "count \<le> MAX_ROWS" and "last_arg = None" and "before = None"
    and "pagination_new B first last_arg after before (of_nat count) = Ok p"
  shows "\<exists>o1 l. p = window count o1 l \<and> o1 + l \<le> count \<and> l \<le> 1000"
proof -
  have lt: "count < 2 ^ 31"
    using assms(1) by (simp add: MAX_ROWS_def)
  obtain o1 l where o1: "(case after of Some after \<Rightarrow>
        bind_outcome (ensure_cursor B ''after'' after (of_nat count)) (\<lambda>o1. Ok (o1 + 1))
      | None \<Rightarrow> Ok 0) = Ok o1" and l: "ensure_limit ''first'' first = Ok l"
    and p: "p = (if sint (o1 + l) > sint (of_nat count :: i32)
          then \<lparr> pg_total_count = of_nat count, pg_offset = o1, pg_limit = of_nat count - o1 \<rparr>
          else \<lparr> pg_total_count = of_nat count, pg_offset = o1, pg_limit = l \<rparr>)"
    using assms(2-4) by (auto simp: pagination_new_def Let_def bind_outcome_Ok_iff split: if_splits)
  have "\<exists>c. o1 = of_nat c \<and> c \<le> count"
  proof (cases after)
    case None
    then show ?thesis
      using o1 by (auto intro: exI [of _ 0])
  next
    case (Some a)
    then obtain d where "o1 = of_nat d + 1" "d < count"
      using o1 by (auto simp: bind_outcome_Ok_iff elim!: ensure_cursor_inv [OF _ lt])
    then show ?thesis
      by (auto intro!: exI [of _ "Suc d"])
  qed
  then obtain c where c: "o1 = of_nat c" "c \<le> count"
    by blast
  from l obtain k where k: "l = of_nat (page_size k)"
    by (rule ensure_limit_inv)
  have "p = window count c (min (page_size k) (count - c))"
    unfolding p c(1) k by (rule forward_window [OF assms(1) c(2)])
  then show ?thesis
    using c(2) page_size_le [of k] by (intro exI conjI) (assumption, auto simp: min_def)
qed

text \<open>Every page that is served is a window of the rows: it starts inside the table, holds at most
  1000 rows and never reaches past the last row, whatever the arguments, as long as the count
  leaves room for one page below the largest 32-bit integer.\<close>

theorem pagination_bounds:
  assumes "count \<le> MAX_ROWS" and "pagination_new B first last_arg after before (of_nat count) = Ok p"
  shows "\<exists>o1 l. p = window count o1 l \<and> o1 + l \<le> count \<and> l \<le> 1000"
proof (cases "last_arg \<noteq> None \<or> before \<noteq> None")
  case True
  then show ?thesis
    using assms by (intro backward_page) (auto simp: MAX_ROWS_def)
next
  case False
  then show ?thesis
    using assms by (intro forward_page) auto
qed

theorem pagination_bounds_witness:
  "\<exists>o1 l. pagination_new plain_base64 (Some 3) None (cursor_arg plain_base64 (Some 3)) None (of_nat 5) = Ok (window 5 o1 l) \<and>
     o1 + l \<le> 5 \<and> l \<le> 1000"
proof -
  have "pagination_new plain_base64 (Some 3) None (cursor_arg plain_base64 (Some 3)) None (of_nat 5) = Ok (window 5 4 1)"
    using pagination_forward [OF plain_base64_laws, of 5 "Some 3" "Some 3"]
    by (simp add: MAX_ROWS_def offset_after_def)
  then show ?thesis
    using pagination_bounds [of 5 plain_base64 "Some 3" None "cursor_arg plain_base64 (Some 3)" None "window 5 4 1"]
    by (simp add: MAX_ROWS_def)
qed
section \<open>Pages of a table\<close>

text \<open>The page of an ordered list of rows.\<close>

definition query_page ::
  "Base64 \<Rightarrow> 'n list \<Rightarrow> i32 option \<Rightarrow> i32 option \<Rightarrow> string option \<Rightarrow> string option \<Rightarrow> (DataError, 'n Connection) outcome" where
  "query_page B rows first last_arg after before =
     bind_outcome (pagination_new B first last_arg after before (of_nat (length rows))) (\<lambda>p.
       Ok (create_connection p
         (if sint (pg_limit p) > 0 then take (nat (sint (pg_limit p))) (drop (nat (sint (pg_offset p))) rows) else [])))"

definition edge_at :: "nat \<Rightarrow> 'n \<Rightarrow> 'n Edge" where
  "edge_at i node = \<lparr> ed_node = node, ed_cursor = \<lparr> cursor_offset = of_nat i \<rparr> \<rparr>"

definition page_of :: "nat \<Rightarrow> nat \<Rightarrow> 'n list \<Rightarrow> 'n Connection" where
  "page_of count o1 nodes = \<lparr> cn_total_count = of_nat count,
     cn_edges = map (\<lambda>i. edge_at (o1 + i) (nodes ! i)) [0..<length nodes],
     cn_page_info = (if nodes = []
       then \<lparr> start_cursor = None, end_cursor = None, has_next_page = False, has_previous_page = False \<rparr>
       else \<lparr> start_cursor = Some \<lparr> cursor_offset = of_nat o1 \<rparr>,
              end_cursor = Some \<lparr> cursor_offset = of_nat (o1 + length nodes - 1) \<rparr>,
              has_next_page = o1 + length nodes < count, has_previous_page = 0 < o1 \<rparr>) \<rparr>"

lemma enumerate_map_nth: "map (\<lambda>(i, x). f i x) (List.enumerate 0 xs) = map (\<lambda>i. f i (xs ! i)) [0..<length xs]"
  by (rule nth_equalityI) (simp_all add: nth_enumerate_eq)

lemma create_connection_window:
  assumes "o1 + length nodes \<le> count" and "count < 2 ^ 31"
  shows "create_connection (window count o1 l) nodes = page_of count o1 nodes"
proof (cases "nodes = []")
  case True
  then show ?thesis
    by (simp add: create_connection_def page_of_def window_def)
next
  case False
  let ?n = "length nodes"
  have edges: "map (\<lambda>(i, node). \<lparr> ed_node = node, ed_cursor = \<lparr> cursor_offset = of_nat o1 + of_nat i \<rparr> \<rparr>)
      (List.enumerate 0 nodes) = map (\<lambda>i. edge_at (o1 + i) (nodes ! i)) [0..<?n]"
    by (simp add: enumerate_map_nth edge_at_def)
  obtain m where m: "?n = Suc m"
    using False by (cases nodes) auto
  then obtain c where c: "count = Suc c" "o1 + m \<le> c"
    using assms(1) by (cases count) auto
  have "sint (of_nat c :: i32) = int c" "sint (of_nat (o1 + m) :: i32) = int (o1 + m)" "sint (of_nat o1 :: i32) = int o1"
    using assms(2) c by (simp_all add: sint_of_nat_small del: of_nat_add)
  moreover have "hd [0..<?n] = 0" "last [0..<?n] = m" "[0..<?n] \<noteq> []"
    by (simp_all add: m hd_append)
  ultimately show ?thesis
    using False unfolding create_connection_def page_of_def window_def
    by (simp add: edges Let_def edge_at_def hd_map last_map c(1)) (simp add: m, linarith)
qed

lemma query_page_window:
  assumes "pagination_new B first last_arg after before (of_nat (length rows)) = Ok (window (length rows) o1 l)"
    and "o1 + l \<le> length rows" and "length rows < 2 ^ 31"
  shows "query_page B rows first last_arg after before = Ok (page_of (length rows) o1 (take l (drop o1 rows)))"
proof -
  have "sint (of_nat o1 :: i32) = int o1" "sint (of_nat l :: i32) = int l"
    using assms(2,3) by (simp_all add: sint_of_nat_small)
  then have "(if sint (pg_limit (window (length rows) o1 l)) > 0
      then take (nat (sint (pg_limit (window (length rows) o1 l)))) (drop (nat (sint (pg_offset (window (length rows) o1 l)))) rows)
      else []) = take l (drop o1 rows)"
    by (simp add: window_def)
  then show ?thesis
    using assms create_connection_window [of o1 "take l (drop o1 rows)" "length rows" l] by (simp add: query_page_def)
qed

lemma query_page_forward:
  assumes "base64_laws B" and "length rows \<le> MAX_ROWS" and "\<forall>n. k = Some n \<longrightarrow> n < 2 ^ 31"
    and "\<forall>c. after = Some c \<longrightarrow> c < length rows"
  shows "query_page B rows (map_option of_nat k) None (cursor_arg B after) None =
    Ok (page_of (length rows) (offset_after after) (take (page_size k) (drop (offset_after after) rows)))"
proof -
  let ?o = "offset_after after"
  have "?o \<le> length rows" "length rows < 2 ^ 31"
    using assms(2,4) by (auto simp: offset_after_def MAX_ROWS_def Suc_le_eq split: option.splits)
  then have "query_page B rows (map_option of_nat k) None (cursor_arg B after) None =
      Ok (page_of (length rows) ?o (take (min (page_size k) (length rows - ?o)) (drop ?o rows)))"
    by (intro query_page_window pagination_forward assms) auto
  moreover have "take (min (page_size k) (length rows - ?o)) (drop ?o rows) = take (page_size k) (drop ?o rows)"
    by (simp add: min_def)
  ultimately show ?thesis
    by simp
qed

lemma query_page_backward:
  assumes "base64_laws B" and "length rows < 2 ^ 31" and "\<forall>n. k = Some n \<longrightarrow> n < 2 ^ 31"
    and "\<forall>c. before = Some c \<longrightarrow> c < length rows" and "k \<noteq> None \<or> before \<noteq> None"
    and "b = (case before of None \<Rightarrow> length rows | Some c \<Rightarrow> c)"
  shows "query_page B rows None (map_option of_nat k) None (cursor_arg B before) =
    Ok (page_of (length rows) (b - page_size k) (drop (b - page_size k) (take b rows)))"
proof -
  let ?m = "min (page_size k) b"
  have b: "b \<le> length rows"
    using assms(4,6) by (auto split: option.splits)
  have "query_page B rows None (map_option of_nat k) None (cursor_arg B before) =
      Ok (page_of (length rows) (b - ?m) (take ?m (drop (b - ?m) rows)))"
    using pagination_backward [OF assms(1-5)] b assms(2,6) by (intro query_page_window) (auto simp: Let_def)
  moreover have "take ?m (drop (b - ?m) rows) = drop (b - page_size k) (take b rows)" "b - ?m = b - page_size k"
    by (auto simp: min_def drop_take)
  ultimately show ?thesis
    by simp
qed
section \<open>Reading a whole table page by page\<close>

text \<open>A client that follows the end cursors while there is a next page, and one that follows the
  start cursors backwards; \<open>None\<close> when the number of requests is used up.\<close>

fun walk_forward :: "Base64 \<Rightarrow> i32 option \<Rightarrow> nat \<Rightarrow> string option \<Rightarrow> 'n list \<Rightarrow> (DataError, 'n list) outcome option" where
  "walk_forward B first 0 after rows = None"
| "walk_forward B first (Suc n) after rows =
     (case query_page B rows first None after None of
        Ok c \<Rightarrow>
          if has_next_page (cn_page_info c)
          then map_option (map_ok (\<lambda>rest. map ed_node (cn_edges c) @ rest))
                 (walk_forward B first n (map_option (cursor_encode B) (end_cursor (cn_page_info c))) rows)
          else Some (Ok (map ed_node (cn_edges c)))
      | Err e \<Rightarrow> Some (Err e)
      | Panic \<Rightarrow> Some Panic)"

fun walk_backward :: "Base64 \<Rightarrow> i32 option \<Rightarrow> nat \<Rightarrow> string option \<Rightarrow> 'n list \<Rightarrow> (DataError, 'n list) outcome option" where
  "walk_backward B last_arg 0 before rows = None"
| "walk_backward B last_arg (Suc n) before rows =
     (case query_page B rows None last_arg None before of
        Ok c \<Rightarrow>
          if has_previous_page (cn_page_info c)
          then map_option (map_ok (\<lambda>rest. rest @ map ed_node (cn_edges c)))
                 (walk_backward B last_arg n (map_option (cursor_encode B) (start_cursor (cn_page_info c))) rows)
          else Some (Ok (map ed_node (cn_edges c)))
      | Err e \<Rightarrow> Some (Err e)
      | Panic \<Rightarrow> Some Panic)"

lemma page_nodes: "map ed_node (cn_edges (page_of count o1 nodes)) = nodes"
  by (simp add: page_of_def edge_at_def comp_def map_nth)

lemma walk_forward_from:
  assumes "base64_laws B" and "length rows \<le> MAX_ROWS" and "k < 2 ^ 31" and "0 < k"
    and "\<forall>c. after = Some c \<longrightarrow> Suc c < length rows" and "length rows \<le> n + offset_after after" and "0 < n"
  shows "walk_forward B (Some (of_nat k)) n (cursor_arg B after) rows = Some (Ok (drop (offset_after after) rows))"
  using assms(5-7)
proof (induction n arbitrary: after)
  case (Suc n)
  let ?o = "offset_after after" and ?s = "page_size (Some k)"
  let ?nodes = "take ?s (drop ?o rows)"
  have page: "query_page B rows (Some (of_nat k)) None (cursor_arg B after) None = Ok (page_of (length rows) ?o ?nodes)"
    using query_page_forward [OF assms(1,2), of "Some k" after] assms(3) Suc.prems(1) by (simp add: Suc_lessD)
  show ?case
  proof (cases "?o + ?s < length rows")
    case True
    let ?next = "Some (?o + ?s - 1)"
    have more: "?nodes \<noteq> []" "length ?nodes = ?s" "offset_after ?next = ?o + ?s"
      using True assms(4) by (auto simp: offset_after_def)
    then have info: "has_next_page (cn_page_info (page_of (length rows) ?o ?nodes))"
      "end_cursor (cn_page_info (page_of (length rows) ?o ?nodes)) = Some \<lparr> cursor_offset = of_nat (?o + ?s - 1) \<rparr>"
      using True by (simp_all add: page_of_def)
    have "walk_forward B (Some (of_nat k)) n (cursor_arg B ?next) rows = Some (Ok (drop (?o + ?s) rows))"
    proof -
      have "\<forall>c. ?next = Some c \<longrightarrow> Suc c < length rows" "length rows \<le> n + offset_after ?next" "0 < n"
        using True Suc.prems(2) assms(4) more(3) by auto
      from Suc.IH [OF this] more(3) show ?thesis
        by simp
    qed
    moreover have "?nodes @ drop (?o + ?s) rows = drop ?o rows"
      by (metis add.commute append_take_drop_id drop_drop)
    ultimately show ?thesis
      using page info by (simp add: cursor_arg_def page_nodes)
  next
    case False
    then have "length (drop ?o rows) \<le> ?s"
      by simp linarith
    then have "?nodes = drop ?o rows"
      by (rule take_all)
    moreover have "\<not> has_next_page (cn_page_info (page_of (length rows) ?o (drop ?o rows)))"
      using Suc.prems(1) by (auto simp: page_of_def)
    ultimately show ?thesis
      using page by (simp add: page_nodes)
  qed
qed simp

lemma walk_backward_from:
  assumes "base64_laws B" and "length rows < 2 ^ 31" and "k < 2 ^ 31" and "0 < k"
    and "\<forall>c. before = Some c \<longrightarrow> c < length rows" and "b = (case before of None \<Rightarrow> length rows | Some c \<Rightarrow> c)"
    and "b \<le> n" and "0 < n"
  shows "walk_backward B (Some (of_nat k)) n (cursor_arg B before) rows = Some (Ok (take b rows))"
  using assms(5-8)
proof (induction n arbitrary: before b)
  case (Suc n)
  let ?s = "page_size (Some k)"
  let ?nodes = "drop (b - ?s) (take b rows)"
  have b: "b \<le> length rows"
    using Suc.prems(1,2) by (auto split: option.splits)
  have page: "query_page B rows None (Some (of_nat k)) None (cursor_arg B before) = Ok (page_of (length rows) (b - ?s) ?nodes)"
    using query_page_backward [OF assms(1,2), of "Some k" before b] assms(3) Suc.prems(1,2) by simp
  show ?case
  proof (cases "?s < b")
    case True
    let ?next = "Some (b - ?s)"
    have "?nodes \<noteq> []"
      using True assms(4) b by auto
    then have info: "has_previous_page (cn_page_info (page_of (length rows) (b - ?s) ?nodes))"
      "start_cursor (cn_page_info (page_of (length rows) (b - ?s) ?nodes)) = Some \<lparr> cursor_offset = of_nat (b - ?s) \<rparr>"
      using True by (simp_all add: page_of_def)
    have "walk_backward B (Some (of_nat k)) n (cursor_arg B ?next) rows = Some (Ok (take (b - ?s) rows))"
      by (rule Suc.IH) (use True b Suc.prems(3) assms(4) in auto)
    moreover have "take (b - ?s) rows @ ?nodes = take b rows"
      by (metis append_take_drop_id diff_le_self min.absorb1 take_take)
    ultimately show ?thesis
      using page info by (simp add: cursor_arg_def page_nodes)
  next
    case False
    then have "b - ?s = 0"
      by linarith
    moreover have "\<not> has_previous_page (cn_page_info (page_of (length rows) 0 (take b rows)))"
      by (simp add: page_of_def)
    ultimately show ?thesis
      using page by (simp add: page_nodes)
  qed
qed simp

text \<open>C12: paging loses and repeats nothing: a client that asks for pages of any positive size and
  follows the end cursor while there is a next page reads every row exactly once, in order, and so
  does one that follows the start cursors backwards; as many requests as rows, and at least one,
  are enough.\<close>

theorem pages_cover_the_table:
  assumes "base64_laws B" and "length rows \<le> MAX_ROWS" and "0 < k" and "k < 2 ^ 31" and "length rows \<le> n" and "0 < n"
  shows "walk_forward B (Some (of_nat k)) n None rows = Some (Ok rows) \<and>
    walk_backward B (Some (of_nat k)) n None rows = Some (Ok rows)"
proof
  have none: "cursor_arg B None = None"
    by (simp add: cursor_arg_def)
  show "walk_forward B (Some (of_nat k)) n None rows = Some (Ok rows)"
    using walk_forward_from [OF assms(1,2,4,3), of None n] assms(5,6) by (simp add: none offset_after_def)
  have "length rows < 2 ^ 31"
    using assms(2) by (simp add: MAX_ROWS_def)
  then show "walk_backward B (Some (of_nat k)) n None rows = Some (Ok rows)"
    using walk_backward_from [OF assms(1) _ assms(4,3), of rows None "length rows" n] assms(5,6) by (simp add: none)
qed

theorem pages_cover_the_table_witness:
  "walk_forward plain_base64 (Some (of_nat 2)) 5 None ''abcde'' = Some (Ok ''abcde'') \<and>
   walk_backward plain_base64 (Some (of_nat 2)) 5 None ''abcde'' = Some (Ok ''abcde'')"
  using pages_cover_the_table [OF plain_base64_laws, of "''abcde''" 2 5] by (simp add: MAX_ROWS_def)

end
