(* ===== verification/Data_Repository.thy ===== *)
theory Data_Repository
  imports Data_Pagination "HOL-Library.Product_Lexorder" "HOL-Library.Multiset"
begin

text \<open>
  The database of the node (\<open>data/src/types.rs\<close>, \<open>data/src/repository.rs\<close>): its rows, the queries by
  primary key, the insertions, the update of a status and the paginated queries.

  The database server is a parameter: a table is a record of the statements that the
  repository runs on it, each a function on a state of any type.  \<open>table_laws\<close> says what
  these statements do; \<open>tb_rows\<close>, the rows in the order of the primary key, is only used there.
  Getting a connection from the pool, retried by the backoff, is the statement \<open>db_conn\<close>.
\<close>

section \<open>Rows (types.rs)\<close>

datatype DbCompletionStatus =
    CsUnprocessed | CsAccepted | CsRejected | CsException | CsMachineHalted | CsCycleLimitExceeded
  | CsTimeLimitExceeded | CsPayloadLengthLimitExceeded

fun completion_status_to_sql :: "DbCompletionStatus \<Rightarrow> string" where
  "completion_status_to_sql CsUnprocessed = ''Unprocessed''"
| "completion_status_to_sql CsAccepted = ''Accepted''"
| "completion_status_to_sql CsRejected = ''Rejected''"
| "completion_status_to_sql CsException = ''Exception''"
| "completion_status_to_sql CsMachineHalted = ''MachineHalted''"
| "completion_status_to_sql CsCycleLimitExceeded = ''CycleLimitExceeded''"
| "completion_status_to_sql CsTimeLimitExceeded = ''TimeLimitExceeded''"
| "completion_status_to_sql CsPayloadLengthLimitExceeded = ''PayloadLengthLimitExceeded''"

definition completion_status_from_sql :: "string \<Rightarrow> (string, DbCompletionStatus) outcome" where
  "completion_status_from_sql bytes =
     (if bytes = ''Unprocessed'' then Ok CsUnprocessed
      else if bytes = ''Accepted'' then Ok CsAccepted
      else if bytes = ''Rejected'' then Ok CsRejected
      else if bytes = ''Exception'' then Ok CsException
      else if bytes = ''MachineHalted'' then Ok CsMachineHalted
      else if bytes = ''CycleLimitExceeded'' then Ok CsCycleLimitExceeded
      else if bytes = ''TimeLimitExceeded'' then Ok CsTimeLimitExceeded
      else if bytes = ''PayloadLengthLimitExceeded'' then Ok CsPayloadLengthLimitExceeded
      else Err ''Unrecognized enum variant'')"

text \<open>A timestamp is the number of seconds since the Unix epoch.\<close>

record InputRow =
  in_index :: i32
  in_msg_sender :: "byte list"
  in_tx_hash :: "byte list"
  in_block_number :: i64
  in_timestamp :: int
  in_payload :: "byte list"
  in_status :: DbCompletionStatus

record NoticeRow =
  no_input_index :: i32
  no_index :: i32
  no_payload :: "byte list"

record VoucherRow =
  vo_input_index :: i32
  vo_index :: i32
  vo_destination :: "byte list"
  vo_payload :: "byte list"

record ReportRow =
  re_input_index :: i32
  re_index :: i32
  re_payload :: "byte list"

datatype OutputKind = KindVoucher | KindNotice

fun output_enum_to_sql :: "OutputKind \<Rightarrow> string" where
  "output_enum_to_sql KindVoucher = ''voucher''"
| "output_enum_to_sql KindNotice = ''notice''"

definition output_enum_from_sql :: "string \<Rightarrow> (string, OutputKind) outcome" where
  "output_enum_from_sql bytes =
     (if bytes = ''voucher'' then Ok KindVoucher else if bytes = ''notice'' then Ok KindNotice
      else Err ''Unrecognized enum variant'')"

record ProofRow =
  pr_input_index :: i32
  pr_output_index :: i32
  pr_output_enum :: OutputKind
  pr_validity_input_index_within_epoch :: i32
  pr_validity_output_index_within_input :: i32
  pr_validity_output_hashes_root_hash :: "byte list"
  pr_validity_vouchers_epoch_root_hash :: "byte list"
  pr_validity_notices_epoch_root_hash :: "byte list"
  pr_validity_machine_state_hash :: "byte list"
  pr_validity_output_hash_in_output_hashes_siblings :: "byte list option list"
  pr_validity_output_hashes_in_epoch_siblings :: "byte list option list"
  pr_context :: "byte list"

record InputQueryFilter =
  index_greater_than :: "i32 option"
  index_lower_than :: "i32 option"

text \<open>\<open>VoucherQueryFilter\<close>, \<open>NoticeQueryFilter\<close> and \<open>ReportQueryFilter\<close>, declared by one macro.\<close>

record OutputQueryFilter =
  fl_input_index :: "i32 option"

section \<open>The server\<close>

record ('d, 'row) Table =
  tb_load :: "('row \<Rightarrow> bool) \<Rightarrow> 'd \<Rightarrow> (string + 'row list) \<times> 'd"
  tb_count :: "('row \<Rightarrow> bool) \<Rightarrow> 'd \<Rightarrow> (string + i64) \<times> 'd"
  tb_page :: "('row \<Rightarrow> bool) \<Rightarrow> i64 \<Rightarrow> i64 \<Rightarrow> 'd \<Rightarrow> (string + 'row list) \<times> 'd"
  tb_insert :: "'row \<Rightarrow> 'd \<Rightarrow> (string + unit) \<times> 'd"
  tb_update :: "('row \<Rightarrow> bool) \<Rightarrow> ('row \<Rightarrow> 'row) \<Rightarrow> 'd \<Rightarrow> (string + unit) \<times> 'd"
  tb_rows :: "'d \<Rightarrow> 'row list"

record 'd Database =
  db_conn :: "'d \<Rightarrow> (string + unit) \<times> 'd"
  db_inputs :: "('d, InputRow) Table"
  db_vouchers :: "('d, VoucherRow) Table"
  db_notices :: "('d, NoticeRow) Table"
  db_reports :: "('d, ReportRow) Table"
  db_proofs :: "('d, ProofRow) Table"

record 'd Repository =
  rep_db :: "'d Database"
  rep_state :: 'd

section \<open>Operations (repository.rs)\<close>

definition run_db ::
  "(string \<Rightarrow> DataError) \<Rightarrow> ('d \<Rightarrow> (string + 'a) \<times> 'd) \<Rightarrow> 'd Repository \<Rightarrow> ('d Repository, DataError, 'a) action" where
  "run_db e f r = (case f (rep_state r) of (x, d) \<Rightarrow> (from_result e x, r\<lparr>rep_state := d\<rparr>))"

definition conn :: "'d Repository \<Rightarrow> ('d Repository, DataError, unit) action" where
  "conn r = run_db DatabaseConnectionError (db_conn (rep_db r)) r"

text \<open>The queries by primary key: \<open>load\<close>, then \<open>pop\<close>.\<close>

definition load_last ::
  "('d Database \<Rightarrow> ('d, 'row) Table) \<Rightarrow> ('row \<Rightarrow> bool) \<Rightarrow> 'd Repository \<Rightarrow> ('d Repository, DataError, 'row option) action" where
  "load_last table p r =
     and_then (conn r) (\<lambda>_ r.
     and_then (run_db DatabaseError (tb_load (table (rep_db r)) p) r) (\<lambda>rows r.
       (Ok (if rows = [] then None else Some (last rows)), r)))"

definition get_input :: "i32 \<Rightarrow> 'd Repository \<Rightarrow> ('d Repository, DataError, InputRow) action" where
  "get_input idx r =
     and_then (load_last db_inputs (\<lambda>x. in_index x = idx) r) (\<lambda>row r. (ok_or (ItemNotFound ''input'') row, r))"

definition get_voucher :: "i32 \<Rightarrow> i32 \<Rightarrow> 'd Repository \<Rightarrow> ('d Repository, DataError, VoucherRow) action" where
  "get_voucher idx input_idx r =
     and_then (load_last db_vouchers (\<lambda>x. vo_index x = idx \<and> vo_input_index x = input_idx) r)
       (\<lambda>row r. (ok_or (ItemNotFound ''voucher'') row, r))"

definition get_notice :: "i32 \<Rightarrow> i32 \<Rightarrow> 'd Repository \<Rightarrow> ('d Repository, DataError, NoticeRow) action" where
  "get_notice idx input_idx r =
     and_then (load_last db_notices (\<lambda>x. no_index x = idx \<and> no_input_index x = input_idx) r)
       (\<lambda>row r. (ok_or (ItemNotFound ''notice'') row, r))"

definition get_report :: "i32 \<Rightarrow> i32 \<Rightarrow> 'd Repository \<Rightarrow> ('d Repository, DataError, ReportRow) action" where
  "get_report idx input_idx r =
     and_then (load_last db_reports (\<lambda>x. re_index x = idx \<and> re_input_index x = input_idx) r)
       (\<lambda>row r. (ok_or (ItemNotFound ''report'') row, r))"

definition get_proof_row ::
  "i32 \<Rightarrow> i32 \<Rightarrow> OutputKind \<Rightarrow> 'd Repository \<Rightarrow> ('d Repository, DataError, ProofRow option) action" where
  "get_proof_row input_idx output_idx kind r =
     load_last db_proofs (\<lambda>x. pr_input_index x = input_idx \<and> pr_output_index x = output_idx \<and> pr_output_enum x = kind) r"

definition insert_row ::
  "('d Database \<Rightarrow> ('d, 'row) Table) \<Rightarrow> 'row \<Rightarrow> 'd Repository \<Rightarrow> ('d Repository, DataError, unit) action" where
  "insert_row table row r =
     and_then (conn r) (\<lambda>_ r. run_db DatabaseError (tb_insert (table (rep_db r)) row) r)"

definition insert_input :: "InputRow \<Rightarrow> 'd Repository \<Rightarrow> ('d Repository, DataError, unit) action" where
  "insert_input input r = insert_row db_inputs input r"

definition insert_notice :: "NoticeRow \<Rightarrow> 'd Repository \<Rightarrow> ('d Repository, DataError, unit) action" where
  "insert_notice notice r = insert_row db_notices notice r"

definition insert_voucher :: "VoucherRow \<Rightarrow> 'd Repository \<Rightarrow> ('d Repository, DataError, unit) action" where
  "insert_voucher voucher r = insert_row db_vouchers voucher r"

definition insert_report :: "ReportRow \<Rightarrow> 'd Repository \<Rightarrow> ('d Repository, DataError, unit) action" where
  "insert_report report r = insert_row db_reports report r"

definition insert_proof :: "ProofRow \<Rightarrow> 'd Repository \<Rightarrow> ('d Repository, DataError, unit) action" where
  "insert_proof prf r = insert_row db_proofs prf r"

definition update_input_status ::
  "i32 \<Rightarrow> DbCompletionStatus \<Rightarrow> 'd Repository \<Rightarrow> ('d Repository, DataError, unit) action" where
  "update_input_status input_idx status r =
     and_then (conn r) (\<lambda>_ r.
       run_db DatabaseError
         (tb_update (db_inputs (rep_db r)) (\<lambda>x. in_index x = input_idx) (\<lambda>x. x\<lparr>in_status := status\<rparr>)) r)"

definition input_filter_to_query :: "InputQueryFilter \<Rightarrow> InputRow \<Rightarrow> bool" where
  "input_filter_to_query f x \<longleftrightarrow>
     (case index_greater_than f of Some other \<Rightarrow> sint (in_index x) > sint other | None \<Rightarrow> True) \<and>
     (case index_lower_than f of Some other \<Rightarrow> sint (in_index x) < sint other | None \<Rightarrow> True)"

definition output_filter_to_query :: "('row \<Rightarrow> i32) \<Rightarrow> OutputQueryFilter \<Rightarrow> 'row \<Rightarrow> bool" where
  "output_filter_to_query input_index_of f x \<longleftrightarrow>
     (case fl_input_index f of Some other \<Rightarrow> input_index_of x = other | None \<Rightarrow> True)"

text \<open>The body of \<open>impl_paginated_query\<close>; the count and the limits change width as in the casts.\<close>

definition paginated_query ::
  "Base64 \<Rightarrow> ('d Database \<Rightarrow> ('d, 'row) Table) \<Rightarrow> ('row \<Rightarrow> bool) \<Rightarrow>
   i32 option \<Rightarrow> i32 option \<Rightarrow> string option \<Rightarrow> string option \<Rightarrow>
   'd Repository \<Rightarrow> ('d Repository, DataError, 'row Connection) action" where
  "paginated_query B table p first last_arg after before r =
     and_then (conn r) (\<lambda>_ r.
     and_then (run_db DatabaseError (tb_count (table (rep_db r)) p) r) (\<lambda>count r.
     and_then (pagination_new B first last_arg after before (ucast count), r) (\<lambda>pagination r.
     and_then (if sint (pg_limit pagination) > 0
               then run_db DatabaseError (tb_page (table (rep_db r)) p (scast (pg_limit pagination)) (scast (pg_offset pagination))) r
               else (Ok [], r)) (\<lambda>nodes r.
       (Ok (create_connection pagination nodes), r)))))"

definition get_inputs ::
  "Base64 \<Rightarrow> i32 option \<Rightarrow> i32 option \<Rightarrow> string option \<Rightarrow> string option \<Rightarrow> InputQueryFilter \<Rightarrow>
   'd Repository \<Rightarrow> ('d Repository, DataError, InputRow Connection) action" where
  "get_inputs B first last_arg after before f r =
     paginated_query B db_inputs (input_filter_to_query f) first last_arg after before r"

definition get_vouchers ::
  "Base64 \<Rightarrow> i32 option \<Rightarrow> i32 option \<Rightarrow> string option \<Rightarrow> string option \<Rightarrow> OutputQueryFilter \<Rightarrow>
   'd Repository \<Rightarrow> ('d Repository, DataError, VoucherRow Connection) action" where
  "get_vouchers B first last_arg after before f r =
     paginated_query B db_vouchers (output_filter_to_query vo_input_index f) first last_arg after before r"

definition get_notices ::
  "Base64 \<Rightarrow> i32 option \<Rightarrow> i32 option \<Rightarrow> string option \<Rightarrow> string option \<Rightarrow> OutputQueryFilter \<Rightarrow>
   'd Repository \<Rightarrow> ('d Repository, DataError, NoticeRow Connection) action" where
  "get_notices B first last_arg after before f r =
     paginated_query B db_notices (output_filter_to_query no_input_index f) first last_arg after before r"

definition get_reports ::
  "Base64 \<Rightarrow> i32 option \<Rightarrow> i32 option \<Rightarrow> string option \<Rightarrow> string option \<Rightarrow> OutputQueryFilter \<Rightarrow>
   'd Repository \<Rightarrow> ('d Repository, DataError, ReportRow Connection) action" where
  "get_reports B first last_arg after before f r =
     paginated_query B db_reports (output_filter_to_query re_input_index f) first last_arg after before r"

section \<open>What the server promises\<close>

text \<open>The rows of the five tables, each in the order of its primary key.\<close>

record Rows =
  rw_inputs :: "InputRow list"
  rw_vouchers :: "VoucherRow list"
  rw_notices :: "NoticeRow list"
  rw_reports :: "ReportRow list"
  rw_proofs :: "ProofRow list"

definition view :: "'d Database \<Rightarrow> 'd \<Rightarrow> Rows" where
  "view D d = \<lparr> rw_inputs = tb_rows (db_inputs D) d, rw_vouchers = tb_rows (db_vouchers D) d,
     rw_notices = tb_rows (db_notices D) d, rw_reports = tb_rows (db_reports D) d, rw_proofs = tb_rows (db_proofs D) d \<rparr>"

definition vo_key :: "VoucherRow \<Rightarrow> i32 \<times> i32" where "vo_key x = (vo_input_index x, vo_index x)"
definition no_key :: "NoticeRow \<Rightarrow> i32 \<times> i32" where "no_key x = (no_input_index x, no_index x)"
definition re_key :: "ReportRow \<Rightarrow> i32 \<times> i32" where "re_key x = (re_input_index x, re_index x)"
definition pr_key :: "ProofRow \<Rightarrow> i32 \<times> i32 \<times> OutputKind" where
  "pr_key x = (pr_input_index x, pr_output_index x, pr_output_enum x)"

text \<open>The order of the keys: integers are compared as signed, the values of an enum as declared.\<close>

definition ord32 :: "i32 \<times> i32 \<Rightarrow> int \<times> int" where
  "ord32 k = (sint (fst k), sint (snd k))"

definition ord_proof :: "i32 \<times> i32 \<times> OutputKind \<Rightarrow> int \<times> int \<times> nat" where
  "ord_proof k = (sint (fst k), sint (fst (snd k)), case snd (snd k) of KindVoucher \<Rightarrow> 0 | KindNotice \<Rightarrow> 1)"

text \<open>\<open>INSERT ... ON CONFLICT DO NOTHING\<close>\<close>

definition inserted :: "('row \<Rightarrow> 'k) \<Rightarrow> ('k \<Rightarrow> 'o::linorder) \<Rightarrow> 'row \<Rightarrow> 'row list \<Rightarrow> 'row list" where
  "inserted key ord x rows = (if key x \<in> key ` set rows then rows else insort_key (\<lambda>y. ord (key y)) x rows)"

definition keyed :: "('row \<Rightarrow> 'k) \<Rightarrow> ('k \<Rightarrow> 'o::linorder) \<Rightarrow> 'row list \<Rightarrow> bool" where
  "keyed key ord rows \<longleftrightarrow> sorted (map (\<lambda>x. ord (key x)) rows) \<and> distinct (map key rows)"

definition read_law :: "'d Database \<Rightarrow> ('d, 'row) Table \<Rightarrow> bool" where
  "read_law D T \<longleftrightarrow> (\<forall>p d.
     (\<forall>x d'. tb_load T p d = (x, d') \<longrightarrow> view D d' = view D d \<and>
        (\<forall>xs. x = Inr xs \<longrightarrow> mset xs = mset (filter p (tb_rows T d)))) \<and>
     (\<forall>x d'. tb_count T p d = (x, d') \<longrightarrow> view D d' = view D d \<and>
        (\<forall>n. x = Inr n \<longrightarrow> n = of_nat (length (filter p (tb_rows T d))))) \<and>
     (\<forall>l o1 x d'. tb_page T p l o1 d = (x, d') \<longrightarrow> view D d' = view D d \<and>
        (\<forall>xs. x = Inr xs \<longrightarrow> xs = take (nat (sint l)) (drop (nat (sint o1)) (filter p (tb_rows T d))))))"

text \<open>An insertion that succeeds met its foreign key and stored the row unless its key was taken;
  one that fails either did nothing or its reply was lost.\<close>

definition insert_law ::
  "'d Database \<Rightarrow> ('d, 'row) Table \<Rightarrow> (Rows \<Rightarrow> Rows \<Rightarrow> 'row \<Rightarrow> bool) \<Rightarrow> bool" where
  "insert_law D T post \<longleftrightarrow> (\<forall>row d x d'. tb_insert T row d = (x, d') \<longrightarrow>
     (x = Inr () \<longrightarrow> post (view D d) (view D d') row) \<and>
     (\<forall>e. x = Inl e \<longrightarrow> view D d' = view D d \<or> post (view D d) (view D d') row))"

definition has_input :: "i32 \<Rightarrow> Rows \<Rightarrow> bool" where
  "has_input i v \<longleftrightarrow> i \<in> in_index ` set (rw_inputs v)"

definition input_stored :: "Rows \<Rightarrow> Rows \<Rightarrow> InputRow \<Rightarrow> bool" where
  "input_stored v v' row \<longleftrightarrow> v' = v\<lparr>rw_inputs := inserted in_index sint row (rw_inputs v)\<rparr>"

definition voucher_stored :: "Rows \<Rightarrow> Rows \<Rightarrow> VoucherRow \<Rightarrow> bool" where
  "voucher_stored v v' row \<longleftrightarrow> has_input (vo_input_index row) v \<and>
     v' = v\<lparr>rw_vouchers := inserted vo_key ord32 row (rw_vouchers v)\<rparr>"

definition notice_stored :: "Rows \<Rightarrow> Rows \<Rightarrow> NoticeRow \<Rightarrow> bool" where
  "notice_stored v v' row \<longleftrightarrow> has_input (no_input_index row) v \<and>
     v' = v\<lparr>rw_notices := inserted no_key ord32 row (rw_notices v)\<rparr>"

definition report_stored :: "Rows \<Rightarrow> Rows \<Rightarrow> ReportRow \<Rightarrow> bool" where
  "report_stored v v' row \<longleftrightarrow> has_input (re_input_index row) v \<and>
     v' = v\<lparr>rw_reports := inserted re_key ord32 row (rw_reports v)\<rparr>"

definition proof_stored :: "Rows \<Rightarrow> Rows \<Rightarrow> ProofRow \<Rightarrow> bool" where
  "proof_stored v v' row \<longleftrightarrow> v' = v\<lparr>rw_proofs := inserted pr_key ord_proof row (rw_proofs v)\<rparr>"

definition updated_rows :: "('row \<Rightarrow> bool) \<Rightarrow> ('row \<Rightarrow> 'row) \<Rightarrow> 'row list \<Rightarrow> 'row list" where
  "updated_rows p f rows = map (\<lambda>x. if p x then f x else x) rows"

definition update_law :: "'d Database \<Rightarrow> bool" where
  "update_law D \<longleftrightarrow> (\<forall>p f d x d'. tb_update (db_inputs D) p f d = (x, d') \<longrightarrow>
     (let done = (view D d)\<lparr>rw_inputs := updated_rows p f (rw_inputs (view D d))\<rparr> in
      (x = Inr () \<longrightarrow> view D d' = done) \<and> (\<forall>e. x = Inl e \<longrightarrow> view D d' = view D d \<or> view D d' = done)))"

definition rows_keyed :: "Rows \<Rightarrow> bool" where
  "rows_keyed v \<longleftrightarrow> keyed in_index sint (rw_inputs v) \<and> keyed vo_key ord32 (rw_vouchers v) \<and>
     keyed no_key ord32 (rw_notices v) \<and> keyed re_key ord32 (rw_reports v) \<and> keyed pr_key ord_proof (rw_proofs v)"

definition db_laws :: "'d Database \<Rightarrow> bool" where
  "db_laws D \<longleftrightarrow> (\<forall>d x d'. db_conn D d = (x, d') \<longrightarrow> view D d' = view D d) \<and>
     read_law D (db_inputs D) \<and> read_law D (db_vouchers D) \<and> read_law D (db_notices D) \<and>
     read_law D (db_reports D) \<and> read_law D (db_proofs D) \<and>
     insert_law D (db_inputs D) input_stored \<and> insert_law D (db_vouchers D) voucher_stored \<and>
     insert_law D (db_notices D) notice_stored \<and> insert_law D (db_reports D) report_stored \<and>
     insert_law D (db_proofs D) proof_stored \<and> update_law D"

definition rep_view :: "'d Repository \<Rightarrow> Rows" where
  "rep_view r = view (rep_db r) (rep_state r)"

definition rep_ok :: "'d Repository \<Rightarrow> bool" where
  "rep_ok r \<longleftrightarrow> db_laws (rep_db r) \<and> rows_keyed (rep_view r)"

section \<open>The operations on the rows\<close>

lemma distinct_map_insort:
  "\<lbrakk>distinct (map key rows); key x \<notin> key ` set rows\<rbrakk> \<Longrightarrow> distinct (map key (insort_key f x rows))"
  by (induction rows) (auto simp: set_insort_key)

lemma keyed_inserted: "keyed key ord rows \<Longrightarrow> keyed key ord (inserted key ord x rows)"
  by (auto simp: keyed_def inserted_def sorted_insort_key distinct_map_insort)

lemma stored_keyed:
  "\<lbrakk>input_stored v v' x1; rows_keyed v\<rbrakk> \<Longrightarrow> rows_keyed v'"
  "\<lbrakk>voucher_stored v v' x2; rows_keyed v\<rbrakk> \<Longrightarrow> rows_keyed v'"
  "\<lbrakk>notice_stored v v' x3; rows_keyed v\<rbrakk> \<Longrightarrow> rows_keyed v'"
  "\<lbrakk>report_stored v v' x4; rows_keyed v\<rbrakk> \<Longrightarrow> rows_keyed v'"
  "\<lbrakk>proof_stored v v' x5; rows_keyed v\<rbrakk> \<Longrightarrow> rows_keyed v'"
  by (auto simp: rows_keyed_def keyed_inserted input_stored_def voucher_stored_def notice_stored_def
      report_stored_def proof_stored_def)

lemma inserted_again: "key y = key x \<Longrightarrow> inserted key ord y (inserted key ord x rows) = inserted key ord x rows"
  by (auto simp: inserted_def set_insort_key)

lemma set_inserted: "set (inserted key ord x rows) = (if key x \<in> key ` set rows then set rows else insert x (set rows))"
  by (auto simp: inserted_def set_insort_key)

lemma keyed_find:
  "\<lbrakk>distinct (map key rows); x \<in> set rows\<rbrakk> \<Longrightarrow> find (\<lambda>y. key y = key x) rows = Some x"
  by (induction rows) (auto simp: image_iff)

lemma mset_filter_last:
  assumes "distinct (map key rows)" and "mset xs = mset (filter (\<lambda>y. key y = k) rows)"
  shows "(if xs = [] then None else Some (last xs)) = find (\<lambda>y. key y = k) rows"
proof (cases "\<exists>x \<in> set rows. key x = k")
  case True
  then obtain x where x: "x \<in> set rows" "key x = k"
    by blast
  have "filter (\<lambda>y. key y = k) rows = [x]"
    using assms(1) x by (induction rows) (auto simp: filter_empty_conv image_iff)
  then have "xs = [x]"
    using assms(2) by (metis mset_single_iff)
  then show ?thesis
    using keyed_find [OF assms(1) x(1)] x(2) by simp
next
  case False
  then have "filter (\<lambda>y. key y = k) rows = []" "find (\<lambda>y. key y = k) rows = None"
    by (auto simp: filter_empty_conv find_None_iff)
  then show ?thesis
    using assms(2) by simp
qed

lemma run_db_cases:
  assumes "run_db e f r = (out, r')"
  shows "rep_db r' = rep_db r \<and> (\<exists>x. f (rep_state r) = (x, rep_state r') \<and> out = from_result e x)"
  using assms by (auto simp: run_db_def split: prod.splits)

lemma from_result_simps [simp]:
  "from_result f x = Ok a \<longleftrightarrow> x = Inr a" "from_result f x \<noteq> Panic"
  "from_result f x = Err e \<longleftrightarrow> (\<exists>a. x = Inl a \<and> e = f a)"
  by (cases x; auto)+

lemma conn_keeps:
  assumes "rep_ok r" and "conn r = (out, r')"
  shows "rep_db r' = rep_db r \<and> rep_view r' = rep_view r \<and> out \<noteq> Panic"
  using run_db_cases [OF assms(2) [unfolded conn_def]] assms(1) by (auto simp: rep_ok_def db_laws_def rep_view_def)

lemma read_lawD:
  assumes "read_law D T"
  shows "tb_load T p d = (x, d') \<Longrightarrow> view D d' = view D d"
    and "tb_load T p d = (Inr xs, d') \<Longrightarrow> mset xs = mset (filter p (tb_rows T d))"
    and "tb_count T p d = (y, d') \<Longrightarrow> view D d' = view D d"
    and "tb_count T p d = (Inr n, d') \<Longrightarrow> n = of_nat (length (filter p (tb_rows T d)))"
    and "tb_page T p l o1 d = (x, d') \<Longrightarrow> view D d' = view D d"
    and "tb_page T p l o1 d = (Inr xs, d') \<Longrightarrow> xs = take (nat (sint l)) (drop (nat (sint o1)) (filter p (tb_rows T d)))"
  using assms unfolding read_law_def by auto

text \<open>A table and where the view has its rows.\<close>

definition shown :: "'d Repository \<Rightarrow> ('d Database \<Rightarrow> ('d, 'row) Table) \<Rightarrow> (Rows \<Rightarrow> 'row list) \<Rightarrow> bool" where
  "shown r table get \<longleftrightarrow> read_law (rep_db r) (table (rep_db r)) \<and>
     (\<forall>d. tb_rows (table (rep_db r)) d = get (view (rep_db r) d))"

lemma shown_tables:
  assumes "rep_ok r"
  shows "shown r db_inputs rw_inputs" "shown r db_vouchers rw_vouchers" "shown r db_notices rw_notices"
    "shown r db_reports rw_reports" "shown r db_proofs rw_proofs"
  using assms by (simp_all add: shown_def rep_ok_def db_laws_def view_def)

lemma load_last_cases:
  assumes "rep_ok r" and "shown r table get" and "load_last table p r = (out, r')"
  shows "rep_db r' = rep_db r \<and> rep_view r' = rep_view r \<and> out \<noteq> Panic \<and>
    (\<forall>row. out = Ok row \<longrightarrow> (\<exists>xs. mset xs = mset (filter p (get (rep_view r))) \<and>
       row = (if xs = [] then None else Some (last xs))))"
proof -
  obtain o1 r1 where one: "conn r = (o1, r1)"
    by (rule prod.exhaust)
  note c = conn_keeps [OF assms(1) one]
  have v1: "view (rep_db r) (rep_state r1) = rep_view r"
    using c unfolding rep_view_def by metis
  obtain o2 r2 where two: "run_db DatabaseError (tb_load (table (rep_db r1)) p) r1 = (o2, r2)"
    by (rule prod.exhaust)
  from run_db_cases [OF two] obtain x where x: "rep_db r2 = rep_db r1"
    "tb_load (table (rep_db r1)) p (rep_state r1) = (x, rep_state r2)" "o2 = from_result DatabaseError x"
    by blast
  have load: "tb_load (table (rep_db r)) p (rep_state r1) = (x, rep_state r2)"
    using x(2) c by simp
  have law: "read_law (rep_db r) (table (rep_db r))"
    and rows: "tb_rows (table (rep_db r)) (rep_state r1) = get (rep_view r)"
    using assms(2) by (simp_all add: shown_def v1)
  have same: "rep_view r2 = rep_view r1"
    using read_lawD(1) [OF law load] c x(1) by (simp add: rep_view_def)
  have res: "\<forall>xs. x = Inr xs \<longrightarrow> mset xs = mset (filter p (get (rep_view r)))"
    using read_lawD(2) [OF law] load rows by metis
  show ?thesis
  proof (cases o1)
    case (Ok u)
    show ?thesis
    proof (cases x)
      case (Inl e)
      then have "out = Err (DatabaseError e)" "r' = r2"
        using assms(3) one two Ok x(3) by (simp_all add: load_last_def)
      then show ?thesis
        using c x(1) same by simp
    next
      case (Inr xs)
      then have "out = Ok (if xs = [] then None else Some (last xs))" "r' = r2"
        using assms(3) one two Ok x(3) by (simp_all add: load_last_def)
      then show ?thesis
        using c x(1) same res Inr by auto
    qed
  qed (use assms(3) one c in \<open>auto simp: load_last_def\<close>)
qed

lemma insert_row_cases:
  assumes "rep_ok r" and "insert_law (rep_db r) (table (rep_db r)) post" and "insert_row table row r = (out, r')"
    and keyed: "\<And>v v'. \<lbrakk>post v v' row; rows_keyed v\<rbrakk> \<Longrightarrow> rows_keyed v'"
  shows "rep_ok r' \<and> out \<noteq> Panic \<and> (out = Ok () \<longrightarrow> post (rep_view r) (rep_view r') row) \<and>
    (out \<noteq> Ok () \<longrightarrow> rep_view r' = rep_view r \<or> post (rep_view r) (rep_view r') row)"
proof -
  obtain o1 r1 where one: "conn r = (o1, r1)"
    by (rule prod.exhaust)
  note c = conn_keeps [OF assms(1) one]
  have v1: "view (rep_db r) (rep_state r1) = rep_view r"
    using c unfolding rep_view_def by metis
  show ?thesis
  proof (cases o1)
    case (Ok u)
    then have "run_db DatabaseError (tb_insert (table (rep_db r1)) row) r1 = (out, r')"
      using assms(3) one by (simp add: insert_row_def)
    from run_db_cases [OF this] obtain x where x: "rep_db r' = rep_db r"
      "tb_insert (table (rep_db r)) row (rep_state r1) = (x, rep_state r')" "out = from_result DatabaseError x"
      using c by auto
    have "(x = Inr () \<longrightarrow> post (view (rep_db r) (rep_state r1)) (view (rep_db r) (rep_state r')) row) \<and>
        (\<forall>e. x = Inl e \<longrightarrow> view (rep_db r) (rep_state r') = view (rep_db r) (rep_state r1) \<or>
          post (view (rep_db r) (rep_state r1)) (view (rep_db r) (rep_state r')) row)"
      using assms(2) x(2) unfolding insert_law_def by blast
    then have "(x = Inr () \<longrightarrow> post (rep_view r) (rep_view r') row) \<and>
        (\<forall>e. x = Inl e \<longrightarrow> rep_view r' = rep_view r \<or> post (rep_view r) (rep_view r') row)"
      using x(1) unfolding v1 by (simp add: rep_view_def)
    then show ?thesis
      using x assms(1) keyed [of "rep_view r" "rep_view r'"] by (cases x) (auto simp: rep_ok_def)
  qed (use assms(1,3) one c in \<open>auto simp: insert_row_def rep_ok_def\<close>)
qed
section \<open>The contract of a table\<close>

lemma find_key_iff:
  "distinct (map key rows) \<Longrightarrow> find (\<lambda>y. key y = k) rows = Some y \<longleftrightarrow> y \<in> set rows \<and> key y = k"
  by (induction rows) (auto simp: image_iff)

lemma find_inserted:
  assumes "keyed key ord rows"
  shows "find (\<lambda>y. key y = k) (inserted key ord x rows) =
    (if k = key x \<and> k \<notin> key ` set rows then Some x else find (\<lambda>y. key y = k) rows)"
proof -
  have d: "distinct (map key rows)" "distinct (map key (inserted key ord x rows))"
    using assms keyed_inserted [OF assms, of x] by (simp_all add: keyed_def)
  have "find (\<lambda>y. key y = k) (inserted key ord x rows) = Some z \<longleftrightarrow>
      (if k = key x \<and> k \<notin> key ` set rows then Some x else find (\<lambda>y. key y = k) rows) = Some z" for z
    using find_key_iff [OF d(1), of k z] find_key_iff [OF d(2), of k z] by (auto simp: set_inserted)
  then show ?thesis
    by (metis option.exhaust)
qed

text \<open>
  What the users of a table rely on: a row that is stored is found under its key, the first
  row stored under a key stays, and reading changes nothing.
\<close>

locale keyed_store =
  fixes inv :: "'r \<Rightarrow> bool"
    and rows :: "'r \<Rightarrow> 'row list"
    and key :: "'row \<Rightarrow> 'k"
    and ord :: "'k \<Rightarrow> 'o::linorder"
    and put :: "'row \<Rightarrow> 'r \<Rightarrow> ('r, 'e, unit) action"
    and get :: "'k \<Rightarrow> 'r \<Rightarrow> ('r, 'e, 'row option) action"
  assumes put_Ok: "\<lbrakk>inv r; put x r = (Ok (), r')\<rbrakk> \<Longrightarrow> inv r' \<and> rows r' = inserted key ord x (rows r)"
    and put_Err: "\<lbrakk>inv r; put x r = (Err e, r')\<rbrakk> \<Longrightarrow>
      inv r' \<and> (rows r' = rows r \<or> rows r' = inserted key ord x (rows r))"
    and put_no_panic: "inv r \<Longrightarrow> fst (put x r) \<noteq> Panic"
    and get_Ok: "\<lbrakk>inv r; get k r = (Ok row, r')\<rbrakk> \<Longrightarrow>
      inv r' \<and> rows r' = rows r \<and> row = find (\<lambda>y. key y = k) (rows r)"
    and get_Err: "\<lbrakk>inv r; get k r = (Err e, r')\<rbrakk> \<Longrightarrow> inv r' \<and> rows r' = rows r"
    and get_no_panic: "inv r \<Longrightarrow> fst (get k r) \<noteq> Panic"
    and rows_keyed: "inv r \<Longrightarrow> keyed key ord (rows r)"
begin

lemma put_get:
  assumes "inv r" and "put x r = (Ok (), r1)" and "get k r1 = (Ok row, r2)"
  shows "row = (if k = key x \<and> k \<notin> key ` set (rows r) then Some x else find (\<lambda>y. key y = k) (rows r))"
  using get_Ok [OF _ assms(3)] put_Ok [OF assms(1,2)] find_inserted [OF rows_keyed [OF assms(1)]] by auto

lemma put_found:
  assumes "inv r" and "put x r = (Ok (), r1)" and "get (key x) r1 = (Ok row, r2)"
  shows "\<exists>y. row = Some y \<and> key y = key x \<and> (if key x \<in> key ` set (rows r) then y \<in> set (rows r) else y = x)"
proof (cases "key x \<in> key ` set (rows r)")
  case True
  then obtain y where y: "y \<in> set (rows r)" "key y = key x"
    by auto
  have "distinct (map key (rows r))"
    using rows_keyed [OF assms(1)] by (simp add: keyed_def)
  from keyed_find [OF this y(1)] show ?thesis
    using put_get [OF assms] True y by auto
qed (use put_get [OF assms] in auto)

lemma put_again:
  assumes "inv r" and "put x r = (Ok (), r1)" and "key y = key x" and "put y r1 = (out, r2)"
  shows "rows r2 = rows r1"
proof (cases out)
  case (Ok u)
  then show ?thesis
    using put_Ok [OF assms(1,2)] put_Ok [of r1 y r2] assms(3,4) inserted_again [of key y x ord "rows r"] by simp
next
  case (Err e)
  then show ?thesis
    using put_Ok [OF assms(1,2)] put_Err [of r1 y e r2] assms(3,4) inserted_again [of key y x ord "rows r"] by auto
next
  case Panic
  then show ?thesis
    using put_Ok [OF assms(1,2)] put_no_panic [of r1 y] assms(4) by simp
qed

end

lemma load_key:
  assumes "rep_ok r" and "shown r table get" and "keyed key ord (get (rep_view r))"
    and "load_last table (\<lambda>x. key x = k) r = (out, r')"
  shows "rep_ok r' \<and> rep_view r' = rep_view r \<and> out \<noteq> Panic \<and>
    (\<forall>row. out = Ok row \<longrightarrow> row = find (\<lambda>y. key y = k) (get (rep_view r)))"
proof -
  note c = load_last_cases [OF assms(1,2,4)]
  have "row = find (\<lambda>y. key y = k) (get (rep_view r))" if "out = Ok row" for row
  proof -
    from c that obtain xs where "mset xs = mset (filter (\<lambda>x. key x = k) (get (rep_view r)))"
      "row = (if xs = [] then None else Some (last xs))"
      by blast
    then show ?thesis
      using mset_filter_last [of key "get (rep_view r)" xs k] assms(3) by (simp add: keyed_def)
  qed
  then show ?thesis
    using c assms(1) by (simp add: rep_ok_def)
qed

lemma keyed_views:
  assumes "rep_ok r"
  shows "keyed in_index sint (rw_inputs (rep_view r))" "keyed vo_key ord32 (rw_vouchers (rep_view r))"
    "keyed no_key ord32 (rw_notices (rep_view r))" "keyed re_key ord32 (rw_reports (rep_view r))"
    "keyed pr_key ord_proof (rw_proofs (rep_view r))"
  using assms by (simp_all add: rep_ok_def rows_keyed_def)

lemma insert_cases:
  assumes "rep_ok r"
  shows "insert_input x1 r = (out, r') \<Longrightarrow> rep_ok r' \<and> out \<noteq> Panic \<and>
      (out = Ok () \<longrightarrow> input_stored (rep_view r) (rep_view r') x1) \<and>
      (out \<noteq> Ok () \<longrightarrow> rep_view r' = rep_view r \<or> input_stored (rep_view r) (rep_view r') x1)"
    and "insert_voucher x2 r = (out, r') \<Longrightarrow> rep_ok r' \<and> out \<noteq> Panic \<and>
      (out = Ok () \<longrightarrow> voucher_stored (rep_view r) (rep_view r') x2) \<and>
      (out \<noteq> Ok () \<longrightarrow> rep_view r' = rep_view r \<or> voucher_stored (rep_view r) (rep_view r') x2)"
    and "insert_notice x3 r = (out, r') \<Longrightarrow> rep_ok r' \<and> out \<noteq> Panic \<and>
      (out = Ok () \<longrightarrow> notice_stored (rep_view r) (rep_view r') x3) \<and>
      (out \<noteq> Ok () \<longrightarrow> rep_view r' = rep_view r \<or> notice_stored (rep_view r) (rep_view r') x3)"
    and "insert_report x4 r = (out, r') \<Longrightarrow> rep_ok r' \<and> out \<noteq> Panic \<and>
      (out = Ok () \<longrightarrow> report_stored (rep_view r) (rep_view r') x4) \<and>
      (out \<noteq> Ok () \<longrightarrow> rep_view r' = rep_view r \<or> report_stored (rep_view r) (rep_view r') x4)"
    and "insert_proof x5 r = (out, r') \<Longrightarrow> rep_ok r' \<and> out \<noteq> Panic \<and>
      (out = Ok () \<longrightarrow> proof_stored (rep_view r) (rep_view r') x5) \<and>
      (out \<noteq> Ok () \<longrightarrow> rep_view r' = rep_view r \<or> proof_stored (rep_view r) (rep_view r') x5)"
  unfolding insert_input_def insert_voucher_def insert_notice_def insert_report_def insert_proof_def
  by (rule insert_row_cases [OF assms]; use assms stored_keyed in \<open>simp add: rep_ok_def db_laws_def\<close>)+
lemma stored_rows:
  "input_stored v v' x1 \<Longrightarrow> rw_inputs v' = inserted in_index sint x1 (rw_inputs v)"
  "voucher_stored v v' x2 \<Longrightarrow> rw_vouchers v' = inserted vo_key ord32 x2 (rw_vouchers v)"
  "notice_stored v v' x3 \<Longrightarrow> rw_notices v' = inserted no_key ord32 x3 (rw_notices v)"
  "report_stored v v' x4 \<Longrightarrow> rw_reports v' = inserted re_key ord32 x4 (rw_reports v)"
  "proof_stored v v' x5 \<Longrightarrow> rw_proofs v' = inserted pr_key ord_proof x5 (rw_proofs v)"
  by (simp_all add: input_stored_def voucher_stored_def notice_stored_def report_stored_def proof_stored_def)

lemma table_store:
  fixes table :: "'d Database \<Rightarrow> ('d, 'row) Table"
    and put :: "'row \<Rightarrow> 'd Repository \<Rightarrow> ('d Repository, DataError, unit) action"
  assumes put: "\<And>r x out r'. \<lbrakk>rep_ok r; put x r = (out, r')\<rbrakk> \<Longrightarrow> rep_ok r' \<and> out \<noteq> Panic \<and>
      (out = Ok () \<longrightarrow> post (rep_view r) (rep_view r') x) \<and>
      (out \<noteq> Ok () \<longrightarrow> rep_view r' = rep_view r \<or> post (rep_view r) (rep_view r') x)"
    and post: "\<And>v v' x. post v v' x \<Longrightarrow> rows v' = inserted key ord x (rows v)"
    and shown: "\<And>r :: 'd Repository. rep_ok r \<Longrightarrow> shown r table rows"
    and keyed: "\<And>r :: 'd Repository. rep_ok r \<Longrightarrow> keyed key ord (rows (rep_view r))"
  shows "keyed_store rep_ok (\<lambda>r. rows (rep_view r)) key ord put (\<lambda>k. load_last table (\<lambda>x. key x = k))"
proof
  fix r :: "'d Repository" and x r' assume "rep_ok r" "put x r = (Ok (), r')"
  then show "rep_ok r' \<and> rows (rep_view r') = inserted key ord x (rows (rep_view r))"
    using put post by blast
next
  fix r :: "'d Repository" and x e r' assume "rep_ok r" "put x r = (Err e, r')"
  then show "rep_ok r' \<and> (rows (rep_view r') = rows (rep_view r) \<or> rows (rep_view r') = inserted key ord x (rows (rep_view r)))"
    using put [of r x "Err e" r'] post by auto
next
  fix r :: "'d Repository" and x assume "rep_ok r"
  then show "fst (put x r) \<noteq> Panic"
    using put [OF _ prod.collapse [symmetric]] by blast
next
  fix r :: "'d Repository" and k row r' assume "rep_ok r" "load_last table (\<lambda>x. key x = k) r = (Ok row, r')"
  then show "rep_ok r' \<and> rows (rep_view r') = rows (rep_view r) \<and> row = find (\<lambda>y. key y = k) (rows (rep_view r))"
    using load_key [OF _ shown keyed] by metis
next
  fix r :: "'d Repository" and k e r' assume "rep_ok r" "load_last table (\<lambda>x. key x = k) r = (Err e, r')"
  then show "rep_ok r' \<and> rows (rep_view r') = rows (rep_view r)"
    using load_key [OF _ shown keyed] by metis
next
  fix r :: "'d Repository" and k assume "rep_ok r"
  then show "fst (load_last table (\<lambda>x. key x = k) r) \<noteq> Panic"
    using load_key [OF _ shown keyed prod.collapse [symmetric]] by blast
qed (rule keyed)

interpretation input_store: keyed_store rep_ok "\<lambda>r. rw_inputs (rep_view r)" in_index sint insert_input
  "\<lambda>k. load_last db_inputs (\<lambda>x. in_index x = k)"
  by (rule table_store [OF insert_cases(1) stored_rows(1) shown_tables(1) keyed_views(1)])

interpretation voucher_store: keyed_store rep_ok "\<lambda>r. rw_vouchers (rep_view r)" vo_key ord32 insert_voucher
  "\<lambda>k. load_last db_vouchers (\<lambda>x. vo_key x = k)"
  by (rule table_store [OF insert_cases(2) stored_rows(2) shown_tables(2) keyed_views(2)])

interpretation notice_store: keyed_store rep_ok "\<lambda>r. rw_notices (rep_view r)" no_key ord32 insert_notice
  "\<lambda>k. load_last db_notices (\<lambda>x. no_key x = k)"
  by (rule table_store [OF insert_cases(3) stored_rows(3) shown_tables(3) keyed_views(3)])

interpretation report_store: keyed_store rep_ok "\<lambda>r. rw_reports (rep_view r)" re_key ord32 insert_report
  "\<lambda>k. load_last db_reports (\<lambda>x. re_key x = k)"
  by (rule table_store [OF insert_cases(4) stored_rows(4) shown_tables(4) keyed_views(4)])

interpretation proof_store: keyed_store rep_ok "\<lambda>r. rw_proofs (rep_view r)" pr_key ord_proof insert_proof
  "\<lambda>k. load_last db_proofs (\<lambda>x. pr_key x = k)"
  by (rule table_store [OF insert_cases(5) stored_rows(5) shown_tables(5) keyed_views(5)])
section \<open>Updates and pages\<close>

lemma updated_keys: "(\<And>x. key (f x) = key x) \<Longrightarrow> map key (updated_rows p f rows) = map key rows"
  by (simp add: updated_rows_def)

definition status_set :: "i32 \<Rightarrow> DbCompletionStatus \<Rightarrow> Rows \<Rightarrow> Rows" where
  "status_set i st v = v\<lparr>rw_inputs := updated_rows (\<lambda>x. in_index x = i) (\<lambda>x. x\<lparr>in_status := st\<rparr>) (rw_inputs v)\<rparr>"

lemma keyed_updated:
  assumes "keyed key ord rows" and "\<And>x. key (f x) = key x"
  shows "keyed key ord (updated_rows p f rows)"
proof -
  have "map (\<lambda>x. ord (key x)) ys = map ord (map key ys)" for ys
    by simp
  then show ?thesis
    using assms(1) updated_keys [of key f p rows, OF assms(2)] unfolding keyed_def by metis
qed

lemma status_set_keyed: "rows_keyed v \<Longrightarrow> rows_keyed (status_set i st v)"
  by (simp add: rows_keyed_def status_set_def keyed_updated)

lemma update_status_cases:
  assumes "rep_ok r" and "update_input_status i st r = (out, r')"
  shows "rep_ok r' \<and> out \<noteq> Panic \<and> (out = Ok () \<longrightarrow> rep_view r' = status_set i st (rep_view r)) \<and>
    (out \<noteq> Ok () \<longrightarrow> rep_view r' = rep_view r \<or> rep_view r' = status_set i st (rep_view r))"
proof -
  obtain o1 r1 where one: "conn r = (o1, r1)"
    by (rule prod.exhaust)
  note c = conn_keeps [OF assms(1) one]
  have v1: "view (rep_db r) (rep_state r1) = rep_view r"
    using c unfolding rep_view_def by metis
  show ?thesis
  proof (cases o1)
    case (Ok u)
    let ?p = "\<lambda>x. in_index x = i" and ?f = "\<lambda>x. x\<lparr>in_status := st\<rparr>"
    have "run_db DatabaseError (tb_update (db_inputs (rep_db r1)) ?p ?f) r1 = (out, r')"
      using assms(2) one Ok by (simp add: update_input_status_def)
    from run_db_cases [OF this] obtain x where x: "rep_db r' = rep_db r"
      "tb_update (db_inputs (rep_db r)) ?p ?f (rep_state r1) = (x, rep_state r')" "out = from_result DatabaseError x"
      using c by auto
    have "(x = Inr () \<longrightarrow> view (rep_db r) (rep_state r') = status_set i st (rep_view r)) \<and>
        (\<forall>e. x = Inl e \<longrightarrow> view (rep_db r) (rep_state r') = rep_view r \<or>
          view (rep_db r) (rep_state r') = status_set i st (rep_view r))"
      using assms(1) x(2) unfolding rep_ok_def db_laws_def update_law_def Let_def status_set_def v1 [symmetric] by blast
    then have "(x = Inr () \<longrightarrow> rep_view r' = status_set i st (rep_view r)) \<and>
        (\<forall>e. x = Inl e \<longrightarrow> rep_view r' = rep_view r \<or> rep_view r' = status_set i st (rep_view r))"
      using x(1) by (simp add: rep_view_def)
    then show ?thesis
      using x assms(1) status_set_keyed [of "rep_view r" i st] by (cases x) (auto simp: rep_ok_def)
  qed (use assms one c in \<open>auto simp: update_input_status_def rep_ok_def\<close>)
qed

lemma sint_scast_i64: "sint (scast (n :: i32) :: i64) = sint n"
  by (rule sint_up_scast) (simp add: is_up)

lemma ucast_count: "(ucast (of_nat n :: i64) :: i32) = of_nat n"
  by (simp add: word_unat_eq_iff unsigned_ucast_eq unsigned_of_nat)

definition db_failure :: "(DataError, 'a) outcome \<Rightarrow> bool" where
  "db_failure out \<longleftrightarrow> (\<exists>e. out = Err (DatabaseConnectionError e) \<or> out = Err (DatabaseError e))"

lemma page_step:
  assumes "rep_ok r" and "rep_db r2 = rep_db r" and "rep_view r2 = rep_view r"
    and law: "read_law (rep_db r) (table (rep_db r))" and rows: "\<And>d. tb_rows (table (rep_db r)) d = rows (view (rep_db r) d)"
    and run: "and_then (pagination_new B first last_arg after before (of_nat (length (filter p (rows (rep_view r))))), r2)
      (\<lambda>pagination r.
        and_then (if sint (pg_limit pagination) > 0
          then run_db DatabaseError (tb_page (table (rep_db r)) p (scast (pg_limit pagination)) (scast (pg_offset pagination))) r
          else (Ok [], r)) (\<lambda>nodes r. (Ok (create_connection pagination nodes), r))) = (out, r')"
  shows "rep_ok r' \<and> rep_view r' = rep_view r \<and>
    (out = query_page B (filter p (rows (rep_view r))) first last_arg after before \<or> db_failure out)"
proof (cases "pagination_new B first last_arg after before (of_nat (length (filter p (rows (rep_view r)))))")
  case (Ok pg)
  show ?thesis
  proof (cases "sint (pg_limit pg) > 0")
    case True
    obtain o3 r3 where three: "run_db DatabaseError
        (tb_page (table (rep_db r2)) p (scast (pg_limit pg)) (scast (pg_offset pg))) r2 = (o3, r3)"
      by (rule prod.exhaust)
    from run_db_cases [OF three] assms(2) obtain x where x: "rep_db r3 = rep_db r"
      "tb_page (table (rep_db r)) p (scast (pg_limit pg)) (scast (pg_offset pg)) (rep_state r2) = (x, rep_state r3)"
      "o3 = from_result DatabaseError x"
      by auto
    have v: "rep_view r3 = rep_view r" "view (rep_db r) (rep_state r2) = rep_view r"
      using read_lawD(5) [OF law x(2)] assms(2,3) x(1) unfolding rep_view_def by metis+
    show ?thesis
    proof (cases x)
      case (Inl e)
      then show ?thesis
        using run Ok True three x v assms(1) by (auto simp: db_failure_def rep_ok_def)
    next
      case (Inr xs)
      then have "xs = take (nat (sint (pg_limit pg))) (drop (nat (sint (pg_offset pg))) (filter p (rows (rep_view r))))"
        using read_lawD(6) [OF law, of p "scast (pg_limit pg)" "scast (pg_offset pg)" "rep_state r2" xs "rep_state r3"]
          x(2) rows v(2) by (simp add: sint_scast_i64)
      then show ?thesis
        using run Ok True three x(1,3) v Inr assms(1) by (auto simp: query_page_def rep_ok_def)
    qed
  next
    case False
    then show ?thesis
      using run Ok assms(1-3) by (auto simp: query_page_def rep_ok_def)
  qed
qed (use run assms(1-3) in \<open>auto simp: query_page_def rep_ok_def\<close>)

lemma paginated_query_cases:
  assumes "rep_ok r" and "shown r table rows" and "length (filter p (rows (rep_view r))) < 2 ^ 31"
    and "paginated_query B table p first last_arg after before r = (out, r')"
  shows "rep_ok r' \<and> rep_view r' = rep_view r \<and>
    (out = query_page B (filter p (rows (rep_view r))) first last_arg after before \<or> db_failure out)"
proof -
  let ?rows = "filter p (rows (rep_view r))"
  obtain o1 r1 where one: "conn r = (o1, r1)"
    by (rule prod.exhaust)
  note c = conn_keeps [OF assms(1) one]
  have law: "read_law (rep_db r) (table (rep_db r))" and rows: "tb_rows (table (rep_db r)) d = rows (view (rep_db r) d)" for d
    using assms(2) by (simp_all add: shown_def)
  show ?thesis
  proof (cases o1)
    case (Ok u)
    obtain o2 r2 where two: "run_db DatabaseError (tb_count (table (rep_db r1)) p) r1 = (o2, r2)"
      by (rule prod.exhaust)
    from run_db_cases [OF two] c obtain x where x: "rep_db r2 = rep_db r"
      "tb_count (table (rep_db r)) p (rep_state r1) = (x, rep_state r2)" "o2 = from_result DatabaseError x"
      by auto
    have v2: "rep_view r2 = rep_view r" "view (rep_db r) (rep_state r1) = rep_view r"
      using read_lawD(3) [OF law x(2)] c x(1) unfolding rep_view_def by metis+
    show ?thesis
    proof (cases x)
      case (Inl e)
      then show ?thesis
        using assms(1,4) one Ok two x v2 by (auto simp: paginated_query_def db_failure_def rep_ok_def)
    next
      case (Inr n)
      then have n: "n = of_nat (length ?rows)"
        using read_lawD(4) [OF law, of p "rep_state r1" n "rep_state r2"] x(2) rows v2(2) by simp
      have rest: "and_then (pagination_new B first last_arg after before (of_nat (length ?rows)), r2) (\<lambda>pagination r.
          and_then (if sint (pg_limit pagination) > 0
            then run_db DatabaseError (tb_page (table (rep_db r)) p (scast (pg_limit pagination)) (scast (pg_offset pagination))) r
            else (Ok [], r)) (\<lambda>nodes r. (Ok (create_connection pagination nodes), r))) = (out, r')"
        using assms(4) one Ok two x(3) Inr by (simp add: paginated_query_def n ucast_count)
      show ?thesis
        using page_step [OF assms(1) x(1) v2(1) law rows rest] .
    qed
  qed (use assms one c in \<open>auto simp: paginated_query_def rep_ok_def db_failure_def conn_def run_db_def split: prod.splits sum.splits\<close>)
qed
section \<open>A concrete server\<close>

definition mem_table ::
  "(Rows \<Rightarrow> 'row list) \<Rightarrow> ('row \<Rightarrow> Rows \<Rightarrow> bool) \<Rightarrow> (('row list \<Rightarrow> 'row list) \<Rightarrow> Rows \<Rightarrow> Rows) \<Rightarrow>
   ('row \<Rightarrow> 'row list \<Rightarrow> 'row list) \<Rightarrow> (Rows, 'row) Table" where
  "mem_table get fk upd ins = \<lparr>
     tb_load = (\<lambda>p d. (Inr (filter p (get d)), d)),
     tb_count = (\<lambda>p d. (Inr (of_nat (length (filter p (get d)))), d)),
     tb_page = (\<lambda>p l o1 d. (Inr (take (nat (sint l)) (drop (nat (sint o1)) (filter p (get d)))), d)),
     tb_insert = (\<lambda>row d. if fk row d then (Inr (), upd (ins row) d) else (Inl ''foreign key'', d)),
     tb_update = (\<lambda>p f d. (Inr (), upd (updated_rows p f) d)),
     tb_rows = get \<rparr>"

definition mem_db :: "Rows Database" where
  "mem_db = \<lparr> db_conn = (\<lambda>d. (Inr (), d)),
     db_inputs = mem_table rw_inputs (\<lambda>_ _. True) rw_inputs_update (inserted in_index sint),
     db_vouchers = mem_table rw_vouchers (\<lambda>x. has_input (vo_input_index x)) rw_vouchers_update (inserted vo_key ord32),
     db_notices = mem_table rw_notices (\<lambda>x. has_input (no_input_index x)) rw_notices_update (inserted no_key ord32),
     db_reports = mem_table rw_reports (\<lambda>x. has_input (re_input_index x)) rw_reports_update (inserted re_key ord32),
     db_proofs = mem_table rw_proofs (\<lambda>_ _. True) rw_proofs_update (inserted pr_key ord_proof) \<rparr>"

lemma mem_view [simp]: "view mem_db d = d"
  by (simp add: view_def mem_db_def mem_table_def)

lemma mem_tables:
  "db_inputs mem_db = mem_table rw_inputs (\<lambda>_ _. True) rw_inputs_update (inserted in_index sint)"
  "db_vouchers mem_db = mem_table rw_vouchers (\<lambda>x. has_input (vo_input_index x)) rw_vouchers_update (inserted vo_key ord32)"
  "db_notices mem_db = mem_table rw_notices (\<lambda>x. has_input (no_input_index x)) rw_notices_update (inserted no_key ord32)"
  "db_reports mem_db = mem_table rw_reports (\<lambda>x. has_input (re_input_index x)) rw_reports_update (inserted re_key ord32)"
  "db_proofs mem_db = mem_table rw_proofs (\<lambda>_ _. True) rw_proofs_update (inserted pr_key ord_proof)"
  by (simp_all add: mem_db_def)

lemma mem_read_law: "read_law mem_db (mem_table get fk upd ins)"
  by (simp add: read_law_def mem_table_def)

lemma mem_insert_law:
  assumes "\<And>row v. fk row v \<Longrightarrow> post v (upd (ins row) v) row"
  shows "insert_law mem_db (mem_table get fk upd ins) post"
  using assms by (simp add: insert_law_def mem_table_def)

lemma mem_update_law: "update_law mem_db"
  unfolding update_law_def mem_tables(1) by (simp add: mem_table_def)

lemma mem_db_laws: "db_laws mem_db"
  unfolding db_laws_def mem_tables
  by (intro conjI mem_read_law mem_insert_law mem_update_law)
     (simp_all add: input_stored_def voucher_stored_def notice_stored_def report_stored_def proof_stored_def mem_db_def)

definition no_rows :: Rows where
  "no_rows = \<lparr> rw_inputs = [], rw_vouchers = [], rw_notices = [], rw_reports = [], rw_proofs = [] \<rparr>"

definition mem_repository :: "Rows \<Rightarrow> Rows Repository" where
  "mem_repository v = \<lparr> rep_db = mem_db, rep_state = v \<rparr>"

lemma mem_rep_ok: "rep_ok (mem_repository v) \<longleftrightarrow> rows_keyed v"
  by (simp add: rep_ok_def mem_repository_def mem_db_laws rep_view_def)

lemma mem_rep_view [simp]: "rep_view (mem_repository v) = v"
  by (simp add: rep_view_def mem_repository_def)

section \<open>Properties of the repository\<close>

lemma get_by_key:
  "get_input i r = and_then (load_last db_inputs (\<lambda>x. in_index x = i) r) (\<lambda>row r. (ok_or (ItemNotFound ''input'') row, r))"
  "get_voucher j i r = and_then (load_last db_vouchers (\<lambda>x. vo_key x = (i, j)) r) (\<lambda>row r. (ok_or (ItemNotFound ''voucher'') row, r))"
  "get_notice j i r = and_then (load_last db_notices (\<lambda>x. no_key x = (i, j)) r) (\<lambda>row r. (ok_or (ItemNotFound ''notice'') row, r))"
  "get_report j i r = and_then (load_last db_reports (\<lambda>x. re_key x = (i, j)) r) (\<lambda>row r. (ok_or (ItemNotFound ''report'') row, r))"
  "get_proof_row i j k r = load_last db_proofs (\<lambda>x. pr_key x = (i, j, k)) r"
  by (simp_all add: get_input_def get_voucher_def get_notice_def get_report_def get_proof_row_def
      vo_key_def no_key_def re_key_def pr_key_def conj_commute)

lemma ok_or_Ok [simp]: "ok_or e x = Ok y \<longleftrightarrow> x = Some y"
  by (cases x) auto

lemma load_last_failure: "load_last table p r = (Err e, r') \<Longrightarrow> db_failure (Err e)"
  by (auto simp: load_last_def conn_def run_db_def and_then_pure db_failure_def split: prod.splits outcome.splits)

lemma load_last_no_panic: "rep_ok r \<Longrightarrow> fst (load_last table p r) \<noteq> Panic"
  by (auto simp: load_last_def conn_def run_db_def and_then_pure split: prod.splits outcome.splits)

text \<open>The answer to a query by key is a failure of the database or a row with the property \<open>Q\<close>.\<close>

definition answers :: "(DataError, 'row) outcome \<Rightarrow> ('row \<Rightarrow> bool) \<Rightarrow> bool" where
  "answers out Q \<longleftrightarrow> db_failure out \<or> (\<exists>y. out = Ok y \<and> Q y)"

lemma answers_found:
  assumes "rep_ok r" and "\<And>row r'. load_last table p r = (Ok row, r') \<Longrightarrow> \<exists>y. row = Some y \<and> Q y"
  shows "answers (fst (and_then (load_last table p r) (\<lambda>row r. (ok_or e row, r)))) Q"
proof -
  obtain out r' where run: "load_last table p r = (out, r')"
    by (rule prod.exhaust)
  show ?thesis
  proof (cases out)
    case (Ok row)
    then show ?thesis
      using assms(2) [of row r'] run by (auto simp: answers_def)
  next
    case (Err x)
    then show ?thesis
      using load_last_failure [of table p r x r'] run by (auto simp: answers_def db_failure_def)
  next
    case Panic
    then show ?thesis
      using load_last_no_panic [OF assms(1), of table p] run by simp
  qed
qed

text \<open>The row that a key leads to after storing \<open>x\<close>: the one that was there, or \<open>x\<close>.\<close>

definition first_stored :: "('row \<Rightarrow> 'k) \<Rightarrow> 'row list \<Rightarrow> 'row \<Rightarrow> 'row \<Rightarrow> bool" where
  "first_stored key rows x y \<longleftrightarrow> key y = key x \<and> (if key x \<in> key ` set rows then y \<in> set rows else y = x)"

text \<open>C31: what is stored is found: after an input, voucher, notice or report has been stored, the
  query by its key returns it, or fails because of the database, never with "not found"; a row
  that already had the key is kept and returned instead.\<close>

theorem stored_rows_are_found:
  assumes "rep_ok r"
  shows "(\<forall>x r1. insert_input x r = (Ok (), r1) \<longrightarrow>
      answers (fst (get_input (in_index x) r1)) (first_stored in_index (rw_inputs (rep_view r)) x)) \<and>
    (\<forall>x r1. insert_voucher x r = (Ok (), r1) \<longrightarrow>
      answers (fst (get_voucher (vo_index x) (vo_input_index x) r1)) (first_stored vo_key (rw_vouchers (rep_view r)) x)) \<and>
    (\<forall>x r1. insert_notice x r = (Ok (), r1) \<longrightarrow>
      answers (fst (get_notice (no_index x) (no_input_index x) r1)) (first_stored no_key (rw_notices (rep_view r)) x)) \<and>
    (\<forall>x r1. insert_report x r = (Ok (), r1) \<longrightarrow>
      answers (fst (get_report (re_index x) (re_input_index x) r1)) (first_stored re_key (rw_reports (rep_view r)) x))"
proof (intro conjI allI impI)
  fix x r1 assume "insert_input x r = (Ok (), r1)"
  with assms show "answers (fst (get_input (in_index x) r1)) (first_stored in_index (rw_inputs (rep_view r)) x)"
    unfolding get_by_key first_stored_def
    by (intro answers_found input_store.put_found) (auto dest: input_store.put_Ok)
next
  fix x r1 assume "insert_voucher x r = (Ok (), r1)"
  with assms show "answers (fst (get_voucher (vo_index x) (vo_input_index x) r1)) (first_stored vo_key (rw_vouchers (rep_view r)) x)"
    unfolding get_by_key first_stored_def vo_key_def [of x, symmetric]
    by (intro answers_found voucher_store.put_found) (auto dest: voucher_store.put_Ok)
next
  fix x r1 assume "insert_notice x r = (Ok (), r1)"
  with assms show "answers (fst (get_notice (no_index x) (no_input_index x) r1)) (first_stored no_key (rw_notices (rep_view r)) x)"
    unfolding get_by_key first_stored_def no_key_def [of x, symmetric]
    by (intro answers_found notice_store.put_found) (auto dest: notice_store.put_Ok)
next
  fix x r1 assume "insert_report x r = (Ok (), r1)"
  with assms show "answers (fst (get_report (re_index x) (re_input_index x) r1)) (first_stored re_key (rw_reports (rep_view r)) x)"
    unfolding get_by_key first_stored_def re_key_def [of x, symmetric]
    by (intro answers_found report_store.put_found) (auto dest: report_store.put_Ok)
qed
definition sample_input_row :: InputRow where
  "sample_input_row = \<lparr> in_index = 0, in_msg_sender = [1], in_tx_hash = [2], in_block_number = 7, in_timestamp = 1000,
     in_payload = [3], in_status = CsUnprocessed \<rparr>"

definition sample_report_row :: "i32 \<Rightarrow> ReportRow" where
  "sample_report_row i = \<lparr> re_input_index = 0, re_index = i, re_payload = [4] \<rparr>"

definition sample_rows :: Rows where
  "sample_rows = no_rows\<lparr>rw_inputs := [sample_input_row], rw_reports := map sample_report_row [0, 1, 2]\<rparr>"

lemma sample_rows_keyed: "rows_keyed sample_rows"
  by (simp add: rows_keyed_def keyed_def sample_rows_def no_rows_def re_key_def ord32_def sample_report_row_def)

lemma mem_insert_report:
  "insert_report x (mem_repository v) =
     (if has_input (re_input_index x) v
      then (Ok (), mem_repository (v\<lparr>rw_reports := inserted re_key ord32 x (rw_reports v)\<rparr>))
      else (Err (DatabaseError ''foreign key''), mem_repository v))"
  by (simp add: insert_report_def insert_row_def conn_def run_db_def mem_repository_def mem_db_def mem_table_def)

theorem stored_rows_are_found_witness:
  "answers (fst (get_report 3 0 (snd (insert_report (sample_report_row 3) (mem_repository sample_rows)))))
     (\<lambda>y. y = sample_report_row 3)"
proof -
  let ?r = "mem_repository sample_rows" and ?x = "sample_report_row 3"
  have ok: "rep_ok ?r"
    by (simp add: mem_rep_ok sample_rows_keyed)
  have "fst (insert_report ?x ?r) = Ok ()"
    by (simp add: mem_insert_report has_input_def sample_rows_def sample_input_row_def sample_report_row_def)
  then have run: "insert_report ?x ?r = (Ok (), snd (insert_report ?x ?r))"
    by (metis prod.collapse)
  have new: "re_key ?x \<notin> re_key ` set (rw_reports (rep_view ?r))"
    by (simp add: sample_rows_def re_key_def sample_report_row_def)
  have "answers (fst (get_report (re_index ?x) (re_input_index ?x) (snd (insert_report ?x ?r))))
      (first_stored re_key (rw_reports (rep_view ?r)) ?x)"
    using stored_rows_are_found [OF ok] run by blast
  moreover have "re_index ?x = 3" "re_input_index ?x = 0"
    by (simp_all add: sample_report_row_def)
  ultimately show ?thesis
    using new by (auto simp: answers_def first_stored_def)
qed

lemma filter_short: "length xs < n \<Longrightarrow> length (filter p xs) < n"
  by (rule le_less_trans [OF length_filter_le])

text \<open>C22: the four paginated queries return exactly the page of the rows that match the filter, in
  the order of the primary key, or a failure of the database, and change nothing; the count
  must fit in 31 bits.\<close>

theorem paged_queries_correct:
  assumes "rep_ok r" and "length (rw_inputs (rep_view r)) < 2 ^ 31" and "length (rw_vouchers (rep_view r)) < 2 ^ 31"
    and "length (rw_notices (rep_view r)) < 2 ^ 31" and "length (rw_reports (rep_view r)) < 2 ^ 31"
  shows "(\<forall>out r'. get_inputs B first last_arg after before g r = (out, r') \<longrightarrow> rep_view r' = rep_view r \<and>
      (db_failure out \<or> out = query_page B (filter (input_filter_to_query g) (rw_inputs (rep_view r))) first last_arg after before)) \<and>
    (\<forall>out r'. get_vouchers B first last_arg after before f r = (out, r') \<longrightarrow> rep_view r' = rep_view r \<and>
      (db_failure out \<or> out = query_page B (filter (output_filter_to_query vo_input_index f) (rw_vouchers (rep_view r)))
        first last_arg after before)) \<and>
    (\<forall>out r'. get_notices B first last_arg after before f r = (out, r') \<longrightarrow> rep_view r' = rep_view r \<and>
      (db_failure out \<or> out = query_page B (filter (output_filter_to_query no_input_index f) (rw_notices (rep_view r)))
        first last_arg after before)) \<and>
    (\<forall>out r'. get_reports B first last_arg after before f r = (out, r') \<longrightarrow> rep_view r' = rep_view r \<and>
      (db_failure out \<or> out = query_page B (filter (output_filter_to_query re_input_index f) (rw_reports (rep_view r)))
        first last_arg after before))"
  unfolding get_inputs_def get_vouchers_def get_notices_def get_reports_def
  by (intro conjI; auto dest!: paginated_query_cases [OF assms(1) shown_tables(1) [OF assms(1)] filter_short [OF assms(2)]]
      paginated_query_cases [OF assms(1) shown_tables(2) [OF assms(1)] filter_short [OF assms(3)]]
      paginated_query_cases [OF assms(1) shown_tables(3) [OF assms(1)] filter_short [OF assms(4)]]
      paginated_query_cases [OF assms(1) shown_tables(4) [OF assms(1)] filter_short [OF assms(5)]])

theorem paged_queries_correct_witness:
  "\<exists>out r'. get_reports plain_base64 (Some 2) None None None \<lparr> fl_input_index = Some 0 \<rparr> (mem_repository sample_rows) = (out, r') \<and>
     rep_view r' = sample_rows \<and>
     (db_failure out \<or> out = query_page plain_base64 (map sample_report_row [0, 1, 2]) (Some 2) None None None)"
proof -
  let ?r = "mem_repository sample_rows"
  have ok: "rep_ok ?r"
    by (simp add: mem_rep_ok sample_rows_keyed)
  have rows: "filter (output_filter_to_query re_input_index \<lparr> fl_input_index = Some 0 \<rparr>) (rw_reports (rep_view ?r)) =
      map sample_report_row [0, 1, 2]"
    by (simp add: output_filter_to_query_def sample_rows_def sample_report_row_def)
  obtain out r' where run: "get_reports plain_base64 (Some 2) None None None \<lparr> fl_input_index = Some 0 \<rparr> ?r = (out, r')"
    by (rule prod.exhaust)
  have "rep_view r' = rep_view ?r \<and> (db_failure out \<or>
      out = query_page plain_base64 (filter (output_filter_to_query re_input_index \<lparr> fl_input_index = Some 0 \<rparr>)
        (rw_reports (rep_view ?r))) (Some 2) None None None)"
    using paged_queries_correct [OF ok, where B = plain_base64 and first = "Some 2" and last_arg = None
        and after = None and before = None and f = "\<lparr> fl_input_index = Some 0 \<rparr>"] run
    by (simp add: sample_rows_def no_rows_def)
  then show ?thesis
    using run unfolding rows by simp
qed

end
