(* ===== verification/Indexer.thy ===== *)
theory Indexer
  imports Broker Data_Repository
begin

text \<open>
  The indexer (\<open>indexer/src\<close>): it consumes the inputs and the outputs from the broker and stores
  them in the database, from the first event on each time it starts.

  The outcome of the migrations and of the two connections are arguments.  A panic while a
  row is stored ends the blocking task and becomes a \<open>JoinError\<close>.
\<close>

section \<open>Conversions (conversions.rs)\<close>

fun convert_status :: "RollupsCompletionStatus \<Rightarrow> DbCompletionStatus" where
  "convert_status Accepted = CsAccepted"
| "convert_status Rejected = CsRejected"
| "convert_status Exception = CsException"
| "convert_status MachineHalted = CsMachineHalted"
| "convert_status CycleLimitExceeded = CsCycleLimitExceeded"
| "convert_status TimeLimitExceeded = CsTimeLimitExceeded"
| "convert_status PayloadLengthLimitExceeded = CsPayloadLengthLimitExceeded"

text \<open>Adding the seconds to \<open>UNIX_EPOCH\<close> panics when they do not fit in 63 bits.\<close>

definition convert_input :: "RollupsAdvanceStateInput \<Rightarrow> (DataError, InputRow) outcome" where
  "convert_input input =
     (let m = adv_metadata input in
      bind_outcome (assert_that (unat (im_timestamp m) < 2 ^ 63)) (\<lambda>_.
        Ok \<lparr> in_index = ucast (im_input_index m), in_msg_sender = msg_sender m, in_tx_hash = adv_tx_hash input,
             in_block_number = ucast (im_block_number m), in_timestamp = uint (im_timestamp m),
             in_payload = adv_payload input, in_status = CsUnprocessed \<rparr>))"

definition convert_voucher :: "RollupsVoucher \<Rightarrow> VoucherRow" where
  "convert_voucher v = \<lparr> vo_input_index = ucast (rv_input_index v), vo_index = ucast (rv_index v),
     vo_destination = rv_destination v, vo_payload = rv_payload v \<rparr>"

definition convert_notice :: "RollupsNotice \<Rightarrow> NoticeRow" where
  "convert_notice n = \<lparr> no_input_index = ucast (rn_input_index n), no_index = ucast (rn_index n), no_payload = rn_payload n \<rparr>"

definition convert_report :: "RollupsReport \<Rightarrow> ReportRow" where
  "convert_report p = \<lparr> re_input_index = ucast (rr_input_index p), re_index = ucast (rr_index p), re_payload = rr_payload p \<rparr>"

definition convert_proof_row :: "RollupsProof \<Rightarrow> ProofRow" where
  "convert_proof_row p =
     (let v = rp_validity p in
      \<lparr> pr_input_index = ucast (rp_input_index p), pr_output_index = ucast (rp_output_index p),
        pr_output_enum = (case rp_output_enum p of OutputVoucher \<Rightarrow> KindVoucher | OutputNotice \<Rightarrow> KindNotice),
        pr_validity_input_index_within_epoch = ucast (vp_input_index_within_epoch v),
        pr_validity_output_index_within_input = ucast (vp_output_index_within_input v),
        pr_validity_output_hashes_root_hash = vp_output_hashes_root_hash v,
        pr_validity_vouchers_epoch_root_hash = vp_vouchers_epoch_root_hash v,
        pr_validity_notices_epoch_root_hash = vp_notices_epoch_root_hash v,
        pr_validity_machine_state_hash = vp_machine_state_hash v,
        pr_validity_output_hash_in_output_hashes_siblings = map Some (vp_output_hash_in_output_hashes_siblings v),
        pr_validity_output_hashes_in_epoch_siblings = map Some (vp_output_hashes_in_epoch_siblings v),
        pr_context = rp_context p \<rparr>)"

section \<open>The loop (indexer.rs, error.rs)\<close>

datatype IndexerError =
    IxHealthCheckError string
  | IxBrokerError BrokerError
  | MigrationsError string
  | RepositoryError DataError
  | JoinError

record ('d, 'r) Indexer =
  ix_repository :: "'d Repository"
  ix_broker :: "'r Broker"
  ix_state :: IndexerState

partial_function (option) consume_event ::
  "'r Broker \<times> IndexerState \<Rightarrow> ('r Broker \<times> IndexerState, IndexerError, IndexerEvent) action option" where
  "consume_event s =
     (case indexer_consume s of
        (Ok event, s') \<Rightarrow> Some (Ok event, s')
      | (Err source, s') \<Rightarrow> if source = ConsumeTimeout then consume_event s' else Some (Err (IxBrokerError source), s')
      | (Panic, s') \<Rightarrow> Some (Panic, s'))"

definition store_input :: "RollupsInput \<Rightarrow> 'd Repository \<Rightarrow> ('d Repository, DataError, unit) action" where
  "store_input input r =
     (case ri_data input of
        AdvanceStateInput i \<Rightarrow> and_then (convert_input i, r) (\<lambda>row r. insert_input row r)
      | FinishEpoch \<Rightarrow> (Ok (), r))"

definition store_output :: "RollupsOutput \<Rightarrow> 'd Repository \<Rightarrow> ('d Repository, DataError, unit) action" where
  "store_output output r =
     (case output of
        AdvanceResult result \<Rightarrow> update_input_status (ucast (ar_input_index result)) (convert_status (ar_status result)) r
      | Voucher voucher \<Rightarrow> insert_voucher (convert_voucher voucher) r
      | Notice notice \<Rightarrow> insert_notice (convert_notice notice) r
      | Report report \<Rightarrow> insert_report (convert_report report) r
      | Proof prf \<Rightarrow> insert_proof (convert_proof_row prf) r)"

definition store_event :: "IndexerEvent \<Rightarrow> 'd Repository \<Rightarrow> ('d Repository, DataError, unit) action" where
  "store_event event r =
     (case event of
        IndexerInput ev \<Rightarrow> store_input (ev_payload ev) r
      | IndexerOutput ev \<Rightarrow> store_output (ev_payload ev) r)"

text \<open>One turn of the loop of \<open>Indexer::start\<close>, and the turns until one fails.\<close>

definition indexer_iteration ::
  "('d, 'r) Indexer \<Rightarrow> (('d, 'r) Indexer, IndexerError, unit) action option" where
  "indexer_iteration ix =
     (case consume_event (ix_broker ix, ix_state ix) of
        None \<Rightarrow> None
      | Some (out, broker, state) \<Rightarrow>
          Some (and_then (out, ix\<lparr>ix_broker := broker, ix_state := state\<rparr>) (\<lambda>event ix.
            case store_event event (ix_repository ix) of
              (Ok u, r) \<Rightarrow> (Ok (), ix\<lparr>ix_repository := r\<rparr>)
            | (Err e, r) \<Rightarrow> (Err (RepositoryError e), ix\<lparr>ix_repository := r\<rparr>)
            | (Panic, r) \<Rightarrow> (Err JoinError, ix\<lparr>ix_repository := r\<rparr>))))"

partial_function (option) indexer_loop ::
  "('d, 'r) Indexer \<Rightarrow> (('d, 'r) Indexer, IndexerError, unit) action option" where
  "indexer_loop ix =
     (case indexer_iteration ix of
        None \<Rightarrow> None
      | Some (Ok u, ix') \<Rightarrow> indexer_loop ix'
      | Some (Err e, ix') \<Rightarrow> Some (Err e, ix')
      | Some (Panic, ix') \<Rightarrow> Some (Panic, ix'))"

definition indexer_start ::
  "(string + unit) \<Rightarrow> (string + 'd Repository) \<Rightarrow> (string + 'r Broker) \<Rightarrow>
   RollupsInput BrokerStream \<Rightarrow> RollupsOutput BrokerStream \<Rightarrow> (IndexerError, unit) outcome option" where
  "indexer_start migrations repository broker inputs outputs =
     (case migrations of
        Inl e \<Rightarrow> Some (Err (MigrationsError e))
      | Inr _ \<Rightarrow>
          (case repository of
             Inl e \<Rightarrow> Some (Err (RepositoryError (DatabaseConnectionError e)))
           | Inr r \<Rightarrow>
               (case broker of
                  Inl e \<Rightarrow> Some (Err (IxBrokerError (ConnectionError e)))
                | Inr b \<Rightarrow>
                    map_option fst (indexer_loop
                      \<lparr> ix_repository = r, ix_broker = b, ix_state = indexer_state_new inputs outputs \<rparr>))))"

section \<open>What an event does to the rows\<close>

definition input_row :: "RollupsAdvanceStateInput \<Rightarrow> InputRow" where
  "input_row input = (let m = adv_metadata input in
     \<lparr> in_index = ucast (im_input_index m), in_msg_sender = msg_sender m, in_tx_hash = adv_tx_hash input,
       in_block_number = ucast (im_block_number m), in_timestamp = uint (im_timestamp m),
       in_payload = adv_payload input, in_status = CsUnprocessed \<rparr>)"

lemma convert_input_eq: "convert_input i = (if unat (im_timestamp (adv_metadata i)) < 2 ^ 63 then Ok (input_row i) else Panic)"
  by (simp add: convert_input_def input_row_def assert_that_def Let_def)

definition index_input :: "RollupsInput \<Rightarrow> Rows \<Rightarrow> Rows" where
  "index_input input v =
     (case ri_data input of
        AdvanceStateInput i \<Rightarrow> v\<lparr>rw_inputs := inserted in_index sint (input_row i) (rw_inputs v)\<rparr>
      | FinishEpoch \<Rightarrow> v)"

definition index_output :: "RollupsOutput \<Rightarrow> Rows \<Rightarrow> Rows" where
  "index_output output v =
     (case output of
        AdvanceResult x \<Rightarrow> status_set (ucast (ar_input_index x)) (convert_status (ar_status x)) v
      | Voucher x \<Rightarrow> v\<lparr>rw_vouchers := inserted vo_key ord32 (convert_voucher x) (rw_vouchers v)\<rparr>
      | Notice x \<Rightarrow> v\<lparr>rw_notices := inserted no_key ord32 (convert_notice x) (rw_notices v)\<rparr>
      | Report x \<Rightarrow> v\<lparr>rw_reports := inserted re_key ord32 (convert_report x) (rw_reports v)\<rparr>
      | Proof x \<Rightarrow> v\<lparr>rw_proofs := inserted pr_key ord_proof (convert_proof_row x) (rw_proofs v)\<rparr>)"

fun index_event :: "IndexerEvent \<Rightarrow> Rows \<Rightarrow> Rows" where
  "index_event (IndexerInput ev) = index_input (ev_payload ev)"
| "index_event (IndexerOutput ev) = index_output (ev_payload ev)"

text \<open>The input that an output names, when the database requires it.\<close>

definition foreign_key :: "RollupsOutput \<Rightarrow> i32 option" where
  "foreign_key output = (case output of
     Voucher x \<Rightarrow> Some (ucast (rv_input_index x)) | Notice x \<Rightarrow> Some (ucast (rn_input_index x))
   | Report x \<Rightarrow> Some (ucast (rr_input_index x)) | _ \<Rightarrow> None)"

lemma store_input_cases:
  assumes "rep_ok r" and "store_input input r = (out, r')"
  shows "rep_ok r' \<and> (out = Ok () \<longrightarrow> rep_view r' = index_input input (rep_view r)) \<and>
    (out \<noteq> Ok () \<longrightarrow> rep_view r' = rep_view r \<or> rep_view r' = index_input input (rep_view r))"
proof (cases "ri_data input")
  case (AdvanceStateInput i)
  show ?thesis
  proof (cases "unat (im_timestamp (adv_metadata i)) < 2 ^ 63")
    case True
    then have "insert_input (input_row i) r = (out, r')"
      using assms(2) AdvanceStateInput by (simp add: store_input_def convert_input_eq)
    from insert_cases(1) [OF assms(1) this] show ?thesis
      using AdvanceStateInput by (auto simp: index_input_def input_stored_def)
  next
    case False
    then show ?thesis
      using assms AdvanceStateInput by (auto simp: store_input_def convert_input_eq)
  qed
next
  case FinishEpoch
  then show ?thesis
    using assms by (auto simp: store_input_def index_input_def)
qed

lemma store_output_cases:
  assumes "rep_ok r" and "store_output output r = (out, r')"
  shows "rep_ok r' \<and> out \<noteq> Panic \<and> (out = Ok () \<longrightarrow> rep_view r' = index_output output (rep_view r) \<and>
      (\<forall>i. foreign_key output = Some i \<longrightarrow> has_input i (rep_view r))) \<and>
    (out \<noteq> Ok () \<longrightarrow> rep_view r' = rep_view r \<or> rep_view r' = index_output output (rep_view r))"
proof (cases "output")
  case (AdvanceResult x)
  then show ?thesis
    using update_status_cases [OF assms(1)] assms(2) by (auto simp: store_output_def index_output_def foreign_key_def)
next
  case (Voucher x)
  then show ?thesis
    using insert_cases(2) [OF assms(1), of "convert_voucher x" out r'] assms(2)
    by (auto simp: store_output_def index_output_def foreign_key_def voucher_stored_def convert_voucher_def)
next
  case (Notice x)
  then show ?thesis
    using insert_cases(3) [OF assms(1), of "convert_notice x" out r'] assms(2)
    by (auto simp: store_output_def index_output_def foreign_key_def notice_stored_def convert_notice_def)
next
  case (Report x)
  then show ?thesis
    using insert_cases(4) [OF assms(1), of "convert_report x" out r'] assms(2)
    by (auto simp: store_output_def index_output_def foreign_key_def report_stored_def convert_report_def)
next
  case (Proof x)
  then show ?thesis
    using insert_cases(5) [OF assms(1), of "convert_proof_row x" out r'] assms(2)
    by (auto simp: store_output_def index_output_def foreign_key_def proof_stored_def)
qed

lemma store_event_cases:
  assumes "rep_ok r" and "store_event event r = (out, r')"
  shows "rep_ok r' \<and> (out = Ok () \<longrightarrow> rep_view r' = index_event event (rep_view r)) \<and>
    (out \<noteq> Ok () \<longrightarrow> rep_view r' = rep_view r \<or> rep_view r' = index_event event (rep_view r))"
  using assms store_input_cases [OF assms(1)] store_output_cases [OF assms(1)]
  by (cases event) (auto simp: store_event_def)
section \<open>The events of a run\<close>

definition in_entries :: "'r Broker \<times> IndexerState \<Rightarrow> StreamId list" where
  "in_entries s = entries (ix_inputs_stream (snd s)) (fst s)"

definition out_entries :: "'r Broker \<times> IndexerState \<Rightarrow> StreamId list" where
  "out_entries s = entries (ix_outputs_stream (snd s)) (fst s)"

text \<open>The streams stay the same and their entries grow.\<close>

definition later :: "'r Broker \<times> IndexerState \<Rightarrow> 'r Broker \<times> IndexerState \<Rightarrow> bool" where
  "later s s' \<longleftrightarrow> ix_inputs_stream (snd s') = ix_inputs_stream (snd s) \<and> ix_outputs_stream (snd s') = ix_outputs_stream (snd s) \<and>
     prefix (in_entries s) (in_entries s') \<and> prefix (out_entries s) (out_entries s')"

lemma later_refl [simp]: "later s s"
  by (simp add: later_def)

lemma later_trans: "\<lbrakk>later a b; later b c\<rbrakk> \<Longrightarrow> later a c"
  by (auto simp: later_def)

lemma grown_entries:
  "grows W (redis broker) (connection broker) c \<Longrightarrow> prefix (entries stream broker) (entries stream (broker\<lparr>connection := c\<rparr>))"
  by (simp add: entries_def grows_def)

lemma indexer_consume_frame:
  assumes "indexer_at k m s" and "indexer_consume s = (r, s')"
  shows "later s s'"
proof -
  obtain broker state where s: "s = (broker, state)"
    by fastforce
  obtain reply conn where x: "xread_options (redis broker)
      [(stream_key (ix_inputs_stream state), inputs_last_id state), (stream_key (ix_outputs_stream state), outputs_last_id state)]
      (Some (consume_timeout broker)) (connection broker) = (reply, conn)"
    by (rule prod.exhaust)
  have "xread_law {} (redis broker)"
    using assms(1) s by (auto simp: indexer_at_def stream_reader_def redis_laws_def)
  note g = grown_entries [OF xread_lawD(1) [OF this x]]
  have "fst s' = broker\<lparr>connection := conn\<rparr>"
    using assms(2) x unfolding s
    by (auto simp: indexer_consume_def Let_def and_then_pure split: sum.splits option.splits outcome.splits)
  then show ?thesis
    using indexer_consume_steps [OF assms] g [of "ix_inputs_stream state"] g [of "ix_outputs_stream state"] s
    by (auto simp: later_def in_entries_def out_entries_def)
qed

lemma take_one_drop: "map f (take 1 (drop k xs)) = [y] \<Longrightarrow> k < length xs \<and> f (xs ! k) = y"
  by (cases "k < length xs") (auto simp: take_Suc_conv_app_nth)

definition event_taken :: "nat \<Rightarrow> nat \<Rightarrow> IndexerEvent \<Rightarrow> 'r Broker \<times> IndexerState \<Rightarrow> bool" where
  "event_taken k m event s = (case event of
     IndexerInput ev \<Rightarrow> indexer_at (Suc k) m s \<and> k < length (in_entries s) \<and>
       event_try_from (ix_inputs_stream (snd s)) (in_entries s ! k) = Ok ev
   | IndexerOutput ev \<Rightarrow> indexer_at k (Suc m) s \<and> length (in_entries s) \<le> k \<and> m < length (out_entries s) \<and>
       event_try_from (ix_outputs_stream (snd s)) (out_entries s ! m) = Ok ev)"

lemma indexer_consume_taken:
  assumes "indexer_at k m s" and "indexer_consume s = (Ok event, s')"
  shows "event_taken k m event s'"
proof (cases event)
  case (IndexerInput ev)
  then show ?thesis
    using indexer_consume_steps [OF assms] take_one_drop [of "event_try_from (ix_inputs_stream (snd s))" k]
    by (auto simp: event_taken_def remaining_inputs_def in_entries_def)
next
  case (IndexerOutput ev)
  then show ?thesis
    using indexer_consume_steps [OF assms] take_one_drop [of "event_try_from (ix_outputs_stream (snd s))" m]
    by (auto simp: event_taken_def remaining_inputs_def remaining_outputs_def in_entries_def out_entries_def)
qed

lemma consume_event_cases:
  assumes "consume_event s = Some (out, s')" and "indexer_at k m s"
  shows "later s s' \<and> (\<forall>event. out = Ok event \<longrightarrow> event_taken k m event s') \<and>
    (\<forall>e. out = Err e \<longrightarrow> indexer_at k m s') \<and> out \<noteq> Panic"
proof -
  have "\<forall>k m. indexer_at k m s \<longrightarrow> later s (snd y) \<and> (\<forall>event. fst y = Ok event \<longrightarrow> event_taken k m event (snd y)) \<and>
      (\<forall>e. fst y = Err e \<longrightarrow> indexer_at k m (snd y)) \<and> fst y \<noteq> Panic" if "consume_event s = Some y" for y
    using that
  proof (rule consume_event.raw_induct [rotated])
    fix ce :: "'a Broker \<times> IndexerState \<Rightarrow> ('a Broker \<times> IndexerState, IndexerError, IndexerEvent) action option" and s y
    assume IH: "\<And>s y. ce s = Some y \<Longrightarrow> \<forall>k m. indexer_at k m s \<longrightarrow> later s (snd y) \<and>
        (\<forall>event. fst y = Ok event \<longrightarrow> event_taken k m event (snd y)) \<and>
        (\<forall>e. fst y = Err e \<longrightarrow> indexer_at k m (snd y)) \<and> fst y \<noteq> Panic"
      and run: "(case indexer_consume s of
          (Ok event, s') \<Rightarrow> Some (Ok event, s')
        | (Err source, s') \<Rightarrow> if source = ConsumeTimeout then ce s' else Some (Err (IxBrokerError source), s')
        | (Panic, s') \<Rightarrow> Some (Panic, s')) = Some y"
    obtain r t where one: "indexer_consume s = (r, t)"
      by (rule prod.exhaust)
    show "\<forall>k m. indexer_at k m s \<longrightarrow> later s (snd y) \<and> (\<forall>event. fst y = Ok event \<longrightarrow> event_taken k m event (snd y)) \<and>
        (\<forall>e. fst y = Err e \<longrightarrow> indexer_at k m (snd y)) \<and> fst y \<noteq> Panic"
    proof (intro allI impI)
      fix k m assume at: "indexer_at k m s"
      note steps = indexer_consume_steps [OF at one] and frame = indexer_consume_frame [OF at one]
      show "later s (snd y) \<and> (\<forall>event. fst y = Ok event \<longrightarrow> event_taken k m event (snd y)) \<and>
          (\<forall>e. fst y = Err e \<longrightarrow> indexer_at k m (snd y)) \<and> fst y \<noteq> Panic"
      proof (cases r)
        case (Ok event)
        then show ?thesis
          using run one frame indexer_consume_taken [OF at, of event t] by auto
      next
        case (Err e)
        then show ?thesis
          using run one frame steps IH [of t y] later_trans [OF frame, of "snd y"] by (auto split: if_splits)
      next
        case Panic
        then show ?thesis
          using steps by simp
      qed
    qed
  qed
  from this [OF assms(1)] assms(2) show ?thesis
    by simp
qed
text \<open>The turns of the loop that succeed, with the events they consumed.\<close>

inductive indexer_runs :: "('d, 'r) Indexer \<Rightarrow> IndexerEvent list \<Rightarrow> ('d, 'r) Indexer \<Rightarrow> bool"
  for ix0 where
  none: "indexer_runs ix0 [] ix0"
| more: "\<lbrakk>indexer_runs ix0 evs ix; consume_event (ix_broker ix, ix_state ix) = Some (Ok event, broker, state);
     store_event event (ix_repository ix) = (Ok (), r)\<rbrakk> \<Longrightarrow>
   indexer_runs ix0 (evs @ [event]) (ix\<lparr>ix_broker := broker, ix_state := state, ix_repository := r\<rparr>)"

fun payloads_in :: "IndexerEvent list \<Rightarrow> RollupsInput list" where
  "payloads_in [] = []"
| "payloads_in (IndexerInput ev # evs) = ev_payload ev # payloads_in evs"
| "payloads_in (IndexerOutput ev # evs) = payloads_in evs"

fun payloads_out :: "IndexerEvent list \<Rightarrow> RollupsOutput list" where
  "payloads_out [] = []"
| "payloads_out (IndexerInput ev # evs) = payloads_out evs"
| "payloads_out (IndexerOutput ev # evs) = ev_payload ev # payloads_out evs"

lemma payloads_in_append: "payloads_in (xs @ ys) = payloads_in xs @ payloads_in ys"
  by (induction xs rule: payloads_in.induct) auto

lemma payloads_out_append: "payloads_out (xs @ ys) = payloads_out xs @ payloads_out ys"
  by (induction xs rule: payloads_out.induct) auto

abbreviation reader :: "('d, 'r) Indexer \<Rightarrow> 'r Broker \<times> IndexerState" where
  "reader ix \<equiv> (ix_broker ix, ix_state ix)"

text \<open>The indexer has stored the events \<open>evs\<close>, the first ones of both streams.\<close>

definition indexed :: "Rows \<Rightarrow> IndexerEvent list \<Rightarrow> ('d, 'r) Indexer \<Rightarrow> bool" where
  "indexed v evs ix \<longleftrightarrow> rep_ok (ix_repository ix) \<and> rep_view (ix_repository ix) = fold index_event evs v \<and>
     indexer_at (length (payloads_in evs)) (length (payloads_out evs)) (reader ix) \<and>
     taken (ix_inputs_stream (ix_state ix)) (in_entries (reader ix)) (payloads_in evs) \<and>
     taken (ix_outputs_stream (ix_state ix)) (out_entries (reader ix)) (payloads_out evs)"

lemma event_taken_taken:
  assumes "event_taken (length (payloads_in evs)) (length (payloads_out evs)) event s" and "later s0 s"
    and "taken (ix_inputs_stream (snd s0)) (in_entries s0) (payloads_in evs)"
    and "taken (ix_outputs_stream (snd s0)) (out_entries s0) (payloads_out evs)"
  shows "indexer_at (length (payloads_in (evs @ [event]))) (length (payloads_out (evs @ [event]))) s \<and>
    taken (ix_inputs_stream (snd s)) (in_entries s) (payloads_in (evs @ [event])) \<and>
    taken (ix_outputs_stream (snd s)) (out_entries s) (payloads_out (evs @ [event]))"
proof -
  have "taken (ix_inputs_stream (snd s)) (in_entries s) (payloads_in evs)"
    "taken (ix_outputs_stream (snd s)) (out_entries s) (payloads_out evs)"
    using taken_prefix [OF assms(3)] taken_prefix [OF assms(4)] assms(2) by (simp_all add: later_def)
  then show ?thesis
    using assms(1) by (cases event) (auto simp: event_taken_def payloads_in_append payloads_out_append intro: taken_next)
qed

lemma indexer_runs_indexed:
  assumes "indexer_runs ix0 evs ix" and "indexed v [] ix0"
  shows "indexed v evs ix"
  using assms
proof induction
  case (more evs ix event broker state r)
  then have ind: "indexed v evs ix"
    by blast
  then have at: "indexer_at (length (payloads_in evs)) (length (payloads_out evs)) (reader ix)"
    by (simp add: indexed_def)
  note c = consume_event_cases [OF more.hyps(2) at]
  then have "event_taken (length (payloads_in evs)) (length (payloads_out evs)) event (broker, state)" "later (reader ix) (broker, state)"
    by blast+
  from event_taken_taken [OF this] ind have t:
    "indexer_at (length (payloads_in (evs @ [event]))) (length (payloads_out (evs @ [event]))) (broker, state)"
    "taken (ix_inputs_stream state) (in_entries (broker, state)) (payloads_in (evs @ [event]))"
    "taken (ix_outputs_stream state) (out_entries (broker, state)) (payloads_out (evs @ [event]))"
    by (simp_all add: indexed_def)
  have "rep_ok r" "rep_view r = index_event event (fold index_event evs v)"
    using store_event_cases [OF _ more.hyps(3)] ind by (auto simp: indexed_def)
  with t show ?case
    by (simp add: indexed_def)
qed


section \<open>Replaying events\<close>

definition output_input :: "RollupsOutput \<Rightarrow> i32" where
  "output_input output = (case output of
     AdvanceResult x \<Rightarrow> ucast (ar_input_index x) | Voucher x \<Rightarrow> ucast (rv_input_index x)
   | Notice x \<Rightarrow> ucast (rn_input_index x) | Report x \<Rightarrow> ucast (rr_input_index x) | Proof x \<Rightarrow> ucast (rp_input_index x))"

text \<open>Every output comes after the input it names.\<close>

fun ordered :: "IndexerEvent list \<Rightarrow> Rows \<Rightarrow> bool" where
  "ordered [] v \<longleftrightarrow> True"
| "ordered (IndexerInput ev # evs) v \<longleftrightarrow> ordered evs (index_input (ev_payload ev) v)"
| "ordered (IndexerOutput ev # evs) v \<longleftrightarrow> has_input (output_input (ev_payload ev)) v \<and> ordered evs (index_output (ev_payload ev) v)"

lemma insort_key_map:
  "\<lbrakk>\<And>y. f (g y) = f y; g x = x\<rbrakk> \<Longrightarrow> insort_key f x (map g xs) = map g (insort_key f x xs)"
  by (induction xs) auto

lemma updated_index [simp]: "in_index ` set (updated_rows p (\<lambda>x. x\<lparr>in_status := st\<rparr>) rows) = in_index ` set rows"
  using updated_keys [of in_index "\<lambda>x. x\<lparr>in_status := st\<rparr>" p rows] by (metis InputRow.select_convs(1) InputRow.surjective InputRow.update_convs(7) list.set_map)

lemma inserted_updated:
  assumes "i \<in> in_index ` set rows"
  shows "inserted in_index sint x (updated_rows (\<lambda>y. in_index y = i) (\<lambda>y. y\<lparr>in_status := st\<rparr>) rows) =
    updated_rows (\<lambda>y. in_index y = i) (\<lambda>y. y\<lparr>in_status := st\<rparr>) (inserted in_index sint x rows)"
proof (cases "in_index x \<in> in_index ` set rows")
  case True
  then show ?thesis
    by (simp add: inserted_def)
next
  case False
  then have "in_index x \<noteq> i"
    using assms by auto
  then have "insort_key (\<lambda>y. sint (in_index y)) x (updated_rows (\<lambda>y. in_index y = i) (\<lambda>y. y\<lparr>in_status := st\<rparr>) rows) =
      updated_rows (\<lambda>y. in_index y = i) (\<lambda>y. y\<lparr>in_status := st\<rparr>) (insort_key (\<lambda>y. sint (in_index y)) x rows)"
    unfolding updated_rows_def by (intro insort_key_map) auto
  then show ?thesis
    using False by (simp add: inserted_def)
qed

lemma index_commute:
  assumes "has_input (output_input out) v"
  shows "index_input i (index_output out v) = index_output out (index_input i v)"
  using assms inserted_updated [of "output_input out" "rw_inputs v"]
  by (cases out; cases "ri_data i")
     (auto simp: index_input_def index_output_def status_set_def has_input_def output_input_def)

lemma has_input_index_input: "has_input i v \<Longrightarrow> has_input i (index_input x v)"
  by (auto simp: has_input_def index_input_def set_inserted split: RollupsData.splits)

lemma has_input_index_output [simp]: "has_input i (index_output x v) = has_input i v"
  by (auto simp: has_input_def index_output_def status_set_def split: RollupsOutput.splits)

lemma has_input_fold_inputs: "has_input i v \<Longrightarrow> has_input i (fold index_input xs v)"
  by (induction xs arbitrary: v) (simp_all add: has_input_index_input)

lemma fold_index_commute:
  "has_input (output_input out) v \<Longrightarrow> fold index_input xs (index_output out v) = index_output out (fold index_input xs v)"
  by (induction xs arbitrary: v) (simp_all add: index_commute has_input_index_input)

lemma fold_outputs_commute:
  "\<forall>x \<in> set outs. has_input (output_input x) v \<Longrightarrow>
   fold index_input xs (fold index_output outs v) = fold index_output outs (fold index_input xs v)"
proof (induction outs arbitrary: v)
  case (Cons x outs)
  then show ?case
    by (simp add: fold_index_commute)
qed simp

text \<open>The order in which inputs and outputs are interleaved does not matter.\<close>

lemma ordered_outputs: "ordered evs v \<Longrightarrow> \<forall>x \<in> set (payloads_out evs). has_input (output_input x) (fold index_input (payloads_in evs) v)"
proof (induction evs v rule: ordered.induct)
  case (3 ev evs v)
  then show ?case
    by (simp add: has_input_fold_inputs fold_index_commute)
qed auto

lemma fold_events:
  "ordered evs v \<Longrightarrow> fold index_event evs v = fold index_output (payloads_out evs) (fold index_input (payloads_in evs) v)"
proof (induction evs v rule: ordered.induct)
  case (3 ev evs v)
  then show ?case
    by (simp add: fold_index_commute)
qed auto

text \<open>Applying the same events again changes nothing.\<close>

lemma index_input_known: "ri_data i = AdvanceStateInput x \<Longrightarrow> has_input (in_index (input_row x)) v \<Longrightarrow> index_input i v = v"
  by (simp add: index_input_def inserted_def has_input_def)

lemma index_input_knows: "ri_data i = AdvanceStateInput x \<Longrightarrow> has_input (in_index (input_row x)) (index_input i v)"
  by (auto simp: index_input_def has_input_def set_inserted)

definition known_inputs :: "RollupsInput list \<Rightarrow> Rows \<Rightarrow> bool" where
  "known_inputs ins v \<longleftrightarrow> (\<forall>i \<in> set ins. \<forall>x. ri_data i = AdvanceStateInput x \<longrightarrow> has_input (in_index (input_row x)) v)"

lemma fold_inputs_known: "known_inputs ins v \<Longrightarrow> fold index_input ins v = v"
proof (induction ins)
  case (Cons i ins)
  have "index_input i v = v"
    using Cons.prems by (cases "ri_data i") (auto simp: known_inputs_def index_input_def inserted_def has_input_def)
  then show ?case
    using Cons by (simp add: known_inputs_def)
qed simp

lemma fold_inputs_knows: "known_inputs ins (fold index_input ins v)"
proof (induction ins arbitrary: v)
  case (Cons i ins)
  then show ?case
    using has_input_fold_inputs [OF index_input_knows, of i _ ins v] by (auto simp: known_inputs_def)
qed (simp add: known_inputs_def)

lemma inputs_idem: "fold index_input ins (fold index_input ins v) = fold index_input ins v"
  by (rule fold_inputs_known [OF fold_inputs_knows])
fun statuses_in :: "RollupsOutput list \<Rightarrow> (i32 \<times> DbCompletionStatus) list" where
  "statuses_in [] = []"
| "statuses_in (AdvanceResult x # xs) = (ucast (ar_input_index x), convert_status (ar_status x)) # statuses_in xs"
| "statuses_in (_ # xs) = statuses_in xs"

fun vouchers_in :: "RollupsOutput list \<Rightarrow> VoucherRow list" where
  "vouchers_in [] = []"
| "vouchers_in (Voucher x # xs) = convert_voucher x # vouchers_in xs"
| "vouchers_in (_ # xs) = vouchers_in xs"

fun notices_in :: "RollupsOutput list \<Rightarrow> NoticeRow list" where
  "notices_in [] = []"
| "notices_in (Notice x # xs) = convert_notice x # notices_in xs"
| "notices_in (_ # xs) = notices_in xs"

fun reports_in :: "RollupsOutput list \<Rightarrow> ReportRow list" where
  "reports_in [] = []"
| "reports_in (Report x # xs) = convert_report x # reports_in xs"
| "reports_in (_ # xs) = reports_in xs"

fun proofs_in :: "RollupsOutput list \<Rightarrow> ProofRow list" where
  "proofs_in [] = []"
| "proofs_in (Proof x # xs) = convert_proof_row x # proofs_in xs"
| "proofs_in (_ # xs) = proofs_in xs"

text \<open>The last status set for an input wins.\<close>

definition with_status :: "(i32 \<times> DbCompletionStatus) list \<Rightarrow> InputRow \<Rightarrow> InputRow" where
  "with_status us x = (case map_of (rev us) (in_index x) of None \<Rightarrow> x | Some st \<Rightarrow> x\<lparr>in_status := st\<rparr>)"

lemma with_status_Cons:
  "with_status us (if in_index x = i then x\<lparr>in_status := st\<rparr> else x) = with_status ((i, st) # us) x"
  by (auto simp: with_status_def map_add_def split: option.splits)

lemma fold_outputs_inputs: "rw_inputs (fold index_output outs v) = map (with_status (statuses_in outs)) (rw_inputs v)"
proof (induction outs arbitrary: v rule: statuses_in.induct)
  case 1
  then show ?case
    by (simp add: with_status_def map_idI)
next
  case (2 x xs)
  then show ?case
    by (simp add: index_output_def status_set_def updated_rows_def with_status_Cons comp_def)
qed (simp_all add: index_output_def)

lemma fold_outputs_tables:
  "rw_vouchers (fold index_output outs v) = fold (inserted vo_key ord32) (vouchers_in outs) (rw_vouchers v)"
  "rw_notices (fold index_output outs v) = fold (inserted no_key ord32) (notices_in outs) (rw_notices v)"
  "rw_reports (fold index_output outs v) = fold (inserted re_key ord32) (reports_in outs) (rw_reports v)"
  "rw_proofs (fold index_output outs v) = fold (inserted pr_key ord_proof) (proofs_in outs) (rw_proofs v)"
proof -
  show "rw_vouchers (fold index_output outs v) = fold (inserted vo_key ord32) (vouchers_in outs) (rw_vouchers v)"
    by (induction outs arbitrary: v rule: vouchers_in.induct) (simp_all add: index_output_def status_set_def)
  show "rw_notices (fold index_output outs v) = fold (inserted no_key ord32) (notices_in outs) (rw_notices v)"
    by (induction outs arbitrary: v rule: notices_in.induct) (simp_all add: index_output_def status_set_def)
  show "rw_reports (fold index_output outs v) = fold (inserted re_key ord32) (reports_in outs) (rw_reports v)"
    by (induction outs arbitrary: v rule: reports_in.induct) (simp_all add: index_output_def status_set_def)
  show "rw_proofs (fold index_output outs v) = fold (inserted pr_key ord_proof) (proofs_in outs) (rw_proofs v)"
    by (induction outs arbitrary: v rule: proofs_in.induct) (simp_all add: index_output_def status_set_def)
qed

lemma fold_inserted_keys: "key ` set (fold (inserted key ord) xs rows) = key ` set xs \<union> key ` set rows"
  by (induction xs arbitrary: rows) (auto simp: set_inserted)

lemma fold_inserted_known: "key ` set xs \<subseteq> key ` set rows \<Longrightarrow> fold (inserted key ord) xs rows = rows"
  by (induction xs) (auto simp: inserted_def)

lemma fold_inserted_idem: "fold (inserted key ord) xs (fold (inserted key ord) xs rows) = fold (inserted key ord) xs rows"
  by (rule fold_inserted_known) (simp add: fold_inserted_keys)

lemma outputs_idem: "fold index_output outs (fold index_output outs v) = fold index_output outs v"
proof (rule Rows.equality)
  have "with_status us (with_status us x) = with_status us x" for us x
    by (auto simp: with_status_def split: option.splits)
  then show "rw_inputs (fold index_output outs (fold index_output outs v)) = rw_inputs (fold index_output outs v)"
    by (simp add: fold_outputs_inputs comp_def)
qed (simp_all add: fold_outputs_tables fold_inserted_idem)

lemma replay_rows:
  assumes "ordered evs1 v" and "ordered evs2 v" and "ordered evs2 (fold index_event evs1 v)"
    and "prefix (payloads_in evs1) (payloads_in evs2)" and "prefix (payloads_out evs1) (payloads_out evs2)"
  shows "fold index_event evs2 (fold index_event evs1 v) = fold index_event evs2 v"
proof -
  let ?i1 = "payloads_in evs1" and ?o1 = "payloads_out evs1"
  obtain i' o' where ext: "payloads_in evs2 = ?i1 @ i'" "payloads_out evs2 = ?o1 @ o'"
    using assms(4,5) by (auto simp: prefix_def)
  have one: "fold index_event evs1 v = fold index_output ?o1 (fold index_input ?i1 v)"
    by (rule fold_events [OF assms(1)])
  have named: "\<forall>x \<in> set ?o1. has_input (output_input x) (fold index_input ?i1 v)"
    by (rule ordered_outputs [OF assms(1)])
  have "fold index_input (payloads_in evs2) (fold index_event evs1 v) =
      fold index_output ?o1 (fold index_input (payloads_in evs2) (fold index_input ?i1 v))"
    unfolding one by (rule fold_outputs_commute [OF named])
  also have "fold index_input (payloads_in evs2) (fold index_input ?i1 v) = fold index_input (payloads_in evs2) v"
    by (simp add: ext(1) inputs_idem)
  finally have "fold index_event evs2 (fold index_event evs1 v) =
      fold index_output (payloads_out evs2) (fold index_output ?o1 (fold index_input (payloads_in evs2) v))"
    by (simp add: fold_events [OF assms(3)])
  also have "\<dots> = fold index_output (payloads_out evs2) (fold index_input (payloads_in evs2) v)"
    by (simp add: ext(2) outputs_idem)
  also have "\<dots> = fold index_event evs2 v"
    by (rule fold_events [OF assms(2), symmetric])
  finally show ?thesis .
qed
section \<open>Outputs follow their inputs\<close>

text \<open>
  What the other components guarantee of the two streams: in every state \<open>G\<close> that the server can
  be in, an output of the output stream names an input of the input stream.  The advance
  runner writes an output only after it has read its input.
\<close>

definition causal :: "('r \<Rightarrow> bool) \<Rightarrow> RollupsInput BrokerStream \<Rightarrow> RollupsOutput BrokerStream \<Rightarrow> 'r Redis \<Rightarrow> bool" where
  "causal G ins outs R \<longleftrightarrow>
     (\<forall>qs t r x r'. G r \<and> xread_options R qs t r = (x, r') \<longrightarrow> G r') \<and>
     (\<forall>r e ev. G r \<and> e \<in> set (xrange R (stream_key outs) r) \<and> event_try_from outs e = Ok ev \<longrightarrow>
        (\<exists>e' ev' i. e' \<in> set (xrange R (stream_key ins) r) \<and> event_try_from ins e' = Ok ev' \<and>
           ri_data (ev_payload ev') = AdvanceStateInput i \<and> in_index (input_row i) = output_input (ev_payload ev)))"

lemma indexer_consume_good:
  assumes "causal G ins outs (redis (fst s))" and "G (connection (fst s))" and "indexer_consume s = (r, s')"
  shows "redis (fst s') = redis (fst s) \<and> G (connection (fst s'))"
proof -
  obtain broker state where s: "s = (broker, state)"
    by fastforce
  obtain reply c where x: "xread_options (redis broker)
      [(stream_key (ix_inputs_stream state), inputs_last_id state), (stream_key (ix_outputs_stream state), outputs_last_id state)]
      (Some (consume_timeout broker)) (connection broker) = (reply, c)"
    by (rule prod.exhaust)
  have "G c"
    using assms(1,2) x s unfolding causal_def by (metis fst_conv)
  moreover have "fst s' = broker\<lparr>connection := c\<rparr>"
    using assms(3) x unfolding s
    by (auto simp: indexer_consume_def Let_def and_then_pure split: sum.splits option.splits outcome.splits)
  ultimately show ?thesis
    by (simp add: s)
qed

lemma consume_event_good:
  assumes "consume_event s = Some (out, s')" and "causal G ins outs (redis (fst s))" and "G (connection (fst s))"
  shows "redis (fst s') = redis (fst s) \<and> G (connection (fst s'))"
proof -
  have "causal G ins outs (redis (fst s)) \<and> G (connection (fst s)) \<longrightarrow>
      redis (fst (snd y)) = redis (fst s) \<and> G (connection (fst (snd y)))" if "consume_event s = Some y" for y
    using that
  proof (rule consume_event.raw_induct [rotated])
    fix ce :: "'a Broker \<times> IndexerState \<Rightarrow> ('a Broker \<times> IndexerState, IndexerError, IndexerEvent) action option" and s y
    assume IH: "\<And>s y. ce s = Some y \<Longrightarrow> causal G ins outs (redis (fst s)) \<and> G (connection (fst s)) \<longrightarrow>
        redis (fst (snd y)) = redis (fst s) \<and> G (connection (fst (snd y)))"
      and run: "(case indexer_consume s of
          (Ok event, s') \<Rightarrow> Some (Ok event, s')
        | (Err source, s') \<Rightarrow> if source = ConsumeTimeout then ce s' else Some (Err (IxBrokerError source), s')
        | (Panic, s') \<Rightarrow> Some (Panic, s')) = Some y"
    obtain r t where one: "indexer_consume s = (r, t)"
      by (rule prod.exhaust)
    show "causal G ins outs (redis (fst s)) \<and> G (connection (fst s)) \<longrightarrow>
        redis (fst (snd y)) = redis (fst s) \<and> G (connection (fst (snd y)))"
      using indexer_consume_good [of G ins outs s, OF _ _ one] run one IH [of t y]
      by (cases r) (auto split: if_splits)
  qed
  from this [OF assms(1)] assms(2,3) show ?thesis
    by simp
qed

lemma ordered_snoc:
  "ordered (evs @ [event]) v \<longleftrightarrow> ordered evs v \<and>
     (\<forall>ev. event = IndexerOutput ev \<longrightarrow> has_input (output_input (ev_payload ev)) (fold index_event evs v))"
  by (induction evs v rule: ordered.induct) (cases event; auto)+

lemma known_inputs_events: "known_inputs (payloads_in evs) (fold index_event evs v)"
proof (induction evs rule: rev_induct)
  case (snoc event evs)
  show ?case
  proof (cases event)
    case (IndexerInput ev)
    then show ?thesis
      using snoc has_input_index_input index_input_knows by (auto simp: known_inputs_def payloads_in_append)
  next
    case (IndexerOutput ev)
    then show ?thesis
      using snoc by (simp add: known_inputs_def payloads_in_append)
  qed
qed (simp add: known_inputs_def)

lemma named_input_known:
  assumes "taken ins es (payloads_in evs)" and "length es \<le> length (payloads_in evs)" and "e \<in> set es"
    and "event_try_from ins e = Ok ev" and "ri_data (ev_payload ev) = AdvanceStateInput i"
  shows "has_input (in_index (input_row i)) (fold index_event evs v)"
proof -
  obtain k where k: "k < length es" "es ! k = e"
    using assms(3) by (auto simp: in_set_conv_nth)
  then have "ev_payload ev \<in> set (payloads_in evs)"
    using assms(1,2,4) by (auto simp: taken_def intro: nth_mem)
  then show ?thesis
    using known_inputs_events [of evs v] assms(5) by (auto simp: known_inputs_def)
qed
lemma indexer_runs_ordered:
  assumes "indexer_runs ix0 evs ix" and "indexed v0 [] ix0"
    and "causal G (ix_inputs_stream (ix_state ix0)) (ix_outputs_stream (ix_state ix0)) (redis (ix_broker ix0))"
    and "G (connection (ix_broker ix0))"
  shows "ordered evs v \<and> later (reader ix0) (reader ix) \<and> redis (ix_broker ix) = redis (ix_broker ix0) \<and>
    G (connection (ix_broker ix))"
  using assms
proof induction
  case (more evs ix event broker state r)
  let ?ins = "ix_inputs_stream (ix_state ix0)" and ?outs = "ix_outputs_stream (ix_state ix0)"
  let ?s = "(broker, state)"
  have IH: "ordered evs v" "later (reader ix0) (reader ix)" "redis (ix_broker ix) = redis (ix_broker ix0)"
    "G (connection (ix_broker ix))"
    using more.IH more.prems by blast+
  have ind: "indexed v0 evs ix"
    using more.hyps(1) more.prems(1) by (rule indexer_runs_indexed)
  then have at: "indexer_at (length (payloads_in evs)) (length (payloads_out evs)) (reader ix)"
    by (simp add: indexed_def)
  from consume_event_cases [OF more.hyps(2) at] have lat: "later (reader ix) ?s"
    and tk: "event_taken (length (payloads_in evs)) (length (payloads_out evs)) event ?s"
    by blast+
  have good: "redis broker = redis (ix_broker ix0)" "G (connection broker)"
    using consume_event_good [OF more.hyps(2), of G ?ins ?outs] more.prems(2) IH(3,4) by simp_all
  have streams: "ix_inputs_stream state = ?ins" "ix_outputs_stream state = ?outs"
    using lat IH(2) by (simp_all add: later_def)
  have "taken ?ins (in_entries ?s) (payloads_in evs)"
    using ind taken_prefix [of ?ins "in_entries (reader ix)"] lat IH(2) by (auto simp: indexed_def later_def)
  moreover have "has_input (output_input (ev_payload ev)) (fold index_event evs v)" if "event = IndexerOutput ev" for ev
  proof -
    have tko: "length (in_entries ?s) \<le> length (payloads_in evs)" "length (payloads_out evs) < length (out_entries ?s)"
      "event_try_from ?outs (out_entries ?s ! length (payloads_out evs)) = Ok ev"
      using tk that streams by (simp_all add: event_taken_def)
    let ?e = "out_entries ?s ! length (payloads_out evs)"
    have "?e \<in> set (xrange (redis (ix_broker ix0)) (stream_key ?outs) (connection broker))"
      using tko(2) nth_mem good(1) streams by (fastforce simp: out_entries_def entries_def)
    then obtain e' ev' i where "e' \<in> set (xrange (redis (ix_broker ix0)) (stream_key ?ins) (connection broker))"
      "event_try_from ?ins e' = Ok ev'" "ri_data (ev_payload ev') = AdvanceStateInput i"
      "in_index (input_row i) = output_input (ev_payload ev)"
      using more.prems(2) good(2) tko(3) unfolding causal_def by metis
    moreover have "xrange (redis (ix_broker ix0)) (stream_key ?ins) (connection broker) = in_entries ?s"
      using good(1) streams by (simp add: in_entries_def entries_def)
    ultimately show ?thesis
      using named_input_known [OF \<open>taken ?ins (in_entries ?s) (payloads_in evs)\<close> tko(1), of e' ev' i v] by simp
  qed
  ultimately show ?case
    using IH(1) good later_trans [OF IH(2) lat] by (simp add: ordered_snoc)
qed simp


text \<open>C20: the indexer can be stopped and started at any time: it reads both streams from the start again
  and, once it has gone through the events it had stored before, the tables are the same as if it
  had stored all events in one go, although the second run may interleave the two streams
  differently.\<close>

theorem indexer_restart_safe:
  assumes "indexer_runs ix0 evs1 ix1" and "rep_ok (ix_repository ix0)" and "indexer_at 0 0 (reader ix0)"
    and "indexer_runs \<lparr> ix_repository = ix_repository ix1, ix_broker = b, ix_state = indexer_state_new ins outs \<rparr> evs2 ix2"
    and "ins = ix_inputs_stream (ix_state ix0)" and "outs = ix_outputs_stream (ix_state ix0)"
    and "redis b = redis (ix_broker ix0)" and "causal G ins outs (redis b)"
    and "G (connection (ix_broker ix0))" and "G (connection b)"
    and "prefix (payloads_in evs1) (payloads_in evs2)" and "prefix (payloads_out evs1) (payloads_out evs2)"
  shows "rep_view (ix_repository ix2) = fold index_event evs2 (rep_view (ix_repository ix0))"
proof -
  let ?v = "rep_view (ix_repository ix0)"
  let ?ix = "\<lparr> ix_repository = ix_repository ix1, ix_broker = b, ix_state = indexer_state_new ins outs \<rparr>"
  have one: "indexed ?v [] ix0"
    using assms(2,3) by (simp add: indexed_def taken_def)
  from indexer_runs_indexed [OF assms(1) this] have ix1: "rep_ok (ix_repository ix1)"
    "rep_view (ix_repository ix1) = fold index_event evs1 ?v"
    by (simp_all add: indexed_def)
  have "indexer_at 0 0 (reader ?ix)"
    using assms(3,5-7) by (simp add: indexer_at_def indexer_state_new_def stream_reader_def at_position_initial)
  then have two: "indexed (fold index_event evs1 ?v) [] ?ix"
    using ix1 by (simp add: indexed_def taken_def)
  have "ordered evs1 ?v" "ordered evs2 ?v" "ordered evs2 (fold index_event evs1 ?v)"
    using indexer_runs_ordered [OF assms(1) one, of G] indexer_runs_ordered [OF assms(4) two, of G] assms(5-10)
    by (simp_all add: indexer_state_new_def)
  then show ?thesis
    using indexer_runs_indexed [OF assms(4) two] replay_rows [OF _ _ _ assms(11,12)] by (simp add: indexed_def)
qed
section \<open>A concrete run\<close>

definition sample_advance_input :: RollupsAdvanceStateInput where
  "sample_advance_input = \<lparr> adv_metadata = \<lparr> msg_sender = [1], im_block_number = 3, im_timestamp = 1000, im_epoch_index = 0,
     im_input_index = 0 \<rparr>, adv_payload = [5], adv_tx_hash = [6] \<rparr>"

definition sample_in :: RollupsInput where
  "sample_in = \<lparr> parent_id = INITIAL_ID, epoch_index = 0, inputs_sent_count = 1, ri_data = AdvanceStateInput sample_advance_input \<rparr>"

definition sample_out :: RollupsOutput where
  "sample_out = AdvanceResult \<lparr> ar_input_index = 0, ar_status = Accepted \<rparr>"

definition sample_streams :: mem_server where
  "sample_streams = (\<lambda>_. [])(''in'' := [[(''payload'', show_nat (to_nat sample_in))]],
     ''out'' := [[(''payload'', show_nat (to_nat sample_out))]])"

definition sample_ix :: "Rows \<Rightarrow> string \<Rightarrow> string \<Rightarrow> (Rows, mem_server) Indexer" where
  "sample_ix v i j = \<lparr> ix_repository = mem_repository v, ix_broker = mem_broker sample_streams,
     ix_state = (indexer_state_new (numbered_stream ''in'') (numbered_stream ''out''))\<lparr>inputs_last_id := i, outputs_last_id := j\<rparr> \<rparr>"

definition sample_event_in :: IndexerEvent where
  "sample_event_in = IndexerInput \<lparr> ev_id = show_nat 1, ev_payload = sample_in \<rparr>"

definition sample_event_out :: IndexerEvent where
  "sample_event_out = IndexerOutput \<lparr> ev_id = show_nat 1, ev_payload = sample_out \<rparr>"

lemmas sample_ix_defs = sample_ix_def sample_streams_def indexer_state_new_def

lemma sample_consume_in:
  "consume_event (reader (sample_ix v INITIAL_ID INITIAL_ID)) =
     Some (Ok sample_event_in, reader (sample_ix v (show_nat 1) INITIAL_ID))"
  by (simp add: consume_event.simps indexer_consume_def sample_ix_defs mem_broker_def mem_redis_def mem_entries_def
      after_id_def pop_stream_id_def event_try_from_def numbered_stream_def sample_event_in_def Let_def)

lemma sample_consume_out:
  "consume_event (reader (sample_ix v (show_nat 1) INITIAL_ID)) =
     Some (Ok sample_event_out, reader (sample_ix v (show_nat 1) (show_nat 1)))"
  using show_nat_Suc_not_initial [of 0]
  by (simp add: consume_event.simps indexer_consume_def sample_ix_defs mem_broker_def mem_redis_def mem_entries_def
      after_id_def pop_stream_id_def event_try_from_def numbered_stream_def sample_event_out_def Let_def)

lemma mem_store_input:
  "store_event sample_event_in (mem_repository v) = (Ok (), mem_repository (index_event sample_event_in v))"
  by (simp add: store_event_def sample_event_in_def store_input_def sample_in_def convert_input_eq sample_advance_input_def
      index_input_def insert_input_def insert_row_def conn_def run_db_def mem_repository_def mem_db_def mem_table_def)

lemma mem_store_output:
  "store_event sample_event_out (mem_repository v) = (Ok (), mem_repository (index_event sample_event_out v))"
  by (simp add: store_event_def sample_event_out_def store_output_def sample_out_def index_output_def status_set_def
      update_input_status_def conn_def run_db_def mem_repository_def mem_db_def mem_table_def)

lemma sample_ix_step:
  "(sample_ix v i j)\<lparr>ix_broker := ix_broker (sample_ix v i' j'), ix_state := ix_state (sample_ix v i' j'),
     ix_repository := mem_repository v'\<rparr> = sample_ix v' i' j'"
  by (simp add: sample_ix_def)

lemma sample_ix_repository: "ix_repository (sample_ix v i j) = mem_repository v"
  by (simp add: sample_ix_def)

lemma sample_runs:
  "indexer_runs (sample_ix v INITIAL_ID INITIAL_ID) [sample_event_in, sample_event_out]
     (sample_ix (index_event sample_event_out (index_event sample_event_in v)) (show_nat 1) (show_nat 1))"
proof -
  let ?v = "index_event sample_event_in v"
  have "indexer_runs (sample_ix v INITIAL_ID INITIAL_ID) ([] @ [sample_event_in]) (sample_ix ?v (show_nat 1) INITIAL_ID)"
    using indexer_runs.more [OF indexer_runs.none sample_consume_in, of v] mem_store_input [of v]
    by (simp add: sample_ix_step sample_ix_repository)
  from indexer_runs.more [OF this sample_consume_out] mem_store_output [of ?v] show ?thesis
    by (simp add: sample_ix_step sample_ix_repository)
qed

lemma sample_at: "indexer_at 0 0 (reader (sample_ix v INITIAL_ID INITIAL_ID))"
  by (simp add: indexer_at_def sample_ix_defs stream_reader_def at_position_initial mem_redis_laws)

lemma sample_causal:
  "causal (\<lambda>r. r = sample_streams) (numbered_stream ''in'') (numbered_stream ''out'') mem_redis"
  unfolding causal_def
proof (intro conjI allI impI)
  have named: "ri_data sample_in = AdvanceStateInput sample_advance_input"
    "in_index (input_row sample_advance_input) = output_input sample_out"
    by (simp_all add: sample_in_def sample_out_def output_input_def input_row_def sample_advance_input_def)
  fix r e and ev :: "RollupsOutput Event"
  assume a: "r = sample_streams \<and> e \<in> set (xrange mem_redis (stream_key (numbered_stream ''out'' :: RollupsOutput BrokerStream)) r) \<and>
    event_try_from (numbered_stream ''out'') e = Ok ev"
  then have "ev_payload ev = sample_out"
    by (auto simp: mem_redis_def mem_entries_def sample_streams_def event_try_from_def numbered_stream_def)
  moreover obtain ev' where ev': "event_try_from (numbered_stream ''in'' :: RollupsInput BrokerStream)
      (show_nat 1, [(''payload'', show_nat (to_nat sample_in))]) = Ok ev'" "ev_payload ev' = sample_in"
    by (simp add: event_try_from_def numbered_stream_def)
  moreover have "(show_nat 1, [(''payload'', show_nat (to_nat sample_in))]) \<in>
      set (xrange mem_redis (stream_key (numbered_stream ''in'' :: RollupsInput BrokerStream)) r)"
    using a by (simp add: mem_redis_def mem_entries_def sample_streams_def)
  ultimately show "\<exists>e' ev' i. e' \<in> set (xrange mem_redis (stream_key (numbered_stream ''in'' :: RollupsInput BrokerStream)) r) \<and>
      event_try_from (numbered_stream ''in'' :: RollupsInput BrokerStream) e' = Ok ev' \<and> ri_data (ev_payload ev') = AdvanceStateInput i \<and>
      in_index (input_row i) = output_input (ev_payload ev)"
    using named by (intro exI [of _ "(show_nat 1, [(''payload'', show_nat (to_nat sample_in))])"] exI [of _ ev']
      exI [of _ sample_advance_input]) simp
qed (simp add: mem_redis_def)

lemma sample_ix_parts:
  "ix_inputs_stream (ix_state (sample_ix v i j)) = numbered_stream ''in''"
  "ix_outputs_stream (ix_state (sample_ix v i j)) = numbered_stream ''out''"
  "redis (ix_broker (sample_ix v i j)) = mem_redis" "connection (ix_broker (sample_ix v i j)) = sample_streams"
  by (simp_all add: sample_ix_def indexer_state_new_def)

lemma no_rows_ok: "rep_ok (mem_repository no_rows)"
  by (simp add: mem_rep_ok rows_keyed_def keyed_def no_rows_def)


theorem indexer_restart_safe_witness:
  "let evs = [sample_event_in, sample_event_out]; v1 = fold index_event evs no_rows in
   indexer_runs (sample_ix v1 INITIAL_ID INITIAL_ID) evs (sample_ix (fold index_event evs v1) (show_nat 1) (show_nat 1)) \<and>
   fold index_event evs v1 = fold index_event evs no_rows"
proof -
  let ?evs = "[sample_event_in, sample_event_out]"
  let ?v1 = "fold index_event ?evs no_rows"
  have fresh: "\<lparr> ix_repository = ix_repository (sample_ix ?v1 (show_nat 1) (show_nat 1)), ix_broker = mem_broker sample_streams,
      ix_state = indexer_state_new (numbered_stream ''in'') (numbered_stream ''out'') \<rparr> = sample_ix ?v1 INITIAL_ID INITIAL_ID"
    by (simp add: sample_ix_def indexer_state_new_def)
  have run: "indexer_runs (sample_ix v INITIAL_ID INITIAL_ID) ?evs (sample_ix (fold index_event ?evs v) (show_nat 1) (show_nat 1))" for v
    using sample_runs [of v] by simp
  have "rep_view (ix_repository (sample_ix (fold index_event ?evs ?v1) (show_nat 1) (show_nat 1))) =
      fold index_event ?evs (rep_view (ix_repository (sample_ix no_rows INITIAL_ID INITIAL_ID)))"
    by (rule indexer_restart_safe [OF run [of no_rows] _ sample_at run [of ?v1, folded fresh], where G = "\<lambda>r. r = sample_streams"])
       (simp_all add: sample_ix_parts sample_ix_repository no_rows_ok sample_causal)
  then show ?thesis
    using run [of ?v1] by (simp add: sample_ix_repository Let_def)
qed

end
