(* ===== verification/Authority_Claimer.thy ===== *)
theory Authority_Claimer
  imports Broker
begin

text \<open>
  The authority claimer (\<open>authority-claimer/src\<close>): it listens to the claims of the broker, skips
  those that are already on the blockchain and submits the others.  The loop is that of
  \<open>claimer.rs\<close> over the default listener, duplicate checker and transaction sender.

  The Ethereum provider, the contract bindings and the transaction manager are third-party
  code: the fields of the record \<open>Ethereum\<close>, on a state \<open>'c\<close> that stands for the chain.  A
  \<open>usize\<close> has 64 bits.
\<close>

section \<open>The blockchain\<close>

record Claim =
  cl_epoch_hash :: Hash
  cl_first_index :: u128
  cl_last_index :: u128

datatype Token = TokenAddress Address | TokenFixedBytes "byte list"

datatype NameOrAddress = EnsName string | EnsAddress Address

datatype Priority = PriorityLow | PriorityNormal | PriorityHigh | PriorityASAP

datatype tx_value = ValueNothing | ValueNumber U256

record Transaction =
  tr_from :: Address
  tr_to :: Address
  tr_value :: tx_value
  call_data :: "byte list option"

text \<open>The typed transaction of a contract call, as far as it is read.\<close>

record ContractCall =
  tx_to :: "NameOrAddress option"
  tx_data :: "byte list option"

datatype TxManagerError = NonceTooLow string | TxManagerOther string

text \<open>The last two fields observe the chain: its height and the claims that the \<open>History\<close>
  contract reports in a block.\<close>

record ('t, 'c) Ethereum =
  get_block_number :: "'c \<Rightarrow> (string + u64) \<times> 'c"
  query_new_claims :: "u64 \<Rightarrow> u64 \<Rightarrow> 'c \<Rightarrow> (string + (Address \<times> Claim) list) \<times> 'c"
  claim_encode :: "Claim \<Rightarrow> byte list"
  abi_encode :: "Token list \<Rightarrow> byte list"
  submit_claim :: "Address \<Rightarrow> byte list \<Rightarrow> Address \<Rightarrow> ContractCall"
  tx_manager_new :: "'c \<Rightarrow> (TxManagerError + 't) \<times> 'c"
  tx_manager_force_new :: "'c \<Rightarrow> (TxManagerError + 't) \<times> 'c"
  tx_manager_send :: "'t \<Rightarrow> Transaction \<Rightarrow> u64 \<Rightarrow> Priority \<Rightarrow> 'c \<Rightarrow> (TxManagerError + 't) \<times> 'c"
  block_height :: "'c \<Rightarrow> nat"
  block_claims :: "'c \<Rightarrow> nat \<Rightarrow> (Address \<times> Claim) list"

section \<open>The listener (listener.rs)\<close>

datatype BrokerListenerError = ListenerBrokerError BrokerError

record 'r DefaultBrokerListener =
  bl_broker :: "'r Broker"
  bl_stream :: "RollupsClaim BrokerStream"
  last_claim_id :: string

text \<open>Connecting to the broker is an argument, and so is the stream of the chain.\<close>

definition listener_new ::
  "(BrokerError, 'r Broker) outcome \<Rightarrow> RollupsClaim BrokerStream \<Rightarrow> (BrokerError, 'r DefaultBrokerListener) outcome" where
  "listener_new connect stream =
     bind_outcome connect (\<lambda>broker.
       Ok \<lparr> bl_broker = broker, bl_stream = stream, last_claim_id = INITIAL_ID \<rparr>)"

definition listen ::
  "'r DefaultBrokerListener \<Rightarrow> ('r DefaultBrokerListener, BrokerListenerError, RollupsClaim) action option" where
  "listen l =
     (case consume_blocking (bl_stream l) (last_claim_id l) (bl_broker l) of
        None \<Rightarrow> None
      | Some (r, broker) \<Rightarrow>
          Some (and_then (map_err ListenerBrokerError r, l\<lparr>bl_broker := broker\<rparr>) (\<lambda>event l.
            (Ok (ev_payload event), l\<lparr>last_claim_id := ev_id event\<rparr>))))"

section \<open>The duplicate checker (checker.rs)\<close>

datatype DuplicateCheckerError =
    CheckerContractError string
  | CheckerProviderError string
  | CheckerParseError string
  | DepthTooHigh u64 u64
  | ClaimMismatch u128 u128 u128

record DefaultDuplicateChecker =
  claims :: "Address \<Rightarrow> Claim list option"
  dc_confirmations :: u64
  next_block_to_read :: u64

fun append_claim :: "Address \<times> Claim \<Rightarrow> DefaultDuplicateChecker \<Rightarrow> DefaultDuplicateChecker" where
  "append_claim (dapp, new_claim) d =
     (case claims d dapp of
        Some old_claims \<Rightarrow> d\<lparr>claims := (claims d)(dapp \<mapsto> old_claims @ [new_claim])\<rparr>
      | None \<Rightarrow> d\<lparr>claims := (claims d)(dapp \<mapsto> [new_claim])\<rparr>)"

definition append_claims :: "(Address \<times> Claim) list \<Rightarrow> DefaultDuplicateChecker \<Rightarrow> DefaultDuplicateChecker" where
  "append_claims new_claims d = (if new_claims = [] then d else fold append_claim new_claims d)"

definition update_claims ::
  "('t, 'c) Ethereum \<Rightarrow> DefaultDuplicateChecker \<times> 'c \<Rightarrow> (DefaultDuplicateChecker \<times> 'c, DuplicateCheckerError, unit) action" where
  "update_claims E s =
     (case s of (d, c) \<Rightarrow>
      case get_block_number E c of (reply, c) \<Rightarrow>
      and_then (from_result CheckerProviderError reply, d, c) (\<lambda>latest (d, c).
      and_then (ensure (dc_confirmations d \<le> latest) (DepthTooHigh (dc_confirmations d) latest), d, c) (\<lambda>_ (d, c).
      let latest = latest - dc_confirmations d in
      if latest < next_block_to_read d then (Ok (), d, c)
      else case query_new_claims E (next_block_to_read d) latest c of (reply, c) \<Rightarrow>
      and_then (from_result CheckerContractError reply, d, c) (\<lambda>new_claims (d, c).
        (Ok (), (append_claims new_claims d)\<lparr>next_block_to_read := latest + 1\<rparr>, c)))))"

text \<open>The parsing of the endpoint is an argument.\<close>

definition checker_new ::
  "('t, 'c) Ethereum \<Rightarrow> string + unit \<Rightarrow> u64 \<Rightarrow> u64 \<Rightarrow> 'c \<Rightarrow> (DuplicateCheckerError, DefaultDuplicateChecker) outcome \<times> 'c" where
  "checker_new E url confirmations genesis_block c =
     (case url of
        Inl e \<Rightarrow> (Err (CheckerParseError e), c)
      | Inr _ \<Rightarrow>
          (case update_claims E (\<lparr> claims = (\<lambda>_. None), dc_confirmations = confirmations, next_block_to_read = genesis_block \<rparr>, c) of
             (r, d, c) \<Rightarrow> (bind_outcome r (\<lambda>_. Ok d), c)))"

definition expected_index :: "Address \<Rightarrow> DefaultDuplicateChecker \<Rightarrow> u128" where
  "expected_index dapp d =
     (case Option.bind (claims d dapp) (\<lambda>cs. if cs = [] then None else Some (last cs)) of
        Some claim \<Rightarrow> cl_last_index claim + 1
      | None \<Rightarrow> 0)"

definition is_duplicated_rollups_claim ::
  "('t, 'c) Ethereum \<Rightarrow> RollupsClaim \<Rightarrow> DefaultDuplicateChecker \<times> 'c \<Rightarrow>
   (DefaultDuplicateChecker \<times> 'c, DuplicateCheckerError, bool) action" where
  "is_duplicated_rollups_claim E claim s =
     and_then (update_claims E s) (\<lambda>_ (d, c).
       let expected_first_index = expected_index (rc_dapp_address claim) d in
       if rc_first_index claim = expected_first_index then (Ok False, d, c)
       else if rc_last_index claim < expected_first_index then (Ok True, d, c)
       else (Err (ClaimMismatch expected_first_index (rc_first_index claim) (rc_last_index claim)), d, c))"

section \<open>The transaction sender (sender.rs)\<close>

datatype TransactionSenderError =
    ProviderUrl string
  | TransactionSigner string
  | TransactionManagerFailed TxManagerError
  | InternalEthers
  | InternalConfig

record 't DefaultTransactionSender =
  tx_manager :: 't
  ts_confirmations :: u64
  priority :: Priority
  ts_from :: Address
  authority :: Address
  ts_chain_id :: u64
  claims_sent :: "DAppMetadata \<Rightarrow> nat"

definition submittable_claim :: "('t, 'c) Ethereum \<Rightarrow> Address \<Rightarrow> RollupsClaim \<Rightarrow> byte list" where
  "submittable_claim E dapp claim =
     abi_encode E [TokenAddress dapp,
       TokenFixedBytes (claim_encode E \<lparr> cl_epoch_hash = rc_epoch_hash claim,
         cl_first_index = rc_first_index claim, cl_last_index = rc_last_index claim \<rparr>)]"

definition create_tx_manager ::
  "('t, 'c) Ethereum \<Rightarrow> string + unit \<Rightarrow> 'c \<Rightarrow> (TransactionSenderError, 't) outcome \<times> 'c" where
  "create_tx_manager E url c =
     and_then (from_result ProviderUrl url, c) (\<lambda>_ c.
       case tx_manager_new E c of
         (Inl (NonceTooLow _), c) \<Rightarrow>
           (case tx_manager_force_new E c of (r, c) \<Rightarrow> (from_result TransactionManagerFailed r, c))
       | (r, c) \<Rightarrow> (from_result TransactionManagerFailed r, c))"

text \<open>The signer is an argument: its address, or the failure to create it.\<close>

definition sender_new ::
  "('t, 'c) Ethereum \<Rightarrow> string + Address \<Rightarrow> string + unit \<Rightarrow> u64 \<Rightarrow> Priority \<Rightarrow> Address \<Rightarrow> u64 \<Rightarrow> 'c \<Rightarrow>
   (TransactionSenderError, 't DefaultTransactionSender) outcome \<times> 'c" where
  "sender_new E signer url confirmations prio authority_address chain c =
     and_then (from_result TransactionSigner signer, c) (\<lambda>from_address c.
     and_then (create_tx_manager E url c) (\<lambda>manager c.
       (Ok \<lparr> tx_manager = manager, ts_confirmations = confirmations, priority = prio, ts_from = from_address,
             authority = authority_address, ts_chain_id = chain, claims_sent = (\<lambda>_. 0) \<rparr>, c)))"

definition claim_transaction ::
  "('t, 'c) Ethereum \<Rightarrow> RollupsClaim \<Rightarrow> 't DefaultTransactionSender \<Rightarrow> (TransactionSenderError, Transaction) outcome" where
  "claim_transaction E claim t =
     (let call = submit_claim E (authority t) (submittable_claim E (rc_dapp_address claim) claim) (ts_from t) in
      bind_outcome (ok_or InternalEthers (tx_to call)) (\<lambda>recipient.
        case recipient of
          EnsAddress a \<Rightarrow> Ok \<lparr> tr_from = ts_from t, tr_to = a, tr_value = ValueNothing, call_data = tx_data call \<rparr>
        | EnsName _ \<Rightarrow> Err InternalConfig))"

text \<open>The sender is consumed: it is only there again after a success.\<close>

definition send_rollups_claim_transaction ::
  "('t, 'c) Ethereum \<Rightarrow> RollupsClaim \<Rightarrow> 't DefaultTransactionSender \<Rightarrow> 'c \<Rightarrow>
   (TransactionSenderError, 't DefaultTransactionSender) outcome \<times> 'c" where
  "send_rollups_claim_transaction E claim t c =
     and_then (claim_transaction E claim t, c) (\<lambda>transaction c.
       case tx_manager_send E (tx_manager t) transaction (ts_confirmations t) (priority t) c of (reply, c) \<Rightarrow>
       and_then (from_result TransactionManagerFailed reply, c) (\<lambda>manager c.
         let dapp = \<lparr> chain_id = ts_chain_id t, dapp_address = rc_dapp_address claim \<rparr> in
         (Ok (t\<lparr>tx_manager := manager, claims_sent := (claims_sent t)(dapp := claims_sent t dapp + 1)\<rparr>), c)))"

section \<open>The loop (claimer.rs)\<close>

datatype ClaimerError =
    ClaimerListenerError BrokerListenerError
  | ClaimerDuplicateError DuplicateCheckerError
  | ClaimerSenderError TransactionSenderError

record ('r, 't) DefaultClaimer =
  broker_listener :: "'r DefaultBrokerListener"
  duplicate_checker :: DefaultDuplicateChecker
  transaction_sender :: "'t DefaultTransactionSender"

definition process_claim ::
  "('t, 'c) Ethereum \<Rightarrow> RollupsClaim \<Rightarrow> ('r, 't) DefaultClaimer \<times> 'c \<Rightarrow>
   (('r, 't) DefaultClaimer \<times> 'c, ClaimerError, bool) action" where
  "process_claim E claim s =
     (case s of (cl, c) \<Rightarrow>
      case is_duplicated_rollups_claim E claim (duplicate_checker cl, c) of (out, d, c) \<Rightarrow>
      and_then (map_err ClaimerDuplicateError out, cl\<lparr>duplicate_checker := d\<rparr>, c) (\<lambda>is_duplicated (cl, c).
        if is_duplicated then (Ok False, cl, c)
        else case send_rollups_claim_transaction E claim (transaction_sender cl) c of (out, c) \<Rightarrow>
          and_then (map_err ClaimerSenderError out, cl, c) (\<lambda>t (cl, c).
            (Ok True, cl\<lparr>transaction_sender := t\<rparr>, c))))"

text \<open>One turn of the loop returns the claim and whether it was sent.\<close>

definition claimer_iteration ::
  "('t, 'c) Ethereum \<Rightarrow> ('r, 't) DefaultClaimer \<times> 'c \<Rightarrow>
   (('r, 't) DefaultClaimer \<times> 'c, ClaimerError, RollupsClaim \<times> bool) action option" where
  "claimer_iteration E s =
     (case s of (cl, c) \<Rightarrow>
      case listen (broker_listener cl) of
        None \<Rightarrow> None
      | Some (out, l) \<Rightarrow>
          Some (and_then (map_err ClaimerListenerError out, cl\<lparr>broker_listener := l\<rparr>, c) (\<lambda>claim s.
            and_then (process_claim E claim s) (\<lambda>sent s. (Ok (claim, sent), s)))))"

partial_function (option) claimer_start ::
  "('t, 'c) Ethereum \<Rightarrow> ('r, 't) DefaultClaimer \<times> 'c \<Rightarrow> (('r, 't) DefaultClaimer \<times> 'c, ClaimerError, unit) action option" where
  "claimer_start E s =
     (case claimer_iteration E s of
        None \<Rightarrow> None
      | Some (Ok _, s') \<Rightarrow> claimer_start E s'
      | Some (Err e, s') \<Rightarrow> Some (Err e, s')
      | Some (Panic, s') \<Rightarrow> Some (Panic, s'))"

text \<open>\<open>run\<close> (lib.rs): the three parts in order, then the loop.  The HTTP server for the metrics, which
  runs beside it, is not part of the model; every error is boxed.\<close>

datatype ClaimerRunError =
    RunBrokerError BrokerError
  | RunCheckerError DuplicateCheckerError
  | RunSenderError TransactionSenderError
  | RunClaimerError ClaimerError

record AuthorityClaimerSetup =
  se_url :: "string + unit"
  se_signer :: "string + Address"
  se_confirmations :: u64
  se_genesis_block :: u64
  se_priority :: Priority
  se_authority_address :: Address
  se_chain_id :: u64

definition claimer_new ::
  "('t, 'c) Ethereum \<Rightarrow> AuthorityClaimerSetup \<Rightarrow> (BrokerError, 'r Broker) outcome \<Rightarrow> RollupsClaim BrokerStream \<Rightarrow> 'c \<Rightarrow>
   (ClaimerRunError, ('r, 't) DefaultClaimer) outcome \<times> 'c" where
  "claimer_new E cfg connect stream c =
     and_then (map_err RunBrokerError (listener_new connect stream), c) (\<lambda>l c.
     case checker_new E (se_url cfg) (se_confirmations cfg) (se_genesis_block cfg) c of (out, c) \<Rightarrow>
     and_then (map_err RunCheckerError out, c) (\<lambda>d c.
     case sender_new E (se_signer cfg) (se_url cfg) (se_confirmations cfg) (se_priority cfg) (se_authority_address cfg)
       (se_chain_id cfg) c of (out, c) \<Rightarrow>
     and_then (map_err RunSenderError out, c) (\<lambda>t c.
       (Ok \<lparr> broker_listener = l, duplicate_checker = d, transaction_sender = t \<rparr>, c))))"

definition claimer_run ::
  "('t, 'c) Ethereum \<Rightarrow> AuthorityClaimerSetup \<Rightarrow> (BrokerError, 'r Broker) outcome \<Rightarrow> RollupsClaim BrokerStream \<Rightarrow> 'c \<Rightarrow>
   (ClaimerRunError, unit) outcome option" where
  "claimer_run E cfg connect stream c =
     (case claimer_new E cfg connect stream c of
        (Ok cl, c) \<Rightarrow> map_option (map_err RunClaimerError \<circ> fst) (claimer_start E (cl, c))
      | (Err e, c) \<Rightarrow> Some (Err e)
      | (Panic, c) \<Rightarrow> Some Panic)"

section \<open>What the provider, the transaction manager and the contract promise\<close>

text \<open>As time goes by the chain grows, and a block under \<open>d\<close> confirmations is final.\<close>

definition evolves :: "('t, 'c) Ethereum \<Rightarrow> nat \<Rightarrow> 'c \<Rightarrow> 'c \<Rightarrow> bool" where
  "evolves E d c c' \<longleftrightarrow> block_height E c \<le> block_height E c' \<and>
     (\<forall>b. b + d \<le> block_height E c \<longrightarrow> block_claims E c' b = block_claims E c b)"

definition log_between :: "('t, 'c) Ethereum \<Rightarrow> 'c \<Rightarrow> nat \<Rightarrow> nat \<Rightarrow> (Address \<times> Claim) list" where
  "log_between E c a b = concat (map (block_claims E c) [a..<b])"

definition claims_of :: "Address \<Rightarrow> (Address \<times> Claim) list \<Rightarrow> Claim list" where
  "claims_of dapp log = map snd (filter (\<lambda>x. fst x = dapp) log)"

text \<open>The provider reports a height that the chain has during the call, a query of final blocks returns
  their events in order, and heights fit in 64 bits.\<close>

definition number_law :: "('t, 'c) Ethereum \<Rightarrow> nat \<Rightarrow> bool" where
  "number_law E d \<longleftrightarrow> (\<forall>c r c'. get_block_number E c = (r, c') \<longrightarrow> evolves E d c c' \<and>
     (\<forall>n. r = Inr n \<longrightarrow> block_height E c \<le> unat n \<and> unat n \<le> block_height E c'))"

definition query_law :: "('t, 'c) Ethereum \<Rightarrow> nat \<Rightarrow> bool" where
  "query_law E d \<longleftrightarrow> (\<forall>f t c r c'. query_new_claims E f t c = (r, c') \<longrightarrow> evolves E d c c' \<and>
     (\<forall>evs. r = Inr evs \<and> unat t + d \<le> block_height E c \<longrightarrow> evs = log_between E c (unat f) (Suc (unat t))))"

definition manager_law :: "('t, 'c) Ethereum \<Rightarrow> nat \<Rightarrow> bool" where
  "manager_law E d \<longleftrightarrow> (\<forall>m tx n p c. evolves E d c (snd (tx_manager_send E m tx n p c))) \<and>
     (\<forall>c. evolves E d c (snd (tx_manager_new E c)) \<and> evolves E d c (snd (tx_manager_force_new E c)))"

definition provider_laws :: "('t, 'c) Ethereum \<Rightarrow> nat \<Rightarrow> bool" where
  "provider_laws E d \<longleftrightarrow> number_law E d \<and> query_law E d \<and> manager_law E d \<and> (\<forall>c. block_height E c < 2 ^ 64 - 1)"

text \<open>The \<open>History\<close> contract only accepts a claim that starts where the last claim of the application
  ends, so the claims of the final blocks cover the inputs without gaps.\<close>

fun covers_from :: "nat \<Rightarrow> Claim list \<Rightarrow> bool" where
  "covers_from n [] = True"
| "covers_from n (x # xs) \<longleftrightarrow> unat (cl_first_index x) = n \<and> n \<le> unat (cl_last_index x) \<and>
     unat (cl_last_index x) + 1 < 2 ^ 128 \<and> covers_from (unat (cl_last_index x) + 1) xs"

definition history_laws :: "('t, 'c) Ethereum \<Rightarrow> nat \<Rightarrow> nat \<Rightarrow> bool" where
  "history_laws E d g \<longleftrightarrow>
     (\<forall>c n dapp. n + d \<le> block_height E c + 1 \<longrightarrow> covers_from 0 (claims_of dapp (log_between E c g n)))"

definition claim_of :: "RollupsClaim \<Rightarrow> Claim" where
  "claim_of claim = \<lparr> cl_epoch_hash = rc_epoch_hash claim, cl_first_index = rc_first_index claim,
     cl_last_index = rc_last_index claim \<rparr>"

text \<open>When the manager reports a transaction with \<open>d\<close> confirmations as sent, the claim of its call data has
  been reported by a block that deep.\<close>

definition landed :: "('t, 'c) Ethereum \<Rightarrow> nat \<Rightarrow> nat \<Rightarrow> 'c \<Rightarrow> RollupsClaim \<Rightarrow> bool" where
  "landed E d g c claim \<longleftrightarrow> (\<exists>b. g \<le> b \<and> b + d \<le> block_height E c \<and>
     (rc_dapp_address claim, claim_of claim) \<in> set (block_claims E c b))"

definition submission_laws :: "('t, 'c) Ethereum \<Rightarrow> nat \<Rightarrow> nat \<Rightarrow> bool" where
  "submission_laws E d g \<longleftrightarrow>
     (\<forall>m tx n p c m' c' a f claim. tx_manager_send E m tx n p c = (Inr m', c') \<and> d \<le> unat n \<and>
        call_data tx = tx_data (submit_claim E a (submittable_claim E (rc_dapp_address claim) claim) f) \<longrightarrow>
        landed E d g c' claim)"

lemma evolves_trans: "\<lbrakk>evolves E d c1 c2; evolves E d c2 c3\<rbrakk> \<Longrightarrow> evolves E d c1 c3"
  unfolding evolves_def by (metis order_trans)

lemma evolves_refl [simp]: "evolves E d c c"
  by (simp add: evolves_def)

lemma evolves_height: "evolves E d c c' \<Longrightarrow> block_height E c \<le> block_height E c'"
  by (simp add: evolves_def)

lemma landed_evolves: "\<lbrakk>landed E d g c claim; evolves E d c c'\<rbrakk> \<Longrightarrow> landed E d g c' claim"
  unfolding landed_def evolves_def by (metis order_trans)

lemma log_between_evolves:
  assumes "evolves E d c c'" and "n = g \<or> n + d \<le> block_height E c + 1"
  shows "log_between E c' g n = log_between E c g n"
  using assms unfolding log_between_def evolves_def
  by (intro arg_cong [of _ _ concat] map_cong) auto

lemma log_between_append: "\<lbrakk>a \<le> m; m \<le> n\<rbrakk> \<Longrightarrow> log_between E c a n = log_between E c a m @ log_between E c m n"
  unfolding log_between_def
  by (metis concat_append le_iff_add map_append upt_add_eq_append)

lemma block_in_log: "\<lbrakk>x \<in> set (block_claims E c b); g \<le> b; b < n\<rbrakk> \<Longrightarrow> x \<in> set (log_between E c g n)"
  by (auto simp: log_between_def)

lemma claims_of_append [simp]: "claims_of dapp (xs @ ys) = claims_of dapp xs @ claims_of dapp ys"
  by (simp add: claims_of_def)

lemma claims_of_simps [simp]: "claims_of dapp [] = []"
  "claims_of dapp (x # xs) = (if fst x = dapp then snd x # claims_of dapp xs else claims_of dapp xs)"
  by (simp_all add: claims_of_def)

lemma claims_of_member: "(dapp, x) \<in> set log \<Longrightarrow> x \<in> set (claims_of dapp log)"
  by (force simp: claims_of_def)

lemma provider_height: "provider_laws E d \<Longrightarrow> block_height E c < 2 ^ 64 - 1"
  by (simp add: provider_laws_def)

lemma provider_number:
  "\<lbrakk>provider_laws E d; get_block_number E c = (r, c')\<rbrakk> \<Longrightarrow> evolves E d c c'"
  "\<lbrakk>provider_laws E d; get_block_number E c = (Inr n, c')\<rbrakk> \<Longrightarrow> block_height E c \<le> unat n \<and> unat n \<le> block_height E c'"
  unfolding provider_laws_def number_law_def by blast+

lemma provider_query:
  "\<lbrakk>provider_laws E d; query_new_claims E f t c = (r, c')\<rbrakk> \<Longrightarrow> evolves E d c c'"
  "\<lbrakk>provider_laws E d; query_new_claims E f t c = (Inr evs, c'); unat t + d \<le> block_height E c\<rbrakk> \<Longrightarrow>
   evs = log_between E c (unat f) (Suc (unat t))"
  unfolding provider_laws_def query_law_def by blast+

lemma provider_manager:
  "\<lbrakk>provider_laws E d; tx_manager_send E m tx n p c = (r, c')\<rbrakk> \<Longrightarrow> evolves E d c c'"
  "\<lbrakk>provider_laws E d; tx_manager_new E c = (r, c')\<rbrakk> \<Longrightarrow> evolves E d c c'"
  "\<lbrakk>provider_laws E d; tx_manager_force_new E c = (r, c')\<rbrakk> \<Longrightarrow> evolves E d c c'"
  unfolding provider_laws_def manager_law_def by (metis snd_conv)+

text \<open>The index after the last claim.\<close>

definition next_index :: "Claim list \<Rightarrow> nat" where
  "next_index cs = (if cs = [] then 0 else unat (cl_last_index (last cs)) + 1)"

lemma covers_from_next: "\<lbrakk>covers_from n cs; cs \<noteq> []\<rbrakk> \<Longrightarrow> n < next_index cs"
proof (induction n cs rule: covers_from.induct)
  case (2 n x xs)
  then show ?case
    by (cases xs) (auto simp: next_index_def)
qed simp

lemma covers_from_bound: "\<lbrakk>covers_from n cs; x \<in> set cs\<rbrakk> \<Longrightarrow> unat (cl_last_index x) < next_index cs"
proof (induction n cs rule: covers_from.induct)
  case (2 n y ys)
  then show ?case
    using covers_from_next [of "unat (cl_last_index y) + 1" ys] by (cases ys) (auto simp: next_index_def)
qed simp

lemma covers_from_last: "covers_from n cs \<Longrightarrow> next_index cs < 2 ^ 128"
  by (induction n cs rule: covers_from.induct) (auto simp: next_index_def)

section \<open>The cache of the duplicate checker\<close>

text \<open>The cache holds the claims of the blocks from \<open>g\<close> up to the next block to read, by application.\<close>

definition seen_log :: "('t, 'c) Ethereum \<Rightarrow> nat \<Rightarrow> DefaultDuplicateChecker \<times> 'c \<Rightarrow> (Address \<times> Claim) list" where
  "seen_log E g s = log_between E (snd s) g (unat (next_block_to_read (fst s)))"

definition grouped :: "(Address \<times> Claim) list \<Rightarrow> Address \<Rightarrow> Claim list option" where
  "grouped log dapp = (let cs = claims_of dapp log in if cs = [] then None else Some cs)"

definition mirrors :: "('t, 'c) Ethereum \<Rightarrow> nat \<Rightarrow> nat \<Rightarrow> DefaultDuplicateChecker \<times> 'c \<Rightarrow> bool" where
  "mirrors E d g s \<longleftrightarrow>
     (case s of (dc, c) \<Rightarrow>
        claims dc = grouped (seen_log E g s) \<and> unat (dc_confirmations dc) = d \<and>
        g \<le> unat (next_block_to_read dc) \<and>
        (unat (next_block_to_read dc) = g \<or> unat (next_block_to_read dc) + d \<le> block_height E c + 1))"

lemma append_claim_fields [simp]:
  "dc_confirmations (append_claim x d) = dc_confirmations d"
  "next_block_to_read (append_claim x d) = next_block_to_read d"
  by (cases x; simp split: option.split)+

lemma append_claim_grouped: "claims d = grouped log \<Longrightarrow> claims (append_claim x d) = grouped (log @ [x])"
  by (cases x) (auto simp: grouped_def Let_def fun_eq_iff split: option.split)

lemma append_claims_grouped:
  assumes "claims d = grouped log"
  shows "claims (append_claims new d) = grouped (log @ new) \<and>
    dc_confirmations (append_claims new d) = dc_confirmations d"
proof -
  have "claims (fold append_claim new d) = grouped (log @ new) \<and>
      dc_confirmations (fold append_claim new d) = dc_confirmations d"
    using assms
  proof (induction new arbitrary: d log)
    case (Cons x new)
    from Cons.IH [of "append_claim x d" "log @ [x]"] append_claim_grouped [OF Cons.prems] show ?case
      by simp
  qed simp
  then show ?thesis
    using assms by (simp add: append_claims_def)
qed

lemma mirrors_evolves:
  assumes "mirrors E d g (dc, c)" and "evolves E d c c'"
  shows "mirrors E d g (dc, c')" and "seen_log E g (dc, c') = seen_log E g (dc, c)"
proof -
  show "seen_log E g (dc, c') = seen_log E g (dc, c)"
    using assms log_between_evolves [OF assms(2)] by (auto simp: mirrors_def seen_log_def)
  then show "mirrors E d g (dc, c')"
    using assms evolves_height [OF assms(2)] by (auto simp: mirrors_def)
qed

lemma mirrors_read:
  assumes "mirrors E d g (dc, c)" and "unat latest + d \<le> block_height E c" and "provider_laws E d"
    and "next_block_to_read dc \<le> latest"
    and "new = log_between E c (unat (next_block_to_read dc)) (Suc (unat latest))"
  shows "mirrors E d g ((append_claims new dc)\<lparr>next_block_to_read := latest + 1\<rparr>, c)"
    and "unat (latest + 1) = Suc (unat latest)"
proof -
  have "unat latest + 1 < 2 ^ 64"
    using provider_height [OF assms(3), of c] assms(2) by linarith
  then show next': "unat (latest + 1) = Suc (unat latest)"
    by (subst unat_add_lem [THEN iffD1]) simp_all
  have le: "unat (next_block_to_read dc) \<le> Suc (unat latest)"
    using assms(4) by (simp add: word_le_nat_alt)
  have "log_between E c g (Suc (unat latest)) = seen_log E g (dc, c) @ new"
    using log_between_append [OF _ le, of g E c] assms(1,5) by (simp add: mirrors_def seen_log_def)
  with append_claims_grouped [of dc "seen_log E g (dc, c)" new] assms(1,2) next' le
  show "mirrors E d g ((append_claims new dc)\<lparr>next_block_to_read := latest + 1\<rparr>, c)"
    by (simp add: mirrors_def seen_log_def)
qed

text \<open>An update keeps the mirror.  When it succeeds the cache covers every block that was final when it
  started, and when it fails the cache is as before.\<close>

definition covers_final :: "('t, 'c) Ethereum \<Rightarrow> nat \<Rightarrow> 'c \<Rightarrow> DefaultDuplicateChecker \<Rightarrow> bool" where
  "covers_final E d c dc \<longleftrightarrow> (\<forall>b. b + d \<le> block_height E c \<longrightarrow> b < unat (next_block_to_read dc))"

lemma update_claims_cases:
  assumes "update_claims E (dc, c) = (r, dc', c')"
  obtains (provider) e where "get_block_number E c = (Inl e, c')" "r = Err (CheckerProviderError e)" "dc' = dc"
  | (shallow) latest where "get_block_number E c = (Inr latest, c')" "latest < dc_confirmations dc"
      "r = Err (DepthTooHigh (dc_confirmations dc) latest)" "dc' = dc"
  | (caught_up) latest where "get_block_number E c = (Inr latest, c')" "dc_confirmations dc \<le> latest"
      "latest - dc_confirmations dc < next_block_to_read dc" "r = Ok ()" "dc' = dc"
  | (contract) latest c1 e where "get_block_number E c = (Inr latest, c1)"
      "query_new_claims E (next_block_to_read dc) (latest - dc_confirmations dc) c1 = (Inl e, c')"
      "r = Err (CheckerContractError e)" "dc' = dc"
  | (read) latest c1 new where "get_block_number E c = (Inr latest, c1)" "dc_confirmations dc \<le> latest"
      "next_block_to_read dc \<le> latest - dc_confirmations dc"
      "query_new_claims E (next_block_to_read dc) (latest - dc_confirmations dc) c1 = (Inr new, c')" "r = Ok ()"
      "dc' = (append_claims new dc)\<lparr>next_block_to_read := latest - dc_confirmations dc + 1\<rparr>"
proof -
  obtain reply c1 where num: "get_block_number E c = (reply, c1)"
    by fastforce
  show thesis
  proof (cases reply)
    case (Inl e)
    with num assms show thesis
      by (intro provider) (auto simp: update_claims_def)
  next
    case (Inr latest)
    obtain reply2 c2 where q: "query_new_claims E (next_block_to_read dc) (latest - dc_confirmations dc) c1 = (reply2, c2)"
      by fastforce
    consider "\<not> dc_confirmations dc \<le> latest"
      | "dc_confirmations dc \<le> latest" "latest - dc_confirmations dc < next_block_to_read dc"
      | "dc_confirmations dc \<le> latest" "\<not> latest - dc_confirmations dc < next_block_to_read dc"
      by blast
    then show thesis
    proof cases
      case 1
      with num Inr assms show thesis by (intro shallow) (auto simp: update_claims_def)
    next
      case 2
      with num Inr assms show thesis by (intro caught_up) (auto simp: update_claims_def Let_def)
    next
      case 3
      with num Inr assms q show thesis
        by (cases reply2) (auto simp: update_claims_def Let_def intro: contract read)
    qed
  qed
qed

lemma update_claims_mirrors:
  assumes laws: "provider_laws E d" and m: "mirrors E d g (dc, c)" and run: "update_claims E (dc, c) = (r, dc', c')"
  shows "mirrors E d g (dc', c')" and "evolves E d c c'"
    and "r = Ok () \<Longrightarrow> covers_final E d c dc'" and "r \<noteq> Ok () \<Longrightarrow> dc' = dc"
proof -
  have d: "unat (dc_confirmations dc) = d"
    using m by (simp add: mirrors_def)
  have diff: "unat (latest - dc_confirmations dc) = unat latest - d" if "dc_confirmations dc \<le> latest" for latest
    using that d by (simp add: unat_sub)
  have all: "mirrors E d g (dc', c') \<and> evolves E d c c' \<and> (r = Ok () \<longrightarrow> covers_final E d c dc') \<and> (r \<noteq> Ok () \<longrightarrow> dc' = dc)"
    using run
  proof (cases rule: update_claims_cases)
    case (caught_up latest)
    with provider_number [OF laws caught_up(1)] provider_number(1) [OF laws caught_up(1)] mirrors_evolves [OF m] diff [of latest]
    show ?thesis by (auto simp: covers_final_def word_less_nat_alt)
  next
    case (contract latest c1 e)
    then have "evolves E d c c'"
      using provider_number(1) [OF laws] provider_query(1) [OF laws] evolves_trans by metis
    with contract mirrors_evolves [OF m] show ?thesis by simp
  next
    case (read latest c1 new)
    note n = provider_number(2) [OF laws read(1)]
    have e1: "evolves E d c c1" and e2: "evolves E d c1 c'"
      using provider_number(1) [OF laws read(1)] provider_query(1) [OF laws read(4)] by auto
    have deep: "unat (latest - dc_confirmations dc) + d \<le> block_height E c1"
      using n diff [OF read(2)] read(2) d by (simp add: word_le_nat_alt)
    note q = provider_query(2) [OF laws read(4) deep]
    note m1 = mirrors_read [OF mirrors_evolves(1) [OF m e1] deep laws read(3) q]
    have "mirrors E d g (dc', c')"
      using mirrors_evolves(1) [OF m1(1) e2] read(6) by simp
    moreover have "covers_final E d c dc'"
      using m1(2) n diff [OF read(2)] read(2) d by (auto simp: covers_final_def read(6) word_le_nat_alt)
    ultimately show ?thesis
      using e1 e2 evolves_trans read(5) by auto
  qed (use provider_number(1) [OF laws] mirrors_evolves [OF m] in auto)
  then show "mirrors E d g (dc', c')" "evolves E d c c'" "r = Ok () \<Longrightarrow> covers_final E d c dc'" "r \<noteq> Ok () \<Longrightarrow> dc' = dc"
    by auto
qed

section \<open>The contract of a duplicate checker\<close>

lemma covers_from_index:
  "\<lbrakk>covers_from n cs; n \<le> k; k < next_index cs\<rbrakk> \<Longrightarrow>
   \<exists>x \<in> set cs. unat (cl_first_index x) \<le> k \<and> k \<le> unat (cl_last_index x)"
proof (induction n cs rule: covers_from.induct)
  case (2 n x xs)
  show ?case
  proof (cases "k \<le> unat (cl_last_index x)")
    case False
    with 2 show ?thesis by (cases xs) (auto simp: next_index_def)
  qed (use 2 in auto)
qed (simp add: next_index_def)

locale claim_checker =
  fixes inv :: "'s \<Rightarrow> bool"
    and seen :: "'s \<Rightarrow> Address \<Rightarrow> Claim list"
    and check :: "RollupsClaim \<Rightarrow> 's \<Rightarrow> ('s, 'e, bool) action"
  assumes check_inv: "\<lbrakk>inv s; check claim s = (r, s')\<rbrakk> \<Longrightarrow> inv s'"
    and seen_covers: "inv s \<Longrightarrow> covers_from 0 (seen s dapp)"
    and check_new: "\<lbrakk>inv s; check claim s = (Ok False, s')\<rbrakk> \<Longrightarrow>
      unat (rc_first_index claim) = next_index (seen s' (rc_dapp_address claim))"
    and check_old: "\<lbrakk>inv s; check claim s = (Ok True, s')\<rbrakk> \<Longrightarrow>
      unat (rc_last_index claim) < next_index (seen s' (rc_dapp_address claim))"
begin

lemma new_is_beyond:
  assumes "inv s" and "check claim s = (Ok False, s')" and "x \<in> set (seen s' (rc_dapp_address claim))"
  shows "unat (cl_last_index x) < unat (rc_first_index claim)"
  using covers_from_bound [OF seen_covers assms(3)] check_new [OF assms(1,2)] check_inv [OF assms(1,2)] by simp

lemma old_is_covered:
  assumes "inv s" and "check claim s = (Ok True, s')"
  shows "\<exists>x \<in> set (seen s' (rc_dapp_address claim)).
    unat (cl_first_index x) \<le> unat (rc_last_index claim) \<and> unat (rc_last_index claim) \<le> unat (cl_last_index x)"
  using covers_from_index [OF seen_covers _ check_old [OF assms]] check_inv [OF assms] by simp

end

lemma expected_index_seen:
  assumes "mirrors E d g s" and "covers_from 0 (claims_of dapp (seen_log E g s))"
  shows "unat (expected_index dapp (fst s)) = next_index (claims_of dapp (seen_log E g s))"
proof (cases "claims_of dapp (seen_log E g s) = []")
  case True
  then show ?thesis
    using assms(1) by (cases s) (simp add: expected_index_def mirrors_def grouped_def next_index_def)
next
  case False
  let ?l = "cl_last_index (last (claims_of dapp (seen_log E g s)))"
  have "unat ?l + 1 < 2 ^ 128"
    using covers_from_last [OF assms(2)] False by (simp add: next_index_def)
  then have "unat (?l + 1) = unat ?l + 1"
    by (subst unat_add_lem [THEN iffD1]) simp_all
  then show ?thesis
    using assms(1) False by (cases s) (simp add: expected_index_def mirrors_def grouped_def next_index_def)
qed

lemma is_duplicated_cases:
  assumes "is_duplicated_rollups_claim E claim s = (r, s')"
  obtains (failed) e where "update_claims E s = (Err e, s')" "r = Err e"
  | (panicked) "update_claims E s = (Panic, s')" "r = Panic"
  | (updated) "update_claims E s = (Ok (), s')"
      "r = (if rc_first_index claim = expected_index (rc_dapp_address claim) (fst s') then Ok False
            else if rc_last_index claim < expected_index (rc_dapp_address claim) (fst s') then Ok True
            else Err (ClaimMismatch (expected_index (rc_dapp_address claim) (fst s')) (rc_first_index claim) (rc_last_index claim)))"
proof -
  obtain out dc c where u: "update_claims E s = (out, dc, c)"
    by (cases "update_claims E s") auto
  show thesis
    using assms u
    by (cases out) (auto simp: is_duplicated_rollups_claim_def Let_def split: if_splits intro: failed panicked updated)
qed

definition checker_inv :: "('t, 'c) Ethereum \<Rightarrow> nat \<Rightarrow> nat \<Rightarrow> DefaultDuplicateChecker \<times> 'c \<Rightarrow> bool" where
  "checker_inv E d g s \<longleftrightarrow> provider_laws E d \<and> history_laws E d g \<and> mirrors E d g s"

lemma checker_inv_covers: "checker_inv E d g s \<Longrightarrow> covers_from 0 (claims_of dapp (seen_log E g s))"
  by (cases s) (auto simp: checker_inv_def history_laws_def mirrors_def seen_log_def log_between_def)

lemma checker_inv_expected:
  "checker_inv E d g s \<Longrightarrow> unat (expected_index dapp (fst s)) = next_index (claims_of dapp (seen_log E g s))"
  by (intro expected_index_seen [of E d] checker_inv_covers [of E d]) (simp_all add: checker_inv_def)

lemma is_duplicated_checks:
  assumes "checker_inv E d g (dc, c)" and "is_duplicated_rollups_claim E claim (dc, c) = (r, dc', c')"
  shows "checker_inv E d g (dc', c')" and "evolves E d c c'" and "r = Ok b \<Longrightarrow> covers_final E d c dc'"
proof -
  obtain out where "update_claims E (dc, c) = (out, dc', c')" and out: "out = Ok () \<or> \<not> is_ok r"
    using assms(2) by (cases rule: is_duplicated_cases) auto
  from update_claims_mirrors [OF _ _ this(1), of d g] out assms(1)
  show "checker_inv E d g (dc', c')" "evolves E d c c'" "r = Ok b \<Longrightarrow> covers_final E d c dc'"
    by (auto simp: checker_inv_def)
qed

interpretation dup: claim_checker "checker_inv E d g" "\<lambda>s dapp. claims_of dapp (seen_log E g s)"
  "is_duplicated_rollups_claim E"
  for E :: "('t, 'c) Ethereum" and d g
proof (standard, goal_cases)
  case (1 s claim r s')
  then show ?case
    by (cases s; cases s') (auto dest: is_duplicated_checks)
next
  case (2 s dapp)
  then show ?case
    by (rule checker_inv_covers)
next
  case (3 s claim s')
  then have "checker_inv E d g s'"
    by (cases s; cases s') (auto dest: is_duplicated_checks)
  from checker_inv_expected [OF this, of "rc_dapp_address claim"] show ?case
    using 3(2) by (auto elim: is_duplicated_cases split: if_splits)
next
  case (4 s claim s')
  then have "checker_inv E d g s'"
    by (cases s; cases s') (auto dest: is_duplicated_checks)
  from checker_inv_expected [OF this, of "rc_dapp_address claim"] show ?case
    using 4(2) by (auto elim: is_duplicated_cases split: if_splits simp: word_less_nat_alt)
qed

section \<open>Runs of the claimer\<close>

text \<open>The claims handled so far, each with whether it was sent.\<close>

inductive claimer_runs ::
  "('t, 'c) Ethereum \<Rightarrow> ('r, 't) DefaultClaimer \<times> 'c \<Rightarrow> (RollupsClaim \<times> bool) list \<Rightarrow> ('r, 't) DefaultClaimer \<times> 'c \<Rightarrow> bool"
  for E s0 where
  none: "claimer_runs E s0 [] s0"
| more: "\<lbrakk>claimer_runs E s0 tr s; claimer_iteration E s = Some (Ok x, s')\<rbrakk> \<Longrightarrow> claimer_runs E s0 (tr @ [x]) s'"

lemma claimer_iteration_OkE:
  assumes "claimer_iteration E (cl, c) = Some (Ok (claim, sent), s')"
  obtains l s1 where "listen (broker_listener cl) = Some (Ok claim, l)"
    "process_claim E claim (cl\<lparr>broker_listener := l\<rparr>, c) = (Ok sent, s')"
  using assms by (fastforce simp: claimer_iteration_def and_then_Ok_iff split: option.splits)

lemma process_claim_OkE:
  assumes "process_claim E claim (cl, c) = (Ok sent, s')"
  obtains (skip) dc c' where "is_duplicated_rollups_claim E claim (duplicate_checker cl, c) = (Ok True, dc, c')" "\<not> sent"
      "s' = (cl\<lparr>duplicate_checker := dc\<rparr>, c')"
  | (send) dc c1 t c' where "is_duplicated_rollups_claim E claim (duplicate_checker cl, c) = (Ok False, dc, c1)" "sent"
      "send_rollups_claim_transaction E claim (transaction_sender cl) c1 = (Ok t, c')"
      "s' = (cl\<lparr>duplicate_checker := dc, transaction_sender := t\<rparr>, c')"
proof -
  obtain out dc c1 where dup: "is_duplicated_rollups_claim E claim (duplicate_checker cl, c) = (out, dc, c1)"
    by (cases "is_duplicated_rollups_claim E claim (duplicate_checker cl, c)") auto
  obtain out2 c2 where snd: "send_rollups_claim_transaction E claim (transaction_sender cl) c1 = (out2, c2)"
    by fastforce
  show thesis
    using assms dup snd
    by (auto simp: process_claim_def and_then_Ok_iff split: if_splits intro: skip send)
qed

lemma send_OkE:
  assumes "send_rollups_claim_transaction E claim t c = (Ok t', c')"
  obtains tx m where "tx_manager_send E (tx_manager t) tx (ts_confirmations t) (priority t) c = (Inr m, c')"
    "call_data tx = tx_data (submit_claim E (authority t) (submittable_claim E (rc_dapp_address claim) claim) (ts_from t))"
    "ts_confirmations t' = ts_confirmations t" "ts_chain_id t' = ts_chain_id t"
    "claims_sent t' = (claims_sent t)(\<lparr> chain_id = ts_chain_id t, dapp_address = rc_dapp_address claim \<rparr> :=
       claims_sent t \<lparr> chain_id = ts_chain_id t, dapp_address = rc_dapp_address claim \<rparr> + 1)"
proof -
  obtain tx c1 where tx: "claim_transaction E claim t = Ok tx"
    using assms by (auto simp: send_rollups_claim_transaction_def and_then_Ok_iff)
  obtain reply c2 where snd: "tx_manager_send E (tx_manager t) tx (ts_confirmations t) (priority t) c = (reply, c2)"
    by fastforce
  have "call_data tx = tx_data (submit_claim E (authority t) (submittable_claim E (rc_dapp_address claim) claim) (ts_from t))"
    using tx by (cases "tx_to (submit_claim E (authority t) (submittable_claim E (rc_dapp_address claim) claim) (ts_from t))")
      (auto simp: claim_transaction_def Let_def split: NameOrAddress.split_asm)
  then show thesis
    using assms tx snd that by (cases reply) (auto simp: send_rollups_claim_transaction_def Let_def)
qed

lemma listen_next:
  assumes "stream_reader (bl_stream l) (last_claim_id l) n (bl_broker l)" and "listen l = Some (Ok claim, l')"
  shows "stream_reader (bl_stream l') (last_claim_id l') (Suc n) (bl_broker l')" and "bl_stream l' = bl_stream l"
    and "broker_grows (bl_broker l) (bl_broker l')" and "n < length (entries (bl_stream l) (bl_broker l'))"
    and "\<exists>ev. event_try_from (bl_stream l) (entries (bl_stream l) (bl_broker l') ! n) = Ok ev \<and> ev_payload ev = claim"
proof -
  obtain ev b where c: "consume_blocking (bl_stream l) (last_claim_id l) (bl_broker l) = Some (Ok ev, b)"
    and l': "l' = l\<lparr>bl_broker := b, last_claim_id := ev_id ev\<rparr>" and claim: "claim = ev_payload ev"
    using assms(2) by (auto simp: listen_def and_then_Ok_iff split: option.splits)
  note r = consume_blocking_cases [OF c assms(1)]
  then show "broker_grows (bl_broker l) (bl_broker l')" "bl_stream l' = bl_stream l" "n < length (entries (bl_stream l) (bl_broker l'))"
    "\<exists>ev. event_try_from (bl_stream l) (entries (bl_stream l) (bl_broker l') ! n) = Ok ev \<and> ev_payload ev = claim"
    by (auto simp: l' claim reads_next_def intro!: exI [of _ ev])
  show "stream_reader (bl_stream l') (last_claim_id l') (Suc n) (bl_broker l')"
    using r stream_reader_next [of "bl_stream l" "last_claim_id l" n b "entries (bl_stream l) b ! n" ev]
    by (auto simp: l' reads_next_def get_at_eq)
qed

definition claimer_at :: "('t, 'c) Ethereum \<Rightarrow> nat \<Rightarrow> nat \<Rightarrow> nat \<Rightarrow> ('r, 't) DefaultClaimer \<times> 'c \<Rightarrow> bool" where
  "claimer_at E d g n s \<longleftrightarrow>
     (case s of (cl, c) \<Rightarrow> checker_inv E d g (duplicate_checker cl, c) \<and>
        unat (ts_confirmations (transaction_sender cl)) = d \<and>
        (let l = broker_listener cl in stream_reader (bl_stream l) (last_claim_id l) n (bl_broker l)))"

abbreviation claim_stream :: "('r, 't) DefaultClaimer \<Rightarrow> RollupsClaim BrokerStream" where
  "claim_stream cl \<equiv> bl_stream (broker_listener cl)"

abbreviation claim_entries :: "('r, 't) DefaultClaimer \<Rightarrow> StreamId list" where
  "claim_entries cl \<equiv> entries (claim_stream cl) (bl_broker (broker_listener cl))"

abbreviation known_claims :: "('t, 'c) Ethereum \<Rightarrow> nat \<Rightarrow> Address \<Rightarrow> ('r, 't) DefaultClaimer \<times> 'c \<Rightarrow> Claim list" where
  "known_claims E g dapp s \<equiv> claims_of dapp (seen_log E g (duplicate_checker (fst s), snd s))"

lemma checker_inv_evolves:
  "\<lbrakk>checker_inv E d g (dc, c); evolves E d c c'\<rbrakk> \<Longrightarrow> checker_inv E d g (dc, c') \<and> seen_log E g (dc, c') = seen_log E g (dc, c)"
  using mirrors_evolves by (auto simp: checker_inv_def)

lemma process_claim_step:
  assumes "checker_inv E d g (duplicate_checker cl, c)" and "unat (ts_confirmations (transaction_sender cl)) = d"
    and "process_claim E claim (cl, c) = (Ok sent, cl', c')"
  shows "checker_inv E d g (duplicate_checker cl', c') \<and> unat (ts_confirmations (transaction_sender cl')) = d \<and>
    broker_listener cl' = broker_listener cl \<and> evolves E d c c' \<and> covers_final E d c (duplicate_checker cl') \<and>
    (\<exists>c1. is_duplicated_rollups_claim E claim (duplicate_checker cl, c) = (Ok (\<not> sent), duplicate_checker cl', c1) \<and>
       seen_log E g (duplicate_checker cl', c') = seen_log E g (duplicate_checker cl', c1)) \<and>
    (sent \<and> submission_laws E d g \<longrightarrow> landed E d g c' claim)"
  using assms(3)
proof (cases rule: process_claim_OkE)
  case (skip dc c1)
  with is_duplicated_checks [OF assms(1) skip(1)] assms(2) show ?thesis by auto
next
  case (send dc c1 t c2)
  note chk = is_duplicated_checks [OF assms(1) send(1)]
  have laws: "provider_laws E d"
    using assms(1) by (simp add: checker_inv_def)
  obtain tx m where tx: "tx_manager_send E (tx_manager (transaction_sender cl)) tx (ts_confirmations (transaction_sender cl))
      (priority (transaction_sender cl)) c1 = (Inr m, c2)" "ts_confirmations t = ts_confirmations (transaction_sender cl)"
    "call_data tx = tx_data (submit_claim E (authority (transaction_sender cl))
       (submittable_claim E (rc_dapp_address claim) claim) (ts_from (transaction_sender cl)))"
    using send(3) by (rule send_OkE)
  have ev: "evolves E d c1 c2"
    using provider_manager(1) [OF laws tx(1)] .
  have "landed E d g c2 claim" if "submission_laws E d g"
    using that tx assms(2) unfolding submission_laws_def by (metis order_refl)
  with send chk checker_inv_evolves [OF chk(1) ev] evolves_trans [OF chk(2) ev] tx(2) assms(2) show ?thesis
    by auto
qed

lemma claimer_iteration_step:
  assumes at: "claimer_at E d g n (cl, c)" and run: "claimer_iteration E (cl, c) = Some (Ok (claim, sent), cl', c')"
  shows "claimer_at E d g (Suc n) (cl', c')" and "claim_stream cl' = claim_stream cl"
    and "prefix (claim_entries cl) (claim_entries cl')" and "n < length (claim_entries cl')"
    and "\<exists>ev. event_try_from (claim_stream cl) (claim_entries cl' ! n) = Ok ev \<and> ev_payload ev = claim"
    and "evolves E d c c'" and "covers_final E d c (duplicate_checker cl')"
    and "\<exists>c1. is_duplicated_rollups_claim E claim (duplicate_checker cl, c) = (Ok (\<not> sent), duplicate_checker cl', c1) \<and>
       seen_log E g (duplicate_checker cl', c') = seen_log E g (duplicate_checker cl', c1)"
    and "sent \<Longrightarrow> submission_laws E d g \<Longrightarrow> landed E d g c' claim"
proof -
  obtain l where l: "listen (broker_listener cl) = Some (Ok claim, l)"
    and p: "process_claim E claim (cl\<lparr>broker_listener := l\<rparr>, c) = (Ok sent, cl', c')"
    using run by (rule claimer_iteration_OkE)
  have rd: "stream_reader (bl_stream (broker_listener cl)) (last_claim_id (broker_listener cl)) n (bl_broker (broker_listener cl))"
    and inv: "checker_inv E d g (duplicate_checker (cl\<lparr>broker_listener := l\<rparr>), c)"
      "unat (ts_confirmations (transaction_sender (cl\<lparr>broker_listener := l\<rparr>))) = d"
    using at by (auto simp: claimer_at_def Let_def)
  note ln = listen_next [OF rd l] and st = process_claim_step [OF inv p]
  then show "claimer_at E d g (Suc n) (cl', c')" "claim_stream cl' = claim_stream cl" "n < length (claim_entries cl')"
    "\<exists>ev. event_try_from (claim_stream cl) (claim_entries cl' ! n) = Ok ev \<and> ev_payload ev = claim"
    "evolves E d c c'" "covers_final E d c (duplicate_checker cl')"
    "\<exists>c1. is_duplicated_rollups_claim E claim (duplicate_checker cl, c) = (Ok (\<not> sent), duplicate_checker cl', c1) \<and>
       seen_log E g (duplicate_checker cl', c') = seen_log E g (duplicate_checker cl', c1)"
    "sent \<Longrightarrow> submission_laws E d g \<Longrightarrow> landed E d g c' claim"
    by (auto simp: claimer_at_def Let_def)
  show "prefix (claim_entries cl) (claim_entries cl')"
    using ln st broker_grows_prefix [OF ln(3)] by simp
qed

definition claimer_inv ::
  "('t, 'c) Ethereum \<Rightarrow> nat \<Rightarrow> nat \<Rightarrow> (RollupsClaim \<times> bool) list \<Rightarrow> ('r, 't) DefaultClaimer \<times> 'c \<Rightarrow> bool" where
  "claimer_inv E d g tr s \<longleftrightarrow>
     (case s of (cl, c) \<Rightarrow> claimer_at E d g (length tr) s \<and> taken (claim_stream cl) (claim_entries cl) (map fst tr) \<and>
        (submission_laws E d g \<longrightarrow> (\<forall>claim. (claim, True) \<in> set tr \<longrightarrow> landed E d g c claim)))"

lemma claimer_inv_step:
  assumes "claimer_inv E d g tr (cl, c)" and "claimer_iteration E (cl, c) = Some (Ok (claim, sent), cl', c')"
  shows "claimer_inv E d g (tr @ [(claim, sent)]) (cl', c')"
proof -
  have at: "claimer_at E d g (length tr) (cl, c)"
    using assms(1) by (simp add: claimer_inv_def)
  note st = claimer_iteration_step [OF at assms(2)]
  obtain ev where ev: "event_try_from (claim_stream cl) (claim_entries cl' ! length tr) = Ok ev" "ev_payload ev = claim"
    using st(5) by blast
  have "taken (claim_stream cl) (claim_entries cl') (map fst tr)"
    using assms(1) by (intro taken_prefix [OF _ st(3)]) (simp add: claimer_inv_def)
  from taken_next [OF this, of ev] ev st(4) have "taken (claim_stream cl') (claim_entries cl') (map fst tr @ [claim])"
    by (simp add: st(2))
  moreover have "landed E d g c' x" if "submission_laws E d g" "(x, True) \<in> set tr" for x
    using assms(1) that landed_evolves [OF _ st(6)] by (simp add: claimer_inv_def)
  ultimately show ?thesis
    using st(1,9) by (auto simp: claimer_inv_def)
qed

lemma claimer_runs_inv:
  assumes "claimer_runs E s0 tr s" and "claimer_at E d g 0 s0"
  shows "claimer_inv E d g tr s"
  using assms
proof (induction rule: claimer_runs.induct)
  case none
  then show ?case
    by (cases s0) (simp add: claimer_inv_def taken_def)
next
  case (more tr s x s')
  then show ?case
    by (cases s; cases s'; cases x) (simp add: claimer_inv_step)
qed

inductive_cases claimer_runs_snocE: "claimer_runs E s0 (tr @ [x]) s'"

lemma claimer_runs_last:
  assumes "claimer_runs E s0 (tr @ [(claim, sent)]) (cl', c')" and "claimer_at E d g 0 s0"
  obtains cl c where "claimer_runs E s0 tr (cl, c)" "claimer_inv E d g tr (cl, c)"
    "claimer_iteration E (cl, c) = Some (Ok (claim, sent), cl', c')"
proof -
  obtain s where s: "claimer_runs E s0 tr s" "claimer_iteration E s = Some (Ok (claim, sent), cl', c')"
    using assms(1) by (rule claimer_runs_snocE) auto
  then show thesis
    using that claimer_runs_inv [OF s(1) assms(2)] by (cases s) auto
qed

lemma claimer_verdict:
  assumes "claimer_at E d g n (cl, c)" and "claimer_iteration E (cl, c) = Some (Ok (claim, sent), cl', c')"
  shows "covers_from 0 (known_claims E g (rc_dapp_address claim) (cl', c'))"
    and "sent \<Longrightarrow> unat (rc_first_index claim) = next_index (known_claims E g (rc_dapp_address claim) (cl', c'))"
    and "\<not> sent \<Longrightarrow> \<exists>x \<in> set (known_claims E g (rc_dapp_address claim) (cl', c')).
      unat (cl_first_index x) \<le> unat (rc_last_index claim) \<and> unat (rc_last_index claim) \<le> unat (cl_last_index x)"
    and "\<lbrakk>sent; landed E d g c old; rc_dapp_address old = rc_dapp_address claim\<rbrakk> \<Longrightarrow>
      unat (rc_last_index old) < unat (rc_first_index claim)"
proof -
  note st = claimer_iteration_step [OF assms]
  have inv: "checker_inv E d g (duplicate_checker cl, c)" and inv': "checker_inv E d g (duplicate_checker cl', c')"
    using assms(1) st(1) by (auto simp: claimer_at_def)
  obtain c1 where dup: "is_duplicated_rollups_claim E claim (duplicate_checker cl, c) = (Ok (\<not> sent), duplicate_checker cl', c1)"
    and log: "seen_log E g (duplicate_checker cl', c') = seen_log E g (duplicate_checker cl', c1)"
    using st(8) by blast
  show "covers_from 0 (known_claims E g (rc_dapp_address claim) (cl', c'))"
    using checker_inv_covers [OF inv'] by simp
  show "sent \<Longrightarrow> unat (rc_first_index claim) = next_index (known_claims E g (rc_dapp_address claim) (cl', c'))"
    using dup.check_new [OF inv] dup log by simp
  show "\<not> sent \<Longrightarrow> \<exists>x \<in> set (known_claims E g (rc_dapp_address claim) (cl', c')).
      unat (cl_first_index x) \<le> unat (rc_last_index claim) \<and> unat (rc_last_index claim) \<le> unat (cl_last_index x)"
    using dup.old_is_covered [OF inv] dup log by simp
  assume sent and "landed E d g c old" and same: "rc_dapp_address old = rc_dapp_address claim"
  then obtain b where b: "g \<le> b" "b + d \<le> block_height E c" "(rc_dapp_address old, claim_of old) \<in> set (block_claims E c b)"
    by (auto simp: landed_def)
  then have "(rc_dapp_address claim, claim_of old) \<in> set (seen_log E g (duplicate_checker cl', c1))"
    using st(6,7) same unfolding log [symmetric] unfolding seen_log_def fst_conv snd_conv
    by (intro block_in_log [of _ E c' b]) (simp_all add: covers_final_def evolves_def)
  then have "claim_of old \<in> set (claims_of (rc_dapp_address claim) (seen_log E g (duplicate_checker cl', c1)))"
    by (rule claims_of_member)
  then show "unat (rc_last_index old) < unat (rc_first_index claim)"
    using dup.new_is_beyond [OF inv] dup \<open>sent\<close> by (fastforce simp: claim_of_def)
qed

text \<open>A claimer that was set up is ready to read its first claim.\<close>

lemma create_tx_manager_evolves:
  assumes "provider_laws E d" and "create_tx_manager E url c = (r, c')"
  shows "evolves E d c c'"
proof -
  obtain r1 c1 r2 c2 where run: "tx_manager_new E c = (r1, c1)" "tx_manager_force_new E c1 = (r2, c2)"
    by fastforce
  note e = provider_manager(2) [OF assms(1) run(1)] provider_manager(3) [OF assms(1) run(2)]
  show ?thesis
    using assms(2) run e evolves_trans [OF e] unfolding create_tx_manager_def
    by (cases url; cases r1) (auto split: TxManagerError.split_asm)
qed

lemma claimer_new_at:
  assumes new: "claimer_new E cfg connect stream c = (Ok cl, c')"
    and laws: "provider_laws E (unat (se_confirmations cfg))"
      "history_laws E (unat (se_confirmations cfg)) (unat (se_genesis_block cfg))"
    and redis: "\<And>b. connect = Ok b \<Longrightarrow> redis_laws {} (redis b)"
  shows "claimer_at E (unat (se_confirmations cfg)) (unat (se_genesis_block cfg)) 0 (cl, c')" and "claim_stream cl = stream"
proof -
  let ?d = "unat (se_confirmations cfg)" and ?g = "unat (se_genesis_block cfg)"
  let ?dc = "\<lparr> claims = (\<lambda>_. None), dc_confirmations = se_confirmations cfg, next_block_to_read = se_genesis_block cfg \<rparr>"
  obtain out c1 where chk: "checker_new E (se_url cfg) (se_confirmations cfg) (se_genesis_block cfg) c = (out, c1)"
    by fastforce
  obtain out2 c2 where snd: "sender_new E (se_signer cfg) (se_url cfg) (se_confirmations cfg) (se_priority cfg)
      (se_authority_address cfg) (se_chain_id cfg) c1 = (out2, c2)"
    by fastforce
  obtain b dc t where b: "connect = Ok b" and dc: "out = Ok dc" and t: "out2 = Ok t" and c': "c' = c2"
    and cl: "cl = \<lparr> broker_listener = \<lparr> bl_broker = b, bl_stream = stream, last_claim_id = INITIAL_ID \<rparr>,
      duplicate_checker = dc, transaction_sender = t \<rparr>"
    using new chk snd by (auto simp: claimer_new_def listener_new_def and_then_Ok_iff bind_outcome_Ok_iff)
  have "mirrors E ?d ?g (?dc, c)"
    by (simp add: mirrors_def seen_log_def log_between_def grouped_def fun_eq_iff)
  moreover have "update_claims E (?dc, c) = (Ok (), dc, c1)"
    using chk dc by (auto simp: checker_new_def bind_outcome_Ok_iff split: sum.splits prod.splits)
  ultimately have m: "mirrors E ?d ?g (dc, c1)"
    by (rule update_claims_mirrors(1) [OF laws(1)])
  have "\<exists>m. create_tx_manager E (se_url cfg) c1 = (Ok m, c2)" and conf: "ts_confirmations t = se_confirmations cfg"
    using snd t by (auto simp: sender_new_def and_then_Ok_iff)
  then have "evolves E ?d c1 c2"
    using create_tx_manager_evolves [OF laws(1)] by blast
  then show "claimer_at E ?d ?g 0 (cl, c')"
    using checker_inv_evolves [of E ?d ?g dc c1 c2] m laws conf redis [OF b]
    by (simp add: claimer_at_def checker_inv_def cl c' stream_reader_def at_position_initial)
  show "claim_stream cl = stream"
    by (simp add: cl)
qed

section \<open>Properties\<close>




section \<open>A chain in memory\<close>

text \<open>A chain that takes two claims of one application: after \<open>n\<close> of them its height is \<open>n + 1\<close>, and the
  block at height \<open>i\<close> reports claim \<open>i\<close>.\<close>

definition chain_claim :: "nat \<Rightarrow> RollupsClaim" where
  "chain_claim i = \<lparr> rc_dapp_address = [7], rc_epoch_index = of_nat i, rc_epoch_hash = [],
     rc_first_index = (if i = 0 then 0 else 3), rc_last_index = (if i = 0 then 2 else 5) \<rparr>"

definition sample_block :: "nat \<Rightarrow> nat \<Rightarrow> (Address \<times> Claim) list" where
  "sample_block n b =
     (if b = 1 \<and> 0 < n then [([7], claim_of (chain_claim 0))]
      else if b = 2 \<and> 1 < n then [([7], claim_of (chain_claim 1))] else [])"

definition sample_height :: "nat \<Rightarrow> nat" where
  "sample_height n = min n 2 + 1"

definition sample_chain :: "(unit, nat) Ethereum" where
  "sample_chain = \<lparr>
     get_block_number = (\<lambda>n. (Inr (of_nat (sample_height n)), n)),
     query_new_claims = (\<lambda>f t n. (Inr (concat (map (sample_block n) [unat f..<Suc (unat t)])), n)),
     claim_encode = (\<lambda>x. if x = claim_of (chain_claim 0) then [1] else if x = claim_of (chain_claim 1) then [2] else []),
     abi_encode = (\<lambda>ts. if ts = [TokenAddress [7], TokenFixedBytes [1]] then [1]
                       else if ts = [TokenAddress [7], TokenFixedBytes [2]] then [2] else []),
     submit_claim = (\<lambda>a bs f. \<lparr> tx_to = Some (EnsAddress a), tx_data = Some bs \<rparr>),
     tx_manager_new = (\<lambda>n. (Inr (), n)), tx_manager_force_new = (\<lambda>n. (Inr (), n)),
     tx_manager_send = (\<lambda>m tx k p n.
       if call_data tx = Some [1] \<and> n = 0 \<and> unat k = 1 then (Inr (), 1)
       else if call_data tx = Some [2] \<and> n = 1 \<and> unat k = 1 then (Inr (), 2) else (Inl (TxManagerOther ''reverted''), n)),
     block_height = sample_height, block_claims = sample_block \<rparr>"

lemma sample_chain_sel:
  "get_block_number sample_chain n = (Inr (of_nat (sample_height n)), n)"
  "query_new_claims sample_chain f t n = (Inr (concat (map (sample_block n) [unat f..<Suc (unat t)])), n)"
  "tx_manager_new sample_chain n = (Inr (), n)" "tx_manager_force_new sample_chain n = (Inr (), n)"
  "block_height sample_chain = sample_height" "block_claims sample_chain = sample_block"
  by (simp_all add: sample_chain_def)

lemma sample_send:
  "tx_manager_send sample_chain m tx k p n =
     (if call_data tx = Some [1] \<and> n = 0 \<and> unat k = 1 then (Inr (), 1)
      else if call_data tx = Some [2] \<and> n = 1 \<and> unat k = 1 then (Inr (), 2) else (Inl (TxManagerOther ''reverted''), n))"
  by (simp add: sample_chain_def)

lemma sample_evolves: "n \<le> n' \<Longrightarrow> evolves sample_chain 1 n n'"
  by (auto simp: evolves_def sample_chain_def sample_height_def sample_block_def)

lemma sample_height_small: "sample_height n \<le> 3"
  by (simp add: sample_height_def)

lemma sample_provider: "provider_laws sample_chain 1"
proof -
  have "unat (word_of_nat (sample_height n) :: u64) = sample_height n" for n
    using sample_height_small [of n] by (simp add: unat_of_nat)
  then have "number_law sample_chain 1"
    by (simp add: number_law_def sample_evolves sample_chain_sel)
  moreover have "query_law sample_chain 1"
    by (simp add: query_law_def log_between_def sample_evolves sample_chain_sel)
  moreover have "manager_law sample_chain 1"
    by (simp add: manager_law_def sample_evolves [simplified] sample_chain_sel sample_send)
  moreover have "block_height sample_chain n < 2 ^ 64 - 1" for n
    using sample_height_small [of n] by (simp add: sample_chain_sel)
  ultimately show ?thesis
    by (simp add: provider_laws_def)
qed

lemma sample_history: "history_laws sample_chain 1 1"
proof -
  have "covers_from 0 (claims_of dapp (concat (map (sample_block c) [1..<n])))" if n: "n \<le> sample_height c" for c n dapp
  proof -
    consider "n \<le> 1" | "n = 2" | "n = 3"
      using n sample_height_small [of c] by linarith
    then show ?thesis
    proof cases
      case 2
      then show ?thesis by (simp add: upt_rec sample_block_def claim_of_def chain_claim_def)
    next
      case 3
      then show ?thesis by (simp add: upt_rec sample_block_def claim_of_def chain_claim_def)
    qed simp
  qed
  then show ?thesis
    by (simp add: history_laws_def log_between_def sample_chain_sel)
qed

lemma sample_submission: "submission_laws sample_chain 1 1"
proof -
  have one: "rc_dapp_address claim = [7] \<and> claim_of claim = claim_of (chain_claim 0)"
    if "submittable_claim sample_chain (rc_dapp_address claim) claim = [1]" for claim
    using that by (auto simp: submittable_claim_def sample_chain_def claim_of_def [symmetric] split: if_splits)
  have two: "rc_dapp_address claim = [7] \<and> claim_of claim = claim_of (chain_claim 1)"
    if "submittable_claim sample_chain (rc_dapp_address claim) claim = [2]" for claim
    using that by (auto simp: submittable_claim_def sample_chain_def claim_of_def [symmetric] split: if_splits)
  have data: "tx_data (submit_claim sample_chain a bs f) = Some bs" for a bs f
    by (simp add: sample_chain_def)
  have "landed sample_chain 1 1 c' claim"
    if run: "tx_manager_send sample_chain m tx k p c = (Inr m', c')"
      and call: "call_data tx = Some (submittable_claim sample_chain (rc_dapp_address claim) claim)"
    for m tx k p c m' c' claim
  proof -
    consider "call_data tx = Some [1]" "c' = 1" | "call_data tx = Some [2]" "c' = 2"
      using run by (auto simp: sample_send split: if_splits)
    then show ?thesis
    proof cases
      case 1
      with one [of claim] call show ?thesis
        by (simp add: landed_def sample_chain_sel sample_height_def sample_block_def exI [of _ 1])
    next
      case 2
      with two [of claim] call show ?thesis
        by (simp add: landed_def sample_chain_sel sample_height_def sample_block_def exI [of _ 2])
    qed
  qed
  then show ?thesis
    by (simp add: submission_laws_def data) blast
qed

definition sample_claims :: "mem_server Broker" where
  "sample_claims = mem_broker ((\<lambda>_. [])(''claims'' := map (\<lambda>i. [(''payload'', show_nat (to_nat (chain_claim i)))]) [0, 0, 1]))"

definition sample_setup :: AuthorityClaimerSetup where
  "sample_setup = \<lparr> se_url = Inr (), se_signer = Inr [1], se_confirmations = 1, se_genesis_block = 1,
     se_priority = PriorityNormal, se_authority_address = [2], se_chain_id = 5 \<rparr>"

text \<open>The claimer after \<open>n\<close> claims have been sent, with the last identifier and the next block to read.\<close>

definition sample_claimer :: "string \<Rightarrow> nat \<Rightarrow> nat \<Rightarrow> (mem_server, unit) DefaultClaimer" where
  "sample_claimer i b n =
     \<lparr> broker_listener = \<lparr> bl_broker = sample_claims, bl_stream = numbered_stream ''claims'', last_claim_id = i \<rparr>,
       duplicate_checker = \<lparr> claims = grouped (concat (map (sample_block n) [1..<b])), dc_confirmations = 1,
         next_block_to_read = of_nat b \<rparr>,
       transaction_sender = \<lparr> tx_manager = (), ts_confirmations = 1, priority = PriorityNormal, ts_from = [1], authority = [2],
         ts_chain_id = 5, claims_sent = (\<lambda>_. 0)(\<lparr> chain_id = 5, dapp_address = [7] \<rparr> := n) \<rparr> \<rparr>"

lemma sample_new:
  "claimer_new sample_chain sample_setup (Ok sample_claims) (numbered_stream ''claims'') 0 = (Ok (sample_claimer INITIAL_ID 1 0), 0)"
  by (simp add: claimer_new_def sample_setup_def sample_claimer_def listener_new_def checker_new_def update_claims_def
      sample_chain_sel sample_height_def sender_new_def create_tx_manager_def grouped_def fun_eq_iff)

lemma sample_listen_from:
  assumes "after_id i (mem_entries (map (\<lambda>i. [(''payload'', show_nat (to_nat (chain_claim i)))]) [0, 0, 1])) =
    (j, [(''payload'', show_nat (to_nat claim))]) # es"
  shows "listen (broker_listener (sample_claimer i b n)) = Some (Ok claim, broker_listener (sample_claimer j b n))"
  using assms by (simp add: listen_def sample_claimer_def sample_claims_def mem_consume event_try_from_def numbered_stream_def)

lemma sample_ids: "mem_entries [x, y, z] = [(show_nat 1, x), (show_nat 2, y), (show_nat 3, z)]"
  by (simp add: mem_entries_def numeral_eq_Suc)

lemma sample_listen:
  "listen (broker_listener (sample_claimer INITIAL_ID b n)) = Some (Ok (chain_claim 0), broker_listener (sample_claimer (show_nat 1) b n))"
  "listen (broker_listener (sample_claimer (show_nat 1) b n)) = Some (Ok (chain_claim 0), broker_listener (sample_claimer (show_nat 2) b n))"
  "listen (broker_listener (sample_claimer (show_nat 2) b n)) = Some (Ok (chain_claim 1), broker_listener (sample_claimer (show_nat 3) b n))"
  using show_nat_Suc_not_initial [of 0] show_nat_Suc_not_initial [of 1]
  by (intro sample_listen_from; simp add: sample_ids after_id_def show_nat_inject numeral_eq_Suc)+

lemma sample_turn:
  assumes "listen (broker_listener (sample_claimer i b n)) = Some (Ok claim, broker_listener (sample_claimer j b n))"
    and "process_claim sample_chain claim (sample_claimer j b n, n) = (Ok sent, s')"
  shows "claimer_iteration sample_chain (sample_claimer i b n, n) = Some (Ok (claim, sent), s')"
proof -
  have "(sample_claimer i b n)\<lparr>broker_listener := broker_listener (sample_claimer j b n)\<rparr> = sample_claimer j b n"
    by (simp add: sample_claimer_def)
  with assms show ?thesis
    by (simp add: claimer_iteration_def)
qed

lemma sample_tx:
  "submittable_claim sample_chain [7] (chain_claim 0) = [1]" "submittable_claim sample_chain [7] (chain_claim 1) = [2]"
  "submit_claim sample_chain a bs f = \<lparr> tx_to = Some (EnsAddress a), tx_data = Some bs \<rparr>"
  by (simp_all add: submittable_claim_def sample_chain_def claim_of_def chain_claim_def)

lemma sample_dapp: "rc_dapp_address (chain_claim k) = [7]"
  "rc_first_index (chain_claim 0) = 0" "rc_last_index (chain_claim 0) = 2" "rc_first_index (chain_claim (Suc 0)) = 3"
  by (simp_all add: chain_claim_def)

lemma sample_check:
  "is_duplicated_rollups_claim sample_chain (chain_claim 0) (duplicate_checker (sample_claimer i 1 0), 0) =
     (Ok False, duplicate_checker (sample_claimer i 1 0), 0)"
  "is_duplicated_rollups_claim sample_chain (chain_claim 0) (duplicate_checker (sample_claimer i 1 1), 1) =
     (Ok True, duplicate_checker (sample_claimer i 2 1), 1)"
  "is_duplicated_rollups_claim sample_chain (chain_claim 1) (duplicate_checker (sample_claimer i 2 1), 1) =
     (Ok False, duplicate_checker (sample_claimer i 2 1), 1)"
  by (simp_all add: is_duplicated_rollups_claim_def update_claims_def sample_claimer_def sample_chain_sel sample_height_def
      expected_index_def sample_dapp grouped_def append_claims_def sample_block_def claim_of_def upt_rec fun_eq_iff)

lemma sample_sent:
  "send_rollups_claim_transaction sample_chain (chain_claim 0) (transaction_sender (sample_claimer i b 0)) 0 =
     (Ok (transaction_sender (sample_claimer i b 1)), 1)"
  "send_rollups_claim_transaction sample_chain (chain_claim 1) (transaction_sender (sample_claimer i b 1)) 1 =
     (Ok (transaction_sender (sample_claimer i b 2)), 2)"
  using sample_tx
  by (simp_all add: send_rollups_claim_transaction_def claim_transaction_def sample_claimer_def sample_dapp sample_send numeral_2_eq_2)

lemma sample_process:
  "process_claim sample_chain (chain_claim 0) (sample_claimer i 1 0, 0) = (Ok True, sample_claimer i 1 1, 1)"
  "process_claim sample_chain (chain_claim 0) (sample_claimer i 1 1, 1) = (Ok False, sample_claimer i 2 1, 1)"
  "process_claim sample_chain (chain_claim 1) (sample_claimer i 2 1, 1) = (Ok True, sample_claimer i 2 2, 2)"
  using sample_check [of i] sample_sent [of i 1] sample_sent [of i 2]
  by (simp_all add: process_claim_def) (simp_all add: sample_claimer_def upt_rec sample_block_def)

lemma sample_runs_claims:
  "claimer_runs sample_chain (sample_claimer INITIAL_ID 1 0, 0) [(chain_claim 0, True), (chain_claim 0, False), (chain_claim 1, True)]
     (sample_claimer (show_nat 3) 2 2, 2)"
proof -
  note turn = sample_turn [OF sample_listen(1) sample_process(1)] sample_turn [OF sample_listen(2) sample_process(2)]
    sample_turn [OF sample_listen(3) sample_process(3)]
  from claimer_runs.more [OF claimer_runs.more [OF claimer_runs.more [OF claimer_runs.none turn(1)] turn(2)] turn(3)]
  show ?thesis by simp
qed

lemmas sample_claimer_laws = sample_provider sample_history sample_submission mem_redis_laws



end
