(* ===== verification/Graphql.thy ===== *)
theory Graphql
  imports Data_Repository
begin

text \<open>
  The GraphQL server (\<open>graphql-server/src\<close>): the resolvers of the schema over the repository, the scalar
  values of the schema and the HTTP handler.

  The context of a query holds the repository and nothing else, so a resolver is an operation on the
  repository.  Juniper, which parses a query and calls the resolvers of its fields, is a parameter of the
  handler.  The encoders \<open>hex\<close> and \<open>base64\<close> are parameters, and so is the arithmetic of \<open>f64\<close>.
\<close>

section \<open>Errors (resolvers.rs, rollups_data::Error)\<close>

fun data_error_display :: "DataError \<Rightarrow> string" where
  "data_error_display (DatabaseConnectionError _) = ''database pool connection error''"
| "data_error_display (DatabaseError _) = ''database error''"
| "data_error_display (ItemNotFound item_type) = item_type @ '' not found''"
| "data_error_display DecodeUTF8CursorError = ''failed to decode UTF8 cursor''"
| "data_error_display (DecodeBase64CursorError _) = ''failed to decode base64 cursor''"
| "data_error_display (ParseCursorError _) = ''failed to parse cursor''"
| "data_error_display MixedPaginationError =
     ''cannot mix forward pagination (first, after) with backward pagination (last, before)''"
| "data_error_display (PaginationCursorError arg) = ''invalid pagination cursor '' @ arg"
| "data_error_display (PaginationLimitError arg) = ''invalid pagination limit '' @ arg"

datatype FieldError = FieldError string

definition convert_error :: "DataError \<Rightarrow> FieldError" where
  "convert_error e = FieldError (data_error_display e)"

definition resolved :: "('s, DataError, 'a) action \<Rightarrow> ('s, FieldError, 'a) action" where
  "resolved m = (map_err convert_error (fst m), snd m)"

definition gql_hex_encode :: "(byte list \<Rightarrow> string) \<Rightarrow> byte list \<Rightarrow> string" where
  "gql_hex_encode hex_encode data = ''0x'' @ hex_encode data"

section \<open>The query object (resolvers.rs)\<close>

record InputFilter =
  ft_index_lower_than :: "i32 option"
  ft_index_greater_than :: "i32 option"

definition input_query_filter_from :: "InputFilter \<Rightarrow> InputQueryFilter" where
  "input_query_filter_from f =
     \<lparr> index_greater_than = ft_index_greater_than f, index_lower_than = ft_index_lower_than f \<rparr>"

definition default_input_filter :: InputQueryFilter where
  "default_input_filter = \<lparr> index_greater_than = None, index_lower_than = None \<rparr>"

definition default_output_filter :: OutputQueryFilter where
  "default_output_filter = \<lparr> fl_input_index = None \<rparr>"

type_synonym ('d, 'a) resolver = "'d Repository \<Rightarrow> ('d Repository, FieldError, 'a) action"

definition query_input :: "i32 \<Rightarrow> ('d, InputRow) resolver" where
  "query_input index r = resolved (get_input index r)"

definition query_voucher :: "i32 \<Rightarrow> i32 \<Rightarrow> ('d, VoucherRow) resolver" where
  "query_voucher voucher_index input_index r = resolved (get_voucher voucher_index input_index r)"

definition query_notice :: "i32 \<Rightarrow> i32 \<Rightarrow> ('d, NoticeRow) resolver" where
  "query_notice notice_index input_index r = resolved (get_notice notice_index input_index r)"

definition query_report :: "i32 \<Rightarrow> i32 \<Rightarrow> ('d, ReportRow) resolver" where
  "query_report report_index input_index r = resolved (get_report report_index input_index r)"

definition query_inputs ::
  "Base64 \<Rightarrow> i32 option \<Rightarrow> i32 option \<Rightarrow> string option \<Rightarrow> string option \<Rightarrow> InputFilter option \<Rightarrow> ('d, InputRow Connection) resolver" where
  "query_inputs B first last_arg after before where_arg r =
     (let filter = (case where_arg of Some f \<Rightarrow> input_query_filter_from f | None \<Rightarrow> default_input_filter) in
      resolved (get_inputs B first last_arg after before filter r))"

definition query_vouchers ::
  "Base64 \<Rightarrow> i32 option \<Rightarrow> i32 option \<Rightarrow> string option \<Rightarrow> string option \<Rightarrow> ('d, VoucherRow Connection) resolver" where
  "query_vouchers B first last_arg after before r = resolved (get_vouchers B first last_arg after before default_output_filter r)"

definition query_notices ::
  "Base64 \<Rightarrow> i32 option \<Rightarrow> i32 option \<Rightarrow> string option \<Rightarrow> string option \<Rightarrow> ('d, NoticeRow Connection) resolver" where
  "query_notices B first last_arg after before r = resolved (get_notices B first last_arg after before default_output_filter r)"

definition query_reports ::
  "Base64 \<Rightarrow> i32 option \<Rightarrow> i32 option \<Rightarrow> string option \<Rightarrow> string option \<Rightarrow> ('d, ReportRow Connection) resolver" where
  "query_reports B first last_arg after before r = resolved (get_reports B first last_arg after before default_output_filter r)"

section \<open>Inputs (resolvers.rs)\<close>

datatype GqlCompletionStatus =
    GqlUnprocessed | GqlAccepted | GqlRejected | GqlException | GqlMachineHalted | GqlCycleLimitExceeded
  | GqlTimeLimitExceeded | GqlPayloadLengthLimitExceeded

fun gql_status_from :: "DbCompletionStatus \<Rightarrow> GqlCompletionStatus" where
  "gql_status_from CsUnprocessed = GqlUnprocessed"
| "gql_status_from CsAccepted = GqlAccepted"
| "gql_status_from CsRejected = GqlRejected"
| "gql_status_from CsException = GqlException"
| "gql_status_from CsMachineHalted = GqlMachineHalted"
| "gql_status_from CsCycleLimitExceeded = GqlCycleLimitExceeded"
| "gql_status_from CsTimeLimitExceeded = GqlTimeLimitExceeded"
| "gql_status_from CsPayloadLengthLimitExceeded = GqlPayloadLengthLimitExceeded"

text \<open>The timestamps of the rows are seconds from the epoch; \<open>duration_since\<close> fails before it.\<close>

definition gql_timestamp :: "InputRow \<Rightarrow> i64" where
  "gql_timestamp x = (if 0 \<le> in_timestamp x then word_of_int (in_timestamp x) else 0)"

text \<open>The fields of an input that do not query the repository.\<close>

record InputObject =
  io_index :: i32
  io_status :: GqlCompletionStatus
  io_msg_sender :: string
  io_timestamp :: i64
  io_block_number :: i64
  io_payload :: string

definition input_object :: "(byte list \<Rightarrow> string) \<Rightarrow> InputRow \<Rightarrow> InputObject" where
  "input_object hex x =
     \<lparr> io_index = in_index x, io_status = gql_status_from (in_status x), io_msg_sender = gql_hex_encode hex (in_msg_sender x),
       io_timestamp = gql_timestamp x, io_block_number = in_block_number x, io_payload = gql_hex_encode hex (in_payload x) \<rparr>"

definition input_voucher :: "InputRow \<Rightarrow> i32 \<Rightarrow> ('d, VoucherRow) resolver" where
  "input_voucher x index r = resolved (get_voucher index (in_index x) r)"

definition input_notice :: "InputRow \<Rightarrow> i32 \<Rightarrow> ('d, NoticeRow) resolver" where
  "input_notice x index r = resolved (get_notice index (in_index x) r)"

definition input_report :: "InputRow \<Rightarrow> i32 \<Rightarrow> ('d, ReportRow) resolver" where
  "input_report x index r = resolved (get_report index (in_index x) r)"

definition input_vouchers ::
  "InputRow \<Rightarrow> Base64 \<Rightarrow> i32 option \<Rightarrow> i32 option \<Rightarrow> string option \<Rightarrow> string option \<Rightarrow> ('d, VoucherRow Connection) resolver" where
  "input_vouchers x B first last_arg after before r =
     resolved (get_vouchers B first last_arg after before \<lparr> fl_input_index = Some (in_index x) \<rparr> r)"

definition input_notices ::
  "InputRow \<Rightarrow> Base64 \<Rightarrow> i32 option \<Rightarrow> i32 option \<Rightarrow> string option \<Rightarrow> string option \<Rightarrow> ('d, NoticeRow Connection) resolver" where
  "input_notices x B first last_arg after before r =
     resolved (get_notices B first last_arg after before \<lparr> fl_input_index = Some (in_index x) \<rparr> r)"

definition input_reports ::
  "InputRow \<Rightarrow> Base64 \<Rightarrow> i32 option \<Rightarrow> i32 option \<Rightarrow> string option \<Rightarrow> string option \<Rightarrow> ('d, ReportRow Connection) resolver" where
  "input_reports x B first last_arg after before r =
     resolved (get_reports B first last_arg after before \<lparr> fl_input_index = Some (in_index x) \<rparr> r)"

section \<open>Outputs (resolvers.rs)\<close>

record VoucherObject =
  vob_index :: i32
  vob_destination :: string
  vob_payload :: string

definition voucher_object :: "(byte list \<Rightarrow> string) \<Rightarrow> VoucherRow \<Rightarrow> VoucherObject" where
  "voucher_object hex v =
     \<lparr> vob_index = vo_index v, vob_destination = gql_hex_encode hex (vo_destination v), vob_payload = gql_hex_encode hex (vo_payload v) \<rparr>"

definition voucher_input :: "VoucherRow \<Rightarrow> ('d, InputRow) resolver" where
  "voucher_input v r = resolved (get_input (vo_input_index v) r)"

definition voucher_proof :: "VoucherRow \<Rightarrow> ('d, ProofRow option) resolver" where
  "voucher_proof v r = resolved (get_proof_row (vo_input_index v) (vo_index v) KindVoucher r)"

record NoticeObject =
  nob_index :: i32
  nob_payload :: string

definition notice_object :: "(byte list \<Rightarrow> string) \<Rightarrow> NoticeRow \<Rightarrow> NoticeObject" where
  "notice_object hex n = \<lparr> nob_index = no_index n, nob_payload = gql_hex_encode hex (no_payload n) \<rparr>"

definition notice_input :: "NoticeRow \<Rightarrow> ('d, InputRow) resolver" where
  "notice_input n r = resolved (get_input (no_input_index n) r)"

definition notice_proof :: "NoticeRow \<Rightarrow> ('d, ProofRow option) resolver" where
  "notice_proof n r = resolved (get_proof_row (no_input_index n) (no_index n) KindNotice r)"

record ReportObject =
  rob_index :: i32
  rob_payload :: string

definition report_object :: "(byte list \<Rightarrow> string) \<Rightarrow> ReportRow \<Rightarrow> ReportObject" where
  "report_object hex p = \<lparr> rob_index = re_index p, rob_payload = gql_hex_encode hex (re_payload p) \<rparr>"

definition report_input :: "ReportRow \<Rightarrow> ('d, InputRow) resolver" where
  "report_input p r = resolved (get_input (re_input_index p) r)"

section \<open>Proofs (resolvers.rs)\<close>

record GqlValidityProof =
  go_input_index_within_epoch :: i32
  go_output_index_within_input :: i32
  go_output_hashes_root_hash :: string
  go_vouchers_epoch_root_hash :: string
  go_notices_epoch_root_hash :: string
  go_machine_state_hash :: string
  go_output_hash_in_output_hashes_siblings :: "string list"
  go_output_hashes_in_epoch_siblings :: "string list"

definition sibling_encode :: "(byte list \<Rightarrow> string) \<Rightarrow> byte list option \<Rightarrow> string" where
  "sibling_encode hex hash = gql_hex_encode hex (case hash of Some h \<Rightarrow> h | None \<Rightarrow> [])"

definition proof_validity :: "(byte list \<Rightarrow> string) \<Rightarrow> ProofRow \<Rightarrow> GqlValidityProof" where
  "proof_validity hex p =
     \<lparr> go_input_index_within_epoch = pr_validity_input_index_within_epoch p,
       go_output_index_within_input = pr_validity_output_index_within_input p,
       go_output_hashes_root_hash = gql_hex_encode hex (pr_validity_output_hashes_root_hash p),
       go_vouchers_epoch_root_hash = gql_hex_encode hex (pr_validity_vouchers_epoch_root_hash p),
       go_notices_epoch_root_hash = gql_hex_encode hex (pr_validity_notices_epoch_root_hash p),
       go_machine_state_hash = gql_hex_encode hex (pr_validity_machine_state_hash p),
       go_output_hash_in_output_hashes_siblings =
         map (sibling_encode hex) (pr_validity_output_hash_in_output_hashes_siblings p),
       go_output_hashes_in_epoch_siblings = map (sibling_encode hex) (pr_validity_output_hashes_in_epoch_siblings p) \<rparr>"

definition proof_context :: "(byte list \<Rightarrow> string) \<Rightarrow> ProofRow \<Rightarrow> string" where
  "proof_context hex p = gql_hex_encode hex (pr_context p)"

section \<open>Connections (resolvers.rs)\<close>

record GqlPageInfo =
  gp_start_cursor :: "string option"
  gp_end_cursor :: "string option"
  gp_has_next_page :: bool
  gp_has_previous_page :: bool

definition gql_page_info_from :: "Base64 \<Rightarrow> PageInfo \<Rightarrow> GqlPageInfo" where
  "gql_page_info_from B p =
     \<lparr> gp_start_cursor = map_option (cursor_encode B) (start_cursor p), gp_end_cursor = map_option (cursor_encode B) (end_cursor p),
       gp_has_next_page = has_next_page p, gp_has_previous_page = has_previous_page p \<rparr>"

record 'n ConnectionObject =
  co_total_count :: i32
  co_edges :: "('n \<times> string) list"
  co_page_info :: GqlPageInfo

text \<open>An edge is its node and its cursor.\<close>

definition connection_object :: "Base64 \<Rightarrow> 'n Connection \<Rightarrow> 'n ConnectionObject" where
  "connection_object B c =
     \<lparr> co_total_count = cn_total_count c, co_edges = map (\<lambda>e. (ed_node e, cursor_encode B (ed_cursor e))) (cn_edges c),
       co_page_info = gql_page_info_from B (cn_page_info c) \<rparr>"

section \<open>Scalars (scalar.rs)\<close>

datatype 'f RollupsGraphQLScalarValue =
    ScalarInt i32 | ScalarBigInt i64 | ScalarFloat 'f | ScalarString string | ScalarBoolean bool

definition show_i64 :: "i64 \<Rightarrow> string" where
  "show_i64 n = (if sint n < 0 then ''-'' @ show_nat (nat (- sint n)) else show_nat (nat (sint n)))"

definition bigint_resolve :: "i64 \<Rightarrow> 'f RollupsGraphQLScalarValue" where
  "bigint_resolve n = ScalarString (show_i64 n)"

fun scalar_as_int :: "'f RollupsGraphQLScalarValue \<Rightarrow> i32 option" where
  "scalar_as_int (ScalarInt i) = Some i"
| "scalar_as_int _ = None"

fun scalar_as_string :: "'f RollupsGraphQLScalarValue \<Rightarrow> string option" where
  "scalar_as_string (ScalarString s) = Some s"
| "scalar_as_string _ = None"

fun scalar_as_float :: "(i32 \<Rightarrow> 'f) \<Rightarrow> 'f RollupsGraphQLScalarValue \<Rightarrow> 'f option" where
  "scalar_as_float i32_as_f64 (ScalarInt i) = Some (i32_as_f64 i)"
| "scalar_as_float i32_as_f64 (ScalarFloat f) = Some f"
| "scalar_as_float i32_as_f64 _ = None"

fun scalar_as_boolean :: "'f RollupsGraphQLScalarValue \<Rightarrow> bool option" where
  "scalar_as_boolean (ScalarBoolean b) = Some b"
| "scalar_as_boolean _ = None"

definition visit_i64 :: "i64 \<Rightarrow> 'f RollupsGraphQLScalarValue" where
  "visit_i64 v = (if sint v \<le> 2 ^ 31 - 1 then ScalarInt (ucast v) else ScalarBigInt v)"

definition visit_u64 :: "(u64 \<Rightarrow> 'f) \<Rightarrow> u64 \<Rightarrow> 'f RollupsGraphQLScalarValue" where
  "visit_u64 u64_as_f64 v = (if uint v \<le> 2 ^ 63 - 1 then visit_i64 v else ScalarFloat (u64_as_f64 v))"

definition visit_u32 :: "(u64 \<Rightarrow> 'f) \<Rightarrow> 32 word \<Rightarrow> 'f RollupsGraphQLScalarValue" where
  "visit_u32 u64_as_f64 v = (if uint v \<le> 2 ^ 31 - 1 then ScalarInt v else visit_u64 u64_as_f64 (ucast v))"

section \<open>The HTTP handler (http.rs)\<close>

record GraphqlResponse =
  gres_status :: nat
  gres_body :: string

text \<open>\<open>execute_sync\<close> runs the resolvers of a query and the answer is printed as JSON; a panic of a resolver
  ends the blocking task.\<close>

definition graphql ::
  "('q \<Rightarrow> 's \<Rightarrow> 'v option \<times> 's) \<Rightarrow> ('v \<Rightarrow> string + string) \<Rightarrow> string \<Rightarrow> 'q \<Rightarrow> 's \<Rightarrow> GraphqlResponse \<times> 's" where
  "graphql execute_sync to_json_string join_error query s =
     (let failed = (\<lambda>err. \<lparr> gres_status = 400,
            gres_body = ''unable to execute query, internal server error, details: '' @ err \<rparr>) in
      case execute_sync query s of
        (Some res, s) \<Rightarrow>
          ((case to_json_string res of Inr v \<Rightarrow> \<lparr> gres_status = 200, gres_body = v \<rparr> | Inl err \<Rightarrow> failed err), s)
      | (None, s) \<Rightarrow> (failed join_error, s))"


section \<open>What a query answers\<close>

definition gql_answers :: "(FieldError, 'a) outcome \<Rightarrow> ('a \<Rightarrow> bool) \<Rightarrow> bool" where
  "gql_answers out Q \<longleftrightarrow> out = Err (FieldError ''database pool connection error'') \<or> out = Err (FieldError ''database error'') \<or>
     (\<exists>y. out = Ok y \<and> Q y)"

lemma resolved_Ok [simp]: "resolved m = (Ok a, s) \<longleftrightarrow> m = (Ok a, s)"
  by (cases m) (simp add: resolved_def)

lemma resolved_answers: "answers (fst m) Q \<Longrightarrow> gql_answers (fst (resolved m)) Q"
  by (auto simp: answers_def gql_answers_def resolved_def convert_error_def db_failure_def)

lemma load_found:
  assumes "rep_ok r" and "shown r table get" and "keyed key ord (get (rep_view r))"
    and "and_then (load_last table (\<lambda>x. key x = k) r) (\<lambda>row r. (ok_or e row, r)) = (Ok v, r')"
  shows "rep_ok r' \<and> rep_view r' = rep_view r \<and> v \<in> set (get (rep_view r)) \<and> key v = k"
proof -
  obtain row where run: "load_last table (\<lambda>x. key x = k) r = (Ok row, r')" and row: "row = Some v"
    using assms(4) by (auto simp: and_then_Ok_iff)
  have "distinct (map key (get (rep_view r)))"
    using assms(3) by (simp add: keyed_def)
  with load_key [OF assms(1-3) run] row find_key_iff [of key "get (rep_view r)" k v] show ?thesis
    by auto
qed

lemma get_found:
  assumes "rep_ok r"
  shows "get_input i r = (Ok x, r') \<Longrightarrow>
      rep_ok r' \<and> rep_view r' = rep_view r \<and> x \<in> set (rw_inputs (rep_view r)) \<and> in_index x = i"
    and "get_voucher j i r = (Ok v, r') \<Longrightarrow>
      rep_ok r' \<and> rep_view r' = rep_view r \<and> v \<in> set (rw_vouchers (rep_view r)) \<and> vo_key v = (i, j)"
    and "get_notice j i r = (Ok n, r') \<Longrightarrow>
      rep_ok r' \<and> rep_view r' = rep_view r \<and> n \<in> set (rw_notices (rep_view r)) \<and> no_key n = (i, j)"
    and "get_report j i r = (Ok p, r') \<Longrightarrow>
      rep_ok r' \<and> rep_view r' = rep_view r \<and> p \<in> set (rw_reports (rep_view r)) \<and> re_key p = (i, j)"
  unfolding get_by_key
  using load_found [OF assms shown_tables(1) [OF assms] keyed_views(1) [OF assms]]
    load_found [OF assms shown_tables(2) [OF assms] keyed_views(2) [OF assms]]
    load_found [OF assms shown_tables(3) [OF assms] keyed_views(3) [OF assms]]
    load_found [OF assms shown_tables(4) [OF assms] keyed_views(4) [OF assms]]
  by blast+

lemma key_answers:
  assumes "rep_ok r" and "shown r table get" and "keyed key ord (get (rep_view r))" and "k \<in> key ` set (get (rep_view r))"
  shows "answers (fst (and_then (load_last table (\<lambda>x. key x = k) r) (\<lambda>row r. (ok_or e row, r))))
    (\<lambda>x. x \<in> set (get (rep_view r)) \<and> key x = k)"
proof (rule answers_found [OF assms(1)])
  fix row r' assume run: "load_last table (\<lambda>x. key x = k) r = (Ok row, r')"
  have "row = find (\<lambda>y. key y = k) (get (rep_view r))"
    using load_key [OF assms(1-3) run] by simp
  moreover have "distinct (map key (get (rep_view r)))"
    using assms(3) by (simp add: keyed_def)
  ultimately show "\<exists>y. row = Some y \<and> y \<in> set (get (rep_view r)) \<and> key y = k"
    using assms(4) by (auto dest: keyed_find)
qed

lemma get_answers:
  assumes "rep_ok r"
  shows "has_input i (rep_view r) \<Longrightarrow>
      answers (fst (get_input i r)) (\<lambda>x. x \<in> set (rw_inputs (rep_view r)) \<and> in_index x = i)"
    and "(i, j) \<in> vo_key ` set (rw_vouchers (rep_view r)) \<Longrightarrow>
      answers (fst (get_voucher j i r)) (\<lambda>x. x \<in> set (rw_vouchers (rep_view r)) \<and> vo_key x = (i, j))"
    and "(i, j) \<in> no_key ` set (rw_notices (rep_view r)) \<Longrightarrow>
      answers (fst (get_notice j i r)) (\<lambda>x. x \<in> set (rw_notices (rep_view r)) \<and> no_key x = (i, j))"
  unfolding get_by_key has_input_def
  by (rule key_answers [OF assms shown_tables(1) [OF assms] keyed_views(1) [OF assms]]
      key_answers [OF assms shown_tables(2) [OF assms] keyed_views(2) [OF assms]]
      key_answers [OF assms shown_tables(3) [OF assms] keyed_views(3) [OF assms]]; assumption)+

lemma get_proof_answers:
  assumes "rep_ok r"
  shows "answers (fst (get_proof_row i j k r)) (\<lambda>p. \<forall>q. p = Some q \<longrightarrow> q \<in> set (rw_proofs (rep_view r)) \<and> pr_key q = (i, j, k))"
proof -
  obtain out r' where run: "load_last db_proofs (\<lambda>x. pr_key x = (i, j, k)) r = (out, r')"
    by (rule prod.exhaust)
  have "distinct (map pr_key (rw_proofs (rep_view r)))"
    using keyed_views(5) [OF assms] by (simp add: keyed_def)
  then show ?thesis
    using load_key [OF assms shown_tables(5) [OF assms] keyed_views(5) [OF assms] run] run
      find_key_iff [of pr_key "rw_proofs (rep_view r)" "(i, j, k)"] load_last_failure [of db_proofs _ r _ r']
    by (cases out) (auto simp: get_by_key answers_def)
qed

text \<open>Every output belongs to an input: the foreign keys of the tables.\<close>

definition references_ok :: "Rows \<Rightarrow> bool" where
  "references_ok v \<longleftrightarrow> (\<forall>x \<in> set (rw_vouchers v). has_input (vo_input_index x) v) \<and>
     (\<forall>x \<in> set (rw_notices v). has_input (no_input_index x) v) \<and> (\<forall>x \<in> set (rw_reports v). has_input (re_input_index x) v)"

section \<open>Properties\<close>

text \<open>C13: The edges of the graph lead where they should: the voucher, notice or report that a query finds by its
  two indices has these indices, its input is found, is the one named in the query and is never
  reported as missing, and a proof that it returns is the proof of this very output.\<close>

theorem graphql_navigation:
  assumes "rep_ok r" and "references_ok (rep_view r)"
  shows "(\<forall>j i v r1. query_voucher j i r = (Ok v, r1) \<longrightarrow>
      v \<in> set (rw_vouchers (rep_view r)) \<and> vob_index (voucher_object hex v) = j \<and>
      gql_answers (fst (voucher_input v r1)) (\<lambda>x. x \<in> set (rw_inputs (rep_view r)) \<and> io_index (input_object hex x) = i) \<and>
      gql_answers (fst (voucher_proof v r1)) (\<lambda>p. \<forall>q. p = Some q \<longrightarrow> q \<in> set (rw_proofs (rep_view r)) \<and> pr_key q = (i, j, KindVoucher))) \<and>
    (\<forall>j i n r1. query_notice j i r = (Ok n, r1) \<longrightarrow>
      n \<in> set (rw_notices (rep_view r)) \<and> nob_index (notice_object hex n) = j \<and>
      gql_answers (fst (notice_input n r1)) (\<lambda>x. x \<in> set (rw_inputs (rep_view r)) \<and> io_index (input_object hex x) = i) \<and>
      gql_answers (fst (notice_proof n r1)) (\<lambda>p. \<forall>q. p = Some q \<longrightarrow> q \<in> set (rw_proofs (rep_view r)) \<and> pr_key q = (i, j, KindNotice))) \<and>
    (\<forall>j i p r1. query_report j i r = (Ok p, r1) \<longrightarrow>
      p \<in> set (rw_reports (rep_view r)) \<and> rob_index (report_object hex p) = j \<and>
      gql_answers (fst (report_input p r1)) (\<lambda>x. x \<in> set (rw_inputs (rep_view r)) \<and> io_index (input_object hex x) = i))"
proof (intro conjI allI impI)
  fix j i v r1 assume "query_voucher j i r = (Ok v, r1)"
  then have "get_voucher j i r = (Ok v, r1)"
    by (simp add: query_voucher_def)
  note v = get_found(2) [OF assms(1) this]
  then show "v \<in> set (rw_vouchers (rep_view r))" "vob_index (voucher_object hex v) = j"
    by (simp_all add: voucher_object_def vo_key_def)
  have "has_input i (rep_view r1)"
    using v assms(2) by (auto simp: references_ok_def vo_key_def)
  then show "gql_answers (fst (voucher_input v r1)) (\<lambda>x. x \<in> set (rw_inputs (rep_view r)) \<and> io_index (input_object hex x) = i)"
    using resolved_answers [OF get_answers(1) [of r1 i]] v by (simp add: voucher_input_def vo_key_def input_object_def)
  show "gql_answers (fst (voucher_proof v r1)) (\<lambda>p. \<forall>q. p = Some q \<longrightarrow> q \<in> set (rw_proofs (rep_view r)) \<and> pr_key q = (i, j, KindVoucher))"
    using resolved_answers [OF get_proof_answers [of r1 i j KindVoucher]] v by (simp add: voucher_proof_def vo_key_def)
next
  fix j i n r1 assume "query_notice j i r = (Ok n, r1)"
  then have "get_notice j i r = (Ok n, r1)"
    by (simp add: query_notice_def)
  note n = get_found(3) [OF assms(1) this]
  then show "n \<in> set (rw_notices (rep_view r))" "nob_index (notice_object hex n) = j"
    by (simp_all add: notice_object_def no_key_def)
  have "has_input i (rep_view r1)"
    using n assms(2) by (auto simp: references_ok_def no_key_def)
  then show "gql_answers (fst (notice_input n r1)) (\<lambda>x. x \<in> set (rw_inputs (rep_view r)) \<and> io_index (input_object hex x) = i)"
    using resolved_answers [OF get_answers(1) [of r1 i]] n by (simp add: notice_input_def no_key_def input_object_def)
  show "gql_answers (fst (notice_proof n r1)) (\<lambda>p. \<forall>q. p = Some q \<longrightarrow> q \<in> set (rw_proofs (rep_view r)) \<and> pr_key q = (i, j, KindNotice))"
    using resolved_answers [OF get_proof_answers [of r1 i j KindNotice]] n by (simp add: notice_proof_def no_key_def)
next
  fix j i p r1 assume "query_report j i r = (Ok p, r1)"
  then have "get_report j i r = (Ok p, r1)"
    by (simp add: query_report_def)
  note p = get_found(4) [OF assms(1) this]
  then show "p \<in> set (rw_reports (rep_view r))" "rob_index (report_object hex p) = j"
    by (simp_all add: report_object_def re_key_def)
  have "has_input i (rep_view r1)"
    using p assms(2) by (auto simp: references_ok_def re_key_def)
  then show "gql_answers (fst (report_input p r1)) (\<lambda>x. x \<in> set (rw_inputs (rep_view r)) \<and> io_index (input_object hex x) = i)"
    using resolved_answers [OF get_answers(1) [of r1 i]] p by (simp add: report_input_def re_key_def input_object_def)
qed

theorem graphql_navigation_witness:
  "\<exists>r1. query_report 1 0 (mem_repository sample_rows) = (Ok (sample_report_row 1), r1) \<and>
     gql_answers (fst (report_input (sample_report_row 1) r1)) (\<lambda>x. x = sample_input_row)"
proof -
  let ?r = "mem_repository sample_rows"
  have ok: "rep_ok ?r"
    by (simp add: mem_rep_ok sample_rows_keyed)
  have refs: "references_ok (rep_view ?r)"
    by (simp add: references_ok_def sample_rows_def has_input_def no_rows_def
        sample_input_row_def sample_report_row_def)
  have run: "query_report 1 0 ?r = (Ok (sample_report_row 1), ?r)"
    by (simp add: query_report_def get_report_def load_last_def conn_def run_db_def mem_repository_def mem_db_def mem_table_def
        sample_rows_def sample_report_row_def)
  from graphql_navigation [OF ok refs, of "\<lambda>_. []"] run
  have "gql_answers (fst (report_input (sample_report_row 1) ?r))
      (\<lambda>x. x \<in> set (rw_inputs (rep_view ?r)) \<and> io_index (input_object (\<lambda>_. []) x) = 0)"
    by blast
  with run show ?thesis
    by (auto simp: gql_answers_def sample_rows_def)
qed

lemma enumerate_nodes: "ed_node ` (\<lambda>(i, node). \<lparr> ed_node = node, ed_cursor = f i \<rparr>) ` set (List.enumerate n xs) = set xs"
  by (induction xs arbitrary: n) auto

lemma create_connection_nodes: "ed_node ` set (cn_edges (create_connection p nodes)) = set nodes"
  using enumerate_nodes [of "\<lambda>i. \<lparr> cursor_offset = pg_offset p + of_nat i \<rparr>" 0 nodes]
  by (simp add: create_connection_def Let_def split_beta)

lemma query_page_nodes:
  assumes "query_page B rows first last_arg after before = Ok c"
  shows "ed_node ` set (cn_edges c) \<subseteq> set rows"
proof -
  obtain p nodes where "c = create_connection p nodes" and "set nodes \<subseteq> set rows"
    using assms set_take_subset set_drop_subset
    by (fastforce simp: query_page_def bind_outcome_Ok_iff dest!: in_set_takeD in_set_dropD)
  then show ?thesis
    by (simp add: create_connection_nodes)
qed

lemma gql_page_nodes:
  assumes "rep_ok r" and "shown r table rows" and "length (rows (rep_view r)) < 2 ^ 31"
    and "paginated_query B table p first last_arg after before r = (Ok c, r')" and "e \<in> set (cn_edges c)"
  shows "ed_node e \<in> set (rows (rep_view r)) \<and> p (ed_node e)"
proof -
  have "query_page B (filter p (rows (rep_view r))) first last_arg after before = Ok c"
    using paginated_query_cases [OF assms(1,2) filter_short [OF assms(3)] assms(4)] by (auto simp: db_failure_def)
  from query_page_nodes [OF this] assms(5) show ?thesis
    by auto
qed

text \<open>A page of the outputs of an input holds outputs of this input only.\<close>

lemma input_pages:
  assumes "rep_ok r" and "length (rw_vouchers (rep_view r)) < 2 ^ 31" and "length (rw_notices (rep_view r)) < 2 ^ 31"
    and "length (rw_reports (rep_view r)) < 2 ^ 31"
  shows "\<lbrakk>input_vouchers x B first last_arg after before r = (Ok c1, r'); e1 \<in> set (cn_edges c1)\<rbrakk> \<Longrightarrow>
      ed_node e1 \<in> set (rw_vouchers (rep_view r)) \<and> vo_input_index (ed_node e1) = in_index x"
    and "\<lbrakk>input_notices x B first last_arg after before r = (Ok c2, r'); e2 \<in> set (cn_edges c2)\<rbrakk> \<Longrightarrow>
      ed_node e2 \<in> set (rw_notices (rep_view r)) \<and> no_input_index (ed_node e2) = in_index x"
    and "\<lbrakk>input_reports x B first last_arg after before r = (Ok c3, r'); e3 \<in> set (cn_edges c3)\<rbrakk> \<Longrightarrow>
      ed_node e3 \<in> set (rw_reports (rep_view r)) \<and> re_input_index (ed_node e3) = in_index x"
  unfolding input_vouchers_def input_notices_def input_reports_def get_vouchers_def get_notices_def get_reports_def resolved_Ok
  using gql_page_nodes [OF assms(1) shown_tables(2) [OF assms(1)] assms(2)] gql_page_nodes [OF assms(1) shown_tables(3) [OF assms(1)] assms(3)]
    gql_page_nodes [OF assms(1) shown_tables(4) [OF assms(1)] assms(4)]
  by (fastforce simp: output_filter_to_query_def)+

section \<open>Scalars\<close>

fun scalar_number :: "'f RollupsGraphQLScalarValue \<Rightarrow> int option" where
  "scalar_number (ScalarInt i) = Some (sint i)"
| "scalar_number (ScalarBigInt i) = Some (sint i)"
| "scalar_number _ = None"

lemma sint_small: "uint (v :: 'a::len word) < 2 ^ (LENGTH('a) - 1) \<Longrightarrow> sint v = uint v"
  unfolding sint_uint by (rule signed_take_bit_int_eq_self) (auto intro: order_trans [of _ 0])

lemma sint_truncate: "sint (ucast (v :: i64) :: i32) = signed_take_bit 31 (sint v)"
proof -
  have "(ucast v :: i32) = scast v"
    by (simp add: down_cast_same is_down)
  then show ?thesis
    by (simp add: signed_scast_eq)
qed

lemma sint_ucast32: "- (2 ^ 31) \<le> sint v \<Longrightarrow> sint v \<le> 2 ^ 31 - 1 \<Longrightarrow> sint (ucast (v :: i64) :: i32) = sint v"
  unfolding sint_truncate by (rule signed_take_bit_int_eq_self) simp_all

lemma sint_ucast32_low: "sint (v :: i64) < - (2 ^ 31) \<Longrightarrow> sint (ucast v :: i32) \<noteq> sint v"
  using sint_ge [of "ucast v :: i32"] by auto

lemma visit_i64_number: "scalar_number (visit_i64 v) = Some (sint v) \<longleftrightarrow> - (2 ^ 31) \<le> sint v"
proof (cases "sint v \<le> 2 ^ 31 - 1")
  case True
  then have "visit_i64 v = ScalarInt (ucast v)"
    by (simp add: visit_i64_def)
  then show ?thesis
    using True sint_ucast32 [of v] sint_ucast32_low [of v] by (metis not_le option.inject scalar_number.simps(1))
qed (simp add: visit_i64_def)

lemma visit_u64_number:
  fixes f :: "u64 \<Rightarrow> 'f"
  assumes "uint v \<le> 2 ^ 63 - 1"
  shows "scalar_number (visit_u64 f v) = Some (uint v)"
proof -
  have same: "sint v = uint v"
    using assms by (intro sint_small) simp
  have "- (2 ^ 31) \<le> sint v"
    unfolding same by (rule order_trans [of _ 0]) simp_all
  then have "scalar_number (visit_i64 v :: 'f RollupsGraphQLScalarValue) = Some (sint v)"
    by (simp only: visit_i64_number)
  with assms same show ?thesis
    by (simp only: visit_u64_def if_True)
qed

lemma visit_u32_number: "scalar_number (visit_u32 f v) = Some (uint v)"
proof (cases "uint v \<le> 2 ^ 31 - 1")
  case True
  then have "sint v = uint v"
    by (intro sint_small) simp
  with True show ?thesis
    by (simp add: visit_u32_def)
next
  case False
  have same: "uint (ucast v :: u64) = uint v"
    by (rule uint_up_ucast) (simp add: is_up)
  have "uint v < 2 ^ 32"
    using uint_lt2p [of v] by simp
  then have "uint (ucast v :: u64) \<le> 2 ^ 63 - 1"
    unfolding same by (rule order_trans [OF less_imp_le]) simp
  from visit_u64_number [OF this, of f] False same show ?thesis
    by (simp only: visit_u32_def if_False)
qed

text \<open>Integers survive the visitors of the scalar type, except that a negative number below \<open>- 2 ^ 31\<close> does not:
  \<open>visit_i64\<close> only tests the upper bound of \<open>i32\<close> and truncates it.\<close>

theorem scalar_visitors_exact:
  "(scalar_number (visit_i64 v) = Some (sint v) \<longleftrightarrow> - (2 ^ 31) \<le> sint v) \<and>
   scalar_number (visit_u32 f w) = Some (uint w) \<and>
   (uint u \<le> 2 ^ 63 - 1 \<longrightarrow> scalar_number (visit_u64 f u) = Some (uint u))"
  using visit_i64_number visit_u32_number visit_u64_number by blast

end
