(* ===== verification/Inspect_Server.thy ===== *)
theory Inspect_Server
  imports Prelude
begin

text \<open>
  The inspect server (\<open>inspect-server/src\<close>): HTTP requests are queued for one task that forwards them to
  the server manager, one at a time.

  A channel is its queue; a response channel is the number of its request.  The server manager is a
  parameter: connecting to it and the call \<open>inspect_state\<close> on its state \<open>'g\<close>.  The numbers of the
  completion statuses belong to the generated interfaces and are an argument, as are \<open>hex\<close> and the text of
  the error of a full channel.
\<close>

section \<open>Configuration (config.rs)\<close>

datatype InspectConfigError = InspectFileError string | InspectParseError string

record InspectCLIConfig =
  ic_inspect_server_address :: "string option"
  ic_server_manager_address :: "string option"
  ic_session_id :: "string option"
  ic_queue_size :: "nat option"
  ic_config_path :: "string option"
  ic_healthcheck_port :: nat

record InspectFileConfig =
  if_inspect_server_address :: "string option"
  if_server_manager_address :: "string option"
  if_session_id :: "string option"
  if_queue_size :: "nat option"

record InspectServerConfig =
  cf_inspect_server_address :: string
  cf_server_manager_address :: string
  cf_session_id :: string
  cf_queue_size :: nat
  cf_healthcheck_port :: nat

definition default_file_config :: InspectFileConfig where
  "default_file_config = \<lparr> if_inspect_server_address = None, if_server_manager_address = None, if_session_id = None,
     if_queue_size = None \<rparr>"

text \<open>The file system and the TOML reader are arguments.\<close>

definition load_config_file ::
  "(string \<Rightarrow> string + string) \<Rightarrow> (string \<Rightarrow> string + InspectFileConfig) \<Rightarrow> string option \<Rightarrow>
   (InspectConfigError, InspectFileConfig) outcome" where
  "load_config_file read_to_string toml config_file =
     (case config_file of
        Some config \<Rightarrow>
          bind_outcome (from_result InspectFileError (read_to_string config)) (\<lambda>s.
            from_result InspectParseError (toml s))
      | None \<Rightarrow> Ok default_file_config)"

text \<open>\<open>expect\<close> on a result\<close>

fun expect_ok :: "('e, 'a) outcome \<Rightarrow> ('f, 'a) outcome" where
  "expect_ok (Ok a) = Ok a"
| "expect_ok (Err e) = Panic"
| "expect_ok Panic = Panic"

fun or_option :: "'a option \<Rightarrow> 'a option \<Rightarrow> 'a option" where
  "or_option (Some a) _ = Some a"
| "or_option None b = b"

definition inspect_config_from ::
  "(string \<Rightarrow> string + string) \<Rightarrow> (string \<Rightarrow> string + InspectFileConfig) \<Rightarrow> InspectCLIConfig \<Rightarrow>
   ('e, InspectServerConfig) outcome" where
  "inspect_config_from read_to_string toml cli =
     bind_outcome (expect_ok (load_config_file read_to_string toml (ic_config_path cli))) (\<lambda>file.
     bind_outcome (unwrap (or_option (ic_inspect_server_address cli) (if_inspect_server_address file))) (\<lambda>address.
     bind_outcome (unwrap (or_option (ic_server_manager_address cli) (if_server_manager_address file))) (\<lambda>manager.
     bind_outcome (unwrap (or_option (ic_session_id cli) (if_session_id file))) (\<lambda>session.
       Ok \<lparr> cf_inspect_server_address = address, cf_server_manager_address = manager, cf_session_id = session,
            cf_queue_size = (case or_option (ic_queue_size cli) (if_queue_size file) of Some n \<Rightarrow> n | None \<Rightarrow> 100),
            cf_healthcheck_port = ic_healthcheck_port cli \<rparr>))))"

section \<open>The client of the server manager (inspect.rs, error.rs)\<close>

datatype InspectError =
    InspectHealthCheckError string
  | InspectServerError string
  | FailedToConnect string
  | InspectFailed string

fun inspect_error_display :: "InspectError \<Rightarrow> string" where
  "inspect_error_display (InspectHealthCheckError _) = ''health check error''"
| "inspect_error_display (InspectServerError _) = ''server error''"
| "inspect_error_display (FailedToConnect message) = ''Failed to connect to server manager: '' @ message"
| "inspect_error_display (InspectFailed message) = ''Failed to inspect state: '' @ message"

text \<open>The fields of the response that the server reads.\<close>

record InspectReply =
  ir_status :: i32
  ir_exception_data :: "byte list option"
  ir_reports :: "byte list list"
  ir_processed_input_count :: u64

record 'g InspectManager =
  im_connect :: "string \<Rightarrow> 'g \<Rightarrow> (string + unit) \<times> 'g"
  im_inspect_state :: "string \<Rightarrow> byte list \<Rightarrow> 'g \<Rightarrow> (string + InspectReply) \<times> 'g"

record InspectRequest =
  rq_payload :: "byte list"
  rq_response_tx :: nat

text \<open>The client and the task behind it: the queue with its capacity, the number of the next response
  channel and the responses that were sent.\<close>

record 'g InspectClient =
  inspect_queue :: "InspectRequest list"
  queue_capacity :: nat
  next_response :: nat
  responses :: "(nat \<times> (InspectError + InspectReply)) list"
  task_address :: string
  task_session_id :: string
  manager_state :: 'g

text \<open>A channel without capacity is refused with a panic.\<close>

definition inspect_client_new :: "InspectServerConfig \<Rightarrow> 'g \<Rightarrow> ('e, 'g InspectClient) outcome" where
  "inspect_client_new config g =
     bind_outcome (assert_that (0 < cf_queue_size config)) (\<lambda>_.
       Ok \<lparr> inspect_queue = [], queue_capacity = cf_queue_size config, next_response = 0, responses = [],
            task_address = cf_server_manager_address config, task_session_id = cf_session_id config, manager_state = g \<rparr>)"

text \<open>The first part of \<open>inspect\<close>, up to waiting for the response.\<close>

definition try_inspect ::
  "string \<Rightarrow> byte list \<Rightarrow> 'g InspectClient \<Rightarrow> ('g InspectClient, InspectError, nat) action" where
  "try_inspect full payload c =
     (let tx = next_response c; c = c\<lparr>next_response := tx + 1\<rparr> in
      if length (inspect_queue c) < queue_capacity c
      then (Ok tx, c\<lparr>inspect_queue := inspect_queue c @ [\<lparr> rq_payload = payload, rq_response_tx = tx \<rparr>]\<rparr>)
      else (Err (InspectFailed full), c))"

definition respond :: "nat \<Rightarrow> InspectError + InspectReply \<Rightarrow> 'g InspectClient \<Rightarrow> 'g InspectClient" where
  "respond tx response c = c\<lparr>responses := responses c @ [(tx, response)]\<rparr>"

text \<open>The reply of the server manager to one request.\<close>

definition forward ::
  "'g InspectManager \<Rightarrow> string \<Rightarrow> string \<Rightarrow> byte list \<Rightarrow> 'g \<Rightarrow> (InspectError + InspectReply) \<times> 'g" where
  "forward M address session payload g =
     (case im_connect M (''http://'' @ address) g of
        (Inl e, g) \<Rightarrow> (Inl (FailedToConnect e), g)
      | (Inr _, g) \<Rightarrow>
          (case im_inspect_state M session payload g of
             (Inl message, g) \<Rightarrow> (Inl (InspectFailed message), g)
           | (Inr response, g) \<Rightarrow> (Inr response, g)))"

text \<open>One turn of the loop of \<open>handle_inspect\<close>; nothing happens while the queue is empty.\<close>

definition handle_inspect :: "'g InspectManager \<Rightarrow> 'g InspectClient \<Rightarrow> 'g InspectClient" where
  "handle_inspect M c =
     (case inspect_queue c of
        [] \<Rightarrow> c
      | request # rest \<Rightarrow>
          (case forward M (task_address c) (task_session_id c) (rq_payload request) (manager_state c) of
             (response, g) \<Rightarrow>
               respond (rq_response_tx request) response (c\<lparr>inspect_queue := rest, manager_state := g\<rparr>)))"

section \<open>HTTP (server.rs)\<close>

datatype InspectCompletion =
    IsAccepted | IsRejected | IsException | IsMachineHalted | IsCycleLimitExceeded | IsTimeLimitExceeded
  | IsPayloadLengthLimitExceeded

definition convert_inspect_status :: "(InspectCompletion \<Rightarrow> i32) \<Rightarrow> i32 \<Rightarrow> string" where
  "convert_inspect_status as_i32 status =
     (if status = as_i32 IsAccepted then ''Accepted''
      else if status = as_i32 IsRejected then ''Rejected''
      else if status = as_i32 IsException then ''Exception''
      else if status = as_i32 IsMachineHalted then ''MachineHalted''
      else if status = as_i32 IsCycleLimitExceeded then ''CycleLimitExceeded''
      else if status = as_i32 IsTimeLimitExceeded then ''TimeLimitExceeded''
      else if status = as_i32 IsPayloadLengthLimitExceeded then ''PayloadLengthLimitExceeded''
      else ''Unknown'')"

definition inspect_hex_encode :: "(byte list \<Rightarrow> string) \<Rightarrow> byte list \<Rightarrow> string" where
  "inspect_hex_encode hex payload = ''0x'' @ hex payload"

record HttpInspectResponse =
  hi_status :: string
  hi_exception_payload :: "string option"
  hi_reports :: "string list"
  hi_processed_input_count :: u64

definition http_inspect_response_from ::
  "(byte list \<Rightarrow> string) \<Rightarrow> (InspectCompletion \<Rightarrow> i32) \<Rightarrow> InspectReply \<Rightarrow> HttpInspectResponse" where
  "http_inspect_response_from hex as_i32 response =
     \<lparr> hi_status = convert_inspect_status as_i32 (ir_status response),
       hi_exception_payload = map_option (inspect_hex_encode hex) (ir_exception_data response),
       hi_reports = map (inspect_hex_encode hex) (ir_reports response),
       hi_processed_input_count = ir_processed_input_count response \<rparr>"

datatype InspectHttp =
    InspectOk HttpInspectResponse
  | InspectBadGateway string
  | InspectBadRequest string

fun actix_error_from :: "InspectError \<Rightarrow> InspectHttp" where
  "actix_error_from (FailedToConnect m) = InspectBadGateway (inspect_error_display (FailedToConnect m))"
| "actix_error_from (InspectFailed m) = InspectBadRequest (inspect_error_display (InspectFailed m))"
| "actix_error_from e = InspectBadGateway (inspect_error_display e)"

text \<open>The bytes that a GET request asks for: the rest of the path and, when there is one, the query.\<close>

definition inspect_get_payload :: "string \<Rightarrow> string option \<Rightarrow> byte list" where
  "inspect_get_payload path query =
     map of_char (case query of Some q \<Rightarrow> path @ ''?'' @ q | None \<Rightarrow> path)"

definition http_inspect_reply ::
  "(byte list \<Rightarrow> string) \<Rightarrow> (InspectCompletion \<Rightarrow> i32) \<Rightarrow> InspectError + InspectReply \<Rightarrow> InspectHttp" where
  "http_inspect_reply hex as_i32 result =
     (case result of
        Inl e \<Rightarrow> actix_error_from e
      | Inr response \<Rightarrow> InspectOk (http_inspect_response_from hex as_i32 response))"


section \<open>Runs of the client\<close>

text \<open>Requests arrive, are queued or refused, and the task makes a turn, in any order; the list holds the
  requests that were queued.\<close>

inductive inspect_runs ::
  "'g InspectManager \<Rightarrow> string \<Rightarrow> 'g InspectClient \<Rightarrow> InspectRequest list \<Rightarrow> 'g InspectClient \<Rightarrow> bool"
  for M full c0 where
  start: "inspect_runs M full c0 [] c0"
| queued: "\<lbrakk>inspect_runs M full c0 qs c; try_inspect full p c = (Ok tx, c')\<rbrakk> \<Longrightarrow>
   inspect_runs M full c0 (qs @ [\<lparr> rq_payload = p, rq_response_tx = tx \<rparr>]) c'"
| refused: "\<lbrakk>inspect_runs M full c0 qs c; try_inspect full p c = (Err e, c')\<rbrakk> \<Longrightarrow> inspect_runs M full c0 qs c'"
| turn: "inspect_runs M full c0 qs c \<Longrightarrow> inspect_runs M full c0 qs (handle_inspect M c)"

text \<open>The reference: a server that answers the requests one after another.\<close>

fun serve ::
  "'g InspectManager \<Rightarrow> string \<Rightarrow> string \<Rightarrow> InspectRequest list \<Rightarrow> 'g \<Rightarrow> (nat \<times> (InspectError + InspectReply)) list \<times> 'g" where
  "serve M address session [] g = ([], g)"
| "serve M address session (q # qs) g =
     (case forward M address session (rq_payload q) g of (response, g1) \<Rightarrow>
      case serve M address session qs g1 of (rs, g2) \<Rightarrow> ((rq_response_tx q, response) # rs, g2))"

lemma serve_append:
  "serve M a s (qs @ ps) g =
     (case serve M a s qs g of (rs, g1) \<Rightarrow> case serve M a s ps g1 of (rs', g2) \<Rightarrow> (rs @ rs', g2))"
  by (induction qs arbitrary: g) (auto split: prod.splits)

definition serial :: "'g InspectManager \<Rightarrow> 'g InspectClient \<Rightarrow> InspectRequest list \<Rightarrow> 'g InspectClient \<Rightarrow> bool" where
  "serial M c0 qs c \<longleftrightarrow> task_address c = task_address c0 \<and> task_session_id c = task_session_id c0 \<and>
     queue_capacity c = queue_capacity c0 \<and> length (inspect_queue c) \<le> queue_capacity c0 \<and>
     (\<exists>done. qs = done @ inspect_queue c \<and>
        serve M (task_address c0) (task_session_id c0) done (manager_state c0) = (responses c, manager_state c))"

lemma serial_turn: "serial M c0 qs c \<Longrightarrow> serial M c0 qs (handle_inspect M c)"
proof (cases "inspect_queue c")
  case (Cons q rest)
  assume "serial M c0 qs c"
  then obtain ds where ds: "qs = ds @ q # rest"
    "serve M (task_address c0) (task_session_id c0) ds (manager_state c0) = (responses c, manager_state c)"
    using Cons by (auto simp: serial_def)
  obtain response g where f: "forward M (task_address c0) (task_session_id c0) (rq_payload q) (manager_state c) = (response, g)"
    by fastforce
  with ds have "qs = (ds @ [q]) @ rest"
    "serve M (task_address c0) (task_session_id c0) (ds @ [q]) (manager_state c0) = (responses c @ [(rq_response_tx q, response)], g)"
    by (simp_all add: serve_append)
  with \<open>serial M c0 qs c\<close> Cons f show ?thesis
    unfolding serial_def by (auto simp: handle_inspect_def respond_def)
qed (simp add: handle_inspect_def)

lemma serial_queued:
  assumes "serial M c0 qs c" and "try_inspect full p c = (Ok tx, c')"
  shows "serial M c0 (qs @ [\<lparr> rq_payload = p, rq_response_tx = tx \<rparr>]) c'"
  using assms by (auto simp: serial_def try_inspect_def Let_def split: if_splits)

lemma inspect_runs_serial:
  assumes "inspect_runs M full c0 qs c" and "responses c0 = []" and "inspect_queue c0 = []"
  shows "serial M c0 qs c"
  using assms
proof (induction rule: inspect_runs.induct)
  case start
  then show ?case by (simp add: serial_def)
next
  case (refused qs c p e c')
  then show ?case by (auto simp: serial_def try_inspect_def Let_def split: if_splits)
qed (auto intro: serial_turn serial_queued)

text \<open>The channels of the requests are different, because each attempt takes a new one.\<close>

lemma inspect_runs_channels:
  assumes "inspect_runs M full c0 qs c" and "next_response c0 = 0"
  shows "distinct (map rq_response_tx qs) \<and> (\<forall>q \<in> set qs. rq_response_tx q < next_response c)"
  using assms
proof (induction rule: inspect_runs.induct)
  case (turn qs c)
  then show ?case
    by (auto simp: handle_inspect_def respond_def split: list.splits prod.splits)
qed (fastforce simp: try_inspect_def Let_def split: if_splits)+

lemma turns_serve:
  assumes "serial M c0 qs c" and "length (inspect_queue c) \<le> n"
  shows "responses ((handle_inspect M ^^ n) c) = fst (serve M (task_address c0) (task_session_id c0) qs (manager_state c0)) \<and>
    inspect_queue ((handle_inspect M ^^ n) c) = []"
  using assms
proof (induction n arbitrary: c)
  case 0
  then show ?case by (auto simp: serial_def)
next
  case (Suc n)
  have "length (inspect_queue (handle_inspect M c)) \<le> n"
    using Suc.prems(2) by (auto simp: handle_inspect_def respond_def split: list.splits prod.splits)
  from Suc.IH [OF serial_turn [OF Suc.prems(1)] this] show ?case
    by (simp add: funpow_swap1)
qed

section \<open>Properties\<close>

text \<open>C15: The inspect server is a serial server in disguise: however arrivals, refusals and turns of the task are
  interleaved, the responses so far are those of a server that answers the queued requests one after
  another in the order of arrival, never more than the capacity wait, no channel is used twice, and as
  many turns as there are waiting requests answer all of them.\<close>

theorem inspect_is_serial:
  assumes "inspect_client_new config g = (Ok c0 :: ('e, 'g InspectClient) outcome)" and "inspect_runs M full c0 qs c"
  shows "(\<exists>done. qs = done @ inspect_queue c \<and>
      serve M (cf_server_manager_address config) (cf_session_id config) done g = (responses c, manager_state c)) \<and>
    length (inspect_queue c) \<le> cf_queue_size config \<and> distinct (map rq_response_tx qs) \<and>
    (\<forall>n \<ge> length (inspect_queue c). responses ((handle_inspect M ^^ n) c) =
       fst (serve M (cf_server_manager_address config) (cf_session_id config) qs g))"
proof -
  have c0: "responses c0 = []" "inspect_queue c0 = []" "next_response c0 = 0" "manager_state c0 = g"
    "task_address c0 = cf_server_manager_address config" "task_session_id c0 = cf_session_id config"
    "queue_capacity c0 = cf_queue_size config"
    using assms(1) by (auto simp: inspect_client_new_def bind_outcome_Ok_iff)
  note s = inspect_runs_serial [OF assms(2) c0(1,2)]
  show ?thesis
    using s turns_serve [OF s] inspect_runs_channels [OF assms(2) c0(3)] by (auto simp: serial_def c0)
qed

definition echo_manager :: "nat InspectManager" where
  "echo_manager = \<lparr> im_connect = (\<lambda>_ g. (Inr (), g)),
     im_inspect_state = (\<lambda>_ p g. (Inr \<lparr> ir_status = 0, ir_exception_data = None, ir_reports = [p],
       ir_processed_input_count = of_nat g \<rparr>, g + 1)) \<rparr>"

definition echo_config :: InspectServerConfig where
  "echo_config = \<lparr> cf_inspect_server_address = ''a'', cf_server_manager_address = ''m'', cf_session_id = ''s'',
     cf_queue_size = 1, cf_healthcheck_port = 8080 \<rparr>"

definition echo_client :: "InspectRequest list \<Rightarrow> nat \<Rightarrow> nat InspectClient" where
  "echo_client qs n = \<lparr> inspect_queue = qs, queue_capacity = 1, next_response = n, responses = [],
     task_address = ''m'', task_session_id = ''s'', manager_state = 0 \<rparr>"

theorem inspect_is_serial_witness:
  "inspect_runs echo_manager ''full'' (echo_client [] 0) [\<lparr> rq_payload = [5], rq_response_tx = 0 \<rparr>]
     (echo_client [\<lparr> rq_payload = [5], rq_response_tx = 0 \<rparr>] 2) \<and>
   responses ((handle_inspect echo_manager ^^ 1) (echo_client [\<lparr> rq_payload = [5], rq_response_tx = 0 \<rparr>] 2)) =
     [(0, Inr \<lparr> ir_status = 0, ir_exception_data = None, ir_reports = [[5]], ir_processed_input_count = 0 \<rparr>)]"
proof -
  let ?q = "\<lparr> rq_payload = [5], rq_response_tx = 0 \<rparr> :: InspectRequest"
  have new: "inspect_client_new echo_config 0 = (Ok (echo_client [] 0) :: (unit, nat InspectClient) outcome)"
    by (simp add: inspect_client_new_def echo_config_def echo_client_def)
  have "try_inspect ''full'' [5] (echo_client [] 0) = (Ok 0, echo_client [?q] 1)"
    and "try_inspect ''full'' [6] (echo_client [?q] 1) = (Err (InspectFailed ''full''), echo_client [?q] 2)"
    by (simp_all add: try_inspect_def echo_client_def)
  then have run: "inspect_runs echo_manager ''full'' (echo_client [] 0) [?q] (echo_client [?q] 2)"
    using inspect_runs.queued [OF inspect_runs.start] inspect_runs.refused by fastforce
  have "responses ((handle_inspect echo_manager ^^ 1) (echo_client [?q] 2)) = fst (serve echo_manager ''m'' ''s'' [?q] 0)"
    using conjunct2 [OF conjunct2 [OF conjunct2 [OF inspect_is_serial [OF new run]]]] by (auto simp: echo_config_def echo_client_def)
  with run show ?thesis
    by (simp add: forward_def echo_manager_def)
qed

text \<open>The text of a status identifies it, and \<open>Unknown\<close> is the text of no status.\<close>

lemma inspect_status_text:
  assumes "inj as_i32"
  shows "convert_inspect_status as_i32 (as_i32 a) \<noteq> ''Unknown''"
    and "convert_inspect_status as_i32 (as_i32 a) = convert_inspect_status as_i32 (as_i32 b) \<longleftrightarrow> a = b"
  using inj_eq [OF assms] by (cases a; cases b; simp add: convert_inspect_status_def)+

end
