(* ===== verification/Claimer_Config.thy ===== *)
theory Claimer_Config
  imports Types_Config Authority_Claimer
begin

text \<open>
  The configuration of the authority claimer (\<open>authority-claimer/src/config\<close>), the signers it selects
  (\<open>authority-claimer/src/signer\<close>), the configuration of the broker (\<open>rollups-events/src/broker/mod.rs\<close>)
  and the wrappers that keep secrets out of the logs (\<open>redacted/src/lib.rs\<close>).

  The URL type, the wallets, the AWS clients, the file system and the parsers of the options are
  parameters.
\<close>

section \<open>Redaction (redacted)\<close>

datatype 'a Redacted = Redacted (redacted_inner: 'a)

definition redacted_debug :: "'a Redacted \<Rightarrow> string" where
  "redacted_debug r = ''[REDACTED]''"

text \<open>The interface of \<open>Url\<close> that is used.\<close>

record 'u UrlOps =
  cannot_be_a_base :: "'u \<Rightarrow> bool"
  url_username :: "'u \<Rightarrow> string"
  url_password :: "'u \<Rightarrow> string option"
  set_username :: "string \<Rightarrow> 'u \<Rightarrow> 'u option"
  set_password :: "string option \<Rightarrow> 'u \<Rightarrow> 'u option"
  url_as_str :: "'u \<Rightarrow> string"

datatype 'u RedactedUrl = RedactedUrl (url_inner: 'u)

definition redacted_url_debug :: "'u UrlOps \<Rightarrow> 'u RedactedUrl \<Rightarrow> string" where
  "redacted_url_debug U r =
     (let url = url_inner r;
          result =
            Option.bind (if cannot_be_a_base U url then None else Some url) (\<lambda>url.
            Option.bind (if url_username U url \<noteq> [] then set_username U ''***'' url else Some url) (\<lambda>url.
              if url_password U url \<noteq> None then set_password U (Some ''***'') url else Some url))
      in case result of Some url \<Rightarrow> url_as_str U url | None \<Rightarrow> ''[NON-BASE URL REDACTED]'')"

section \<open>The broker (broker/mod.rs)\<close>

record BrokerCLIConfig =
  cli_redis_endpoint :: string
  cli_redis_cluster_endpoints :: "string list option"
  cli_broker_consume_timeout :: nat
  cli_broker_backoff_max_elapsed_duration :: u64

datatype 'u BrokerEndpoint = SingleEndpoint "'u RedactedUrl" | ClusterEndpoint "'u RedactedUrl list"

record 'u BrokerConfig =
  bcf_redis_endpoint :: "'u BrokerEndpoint"
  bcf_consume_timeout :: nat
  bcf_max_elapsed_time :: u64

definition expect_url :: "(string \<Rightarrow> 'u option) \<Rightarrow> string \<Rightarrow> ('e, 'u RedactedUrl) outcome" where
  "expect_url url_parse s = map_ok RedactedUrl (unwrap (url_parse s))"

definition broker_config_from :: "(string \<Rightarrow> 'u option) \<Rightarrow> BrokerCLIConfig \<Rightarrow> ('e, 'u BrokerConfig) outcome" where
  "broker_config_from url_parse cli =
     bind_outcome (case cli_redis_cluster_endpoints cli of
         Some endpoints \<Rightarrow> map_ok ClusterEndpoint (try_all (expect_url url_parse) endpoints)
       | None \<Rightarrow> map_ok SingleEndpoint (expect_url url_parse (cli_redis_endpoint cli))) (\<lambda>endpoint.
       Ok \<lparr> bcf_redis_endpoint = endpoint, bcf_consume_timeout = cli_broker_consume_timeout cli,
            bcf_max_elapsed_time = cli_broker_backoff_max_elapsed_duration cli \<rparr>)"

text \<open>\<open>Broker::new\<close>: the outcome of connecting, with its retries, to an endpoint is an argument.\<close>

definition broker_new ::
  "('u BrokerEndpoint \<Rightarrow> string + 'r) \<Rightarrow> 'r Redis \<Rightarrow> 'u BrokerConfig \<Rightarrow> (BrokerError, 'r Broker) outcome" where
  "broker_new connect R config =
     bind_outcome (from_result ConnectionError (connect (bcf_redis_endpoint config))) (\<lambda>conn.
       Ok \<lparr> connection = conn, redis = R, consume_timeout = bcf_consume_timeout config \<rparr>)"

section \<open>The contracts (config/contracts.rs)\<close>

record ContractsCLIConfig =
  cc_history_address :: "string option"
  cc_authority_address :: "string option"
  cc_rollups_deployment_file :: "string option"

record ContractsConfig =
  co_history_address :: Address
  co_authority_address :: Address

datatype ContractsConfigError =
    ContractsJsonDeserializeError string
  | ContractsJsonReadError string string
  | ContractsReadFileError string string
  | MissingHistoryContractConfig
  | MissingAuthorityContractConfig

definition contracts_read ::
  "DeploymentFiles \<Rightarrow> (string \<Rightarrow> string + 'a) \<Rightarrow> string \<Rightarrow> (ContractsConfigError, 'a) outcome" where
  "contracts_read fs parse path =
     bind_outcome (from_result (ContractsReadFileError path) (open_file fs path)) (\<lambda>file.
       from_result (ContractsJsonReadError path) (parse file))"

definition contracts_deserialize :: "DeploymentFiles \<Rightarrow> string \<Rightarrow> (ContractsConfigError, Address) outcome" where
  "contracts_deserialize fs s = from_result ContractsJsonDeserializeError (json_address fs s)"

definition contracts_config_try_from ::
  "DeploymentFiles \<Rightarrow> ContractsCLIConfig \<Rightarrow> (ContractsConfigError, ContractsConfig) outcome" where
  "contracts_config_try_from fs cli =
     bind_outcome (traverse_option (contracts_deserialize fs) (cc_history_address cli)) (\<lambda>history.
     bind_outcome (traverse_option (contracts_deserialize fs) (cc_authority_address cli)) (\<lambda>authority.
     bind_outcome (traverse_option (contracts_read fs (json_deployment fs)) (cc_rollups_deployment_file cli)) (\<lambda>file.
     let history = or_from_file history (contract_address \<circ> ct_history \<circ> contracts) file;
         authority = or_from_file authority (contract_address \<circ> ct_authority \<circ> contracts) file
     in
     bind_outcome (ok_or MissingHistoryContractConfig history) (\<lambda>history.
     bind_outcome (ok_or MissingAuthorityContractConfig authority) (\<lambda>authority.
       Ok \<lparr> co_history_address = history, co_authority_address = authority \<rparr>)))))"

section \<open>Signing (config/cli.rs, config/error.rs)\<close>

record TxSigningCLIConfig =
  tx_signing_private_key :: "string option"
  tx_signing_private_key_file :: "string option"
  tx_signing_mnemonic :: "string option"
  tx_signing_mnemonic_file :: "string option"
  tx_signing_mnemonic_account_index :: "32 word option"
  tx_signing_aws_kms_key_id :: "string option"
  tx_signing_aws_kms_region :: "string option"

datatype TxSigningConfigError =
    AuthConfigMissing
  | MnemonicFileError string string
  | MissingRegion
  | InvalidRegion string

datatype 'g TxSigningConfig =
    SignPrivateKey "string Redacted"
  | SignMnemonic "string Redacted" "32 word option"
  | SignAws string 'g

definition is_whitespace :: "char \<Rightarrow> bool" where
  "is_whitespace c \<longleftrightarrow> (let n = of_char c :: nat in n = 32 \<or> 9 \<le> n \<and> n \<le> 13)"

definition trim :: "string \<Rightarrow> string" where
  "trim s = rev (dropWhile is_whitespace (rev (dropWhile is_whitespace s)))"

definition read_secret :: "(string \<Rightarrow> string + string) \<Rightarrow> string \<Rightarrow> (TxSigningConfigError, string) outcome" where
  "read_secret read_to_string path = map_ok trim (from_result (MnemonicFileError path) (read_to_string path))"

definition tx_signing_config_try_from ::
  "(string \<Rightarrow> string + string) \<Rightarrow> (string \<Rightarrow> string + 'g) \<Rightarrow> TxSigningCLIConfig \<Rightarrow>
   (TxSigningConfigError, 'g TxSigningConfig) outcome" where
  "tx_signing_config_try_from read_to_string region_from_str cli =
     (let account_index = tx_signing_mnemonic_account_index cli in
      case tx_signing_private_key cli of Some key \<Rightarrow> Ok (SignPrivateKey (Redacted key)) | None \<Rightarrow>
      case tx_signing_private_key_file cli of
        Some path \<Rightarrow> map_ok (SignPrivateKey \<circ> Redacted) (read_secret read_to_string path) | None \<Rightarrow>
      case tx_signing_mnemonic cli of Some m \<Rightarrow> Ok (SignMnemonic (Redacted m) account_index) | None \<Rightarrow>
      case tx_signing_mnemonic_file cli of
        Some path \<Rightarrow> map_ok (\<lambda>m. SignMnemonic (Redacted m) account_index) (read_secret read_to_string path) | None \<Rightarrow>
      case (tx_signing_aws_kms_key_id cli, tx_signing_aws_kms_region cli) of
        (None, _) \<Rightarrow> Err AuthConfigMissing
      | (Some _, None) \<Rightarrow> Err MissingRegion
      | (Some key_id, Some region) \<Rightarrow>
          bind_outcome (from_result InvalidRegion (region_from_str region)) (\<lambda>region. Ok (SignAws key_id region)))"

section \<open>The configuration (config/cli.rs, config/mod.rs)\<close>

datatype AuthorityClaimerConfigError =
    ClaimerTxManagerError string
  | ClaimerTxSigningError TxSigningConfigError
  | ClaimerContractsError ContractsConfigError

record 'm AuthorityClaimerCLI =
  acli_tx_manager_config :: 'm
  acli_tx_signing_config :: TxSigningCLIConfig
  acli_broker_config :: BrokerCLIConfig
  acli_contracts_config :: ContractsCLIConfig
  acli_genesis_block :: u64

record ('t, 'g, 'u) AuthorityClaimerConfig =
  acc_tx_manager_config :: 't
  acc_tx_signing_config :: "'g TxSigningConfig"
  acc_tx_manager_priority :: Priority
  acc_broker_config :: "'u BrokerConfig"
  acc_contracts_config :: ContractsConfig
  acc_genesis_block :: u64

definition authority_claimer_config_try_from ::
  "('m \<Rightarrow> string + 't) \<Rightarrow> (string \<Rightarrow> string + string) \<Rightarrow> (string \<Rightarrow> string + 'g) \<Rightarrow> (string \<Rightarrow> 'u option) \<Rightarrow> DeploymentFiles \<Rightarrow>
   'm AuthorityClaimerCLI \<Rightarrow> (AuthorityClaimerConfigError, ('t, 'g, 'u) AuthorityClaimerConfig) outcome" where
  "authority_claimer_config_try_from tx_manager_initialize read_to_string region_from_str url_parse fs cli =
     bind_outcome (from_result ClaimerTxManagerError (tx_manager_initialize (acli_tx_manager_config cli))) (\<lambda>manager.
     bind_outcome (map_err ClaimerTxSigningError
       (tx_signing_config_try_from read_to_string region_from_str (acli_tx_signing_config cli))) (\<lambda>signing.
     bind_outcome (broker_config_from url_parse (acli_broker_config cli)) (\<lambda>broker.
     bind_outcome (map_err ClaimerContractsError (contracts_config_try_from fs (acli_contracts_config cli))) (\<lambda>contracts.
       Ok \<lparr> acc_tx_manager_config = manager, acc_tx_signing_config = signing, acc_tx_manager_priority = PriorityNormal,
            acc_broker_config = broker, acc_contracts_config = contracts, acc_genesis_block = acli_genesis_block cli \<rparr>))))"


section \<open>AWS (signer/aws_credentials.rs, signer/aws_signer.rs)\<close>

definition WEB_IDENTITY_ENV_VARS :: "string list" where
  "WEB_IDENTITY_ENV_VARS = [''AWS_WEB_IDENTITY_TOKEN_FILE'', ''AWS_ROLE_ARN'', ''AWS_ROLE_SESSION_NAME'']"

datatype 'c AwsCredentialsProvider = DefaultCredentials 'c | WebIdentity

text \<open>The loop over the variables returns at the first one that is not set.\<close>

fun credentials_loop :: "(string \<Rightarrow> bool) \<Rightarrow> string + 'c \<Rightarrow> string list \<Rightarrow> (string, 'c AwsCredentialsProvider) outcome" where
  "credentials_loop env_is_set default_provider [] = Ok WebIdentity"
| "credentials_loop env_is_set default_provider (v # vs) =
     (if \<not> env_is_set v then from_result id (map_sum id DefaultCredentials default_provider)
      else credentials_loop env_is_set default_provider vs)"

definition aws_credentials_new ::
  "(string \<Rightarrow> bool) \<Rightarrow> string + 'c \<Rightarrow> (string, 'c AwsCredentialsProvider) outcome" where
  "aws_credentials_new env_is_set default_provider = credentials_loop env_is_set default_provider WEB_IDENTITY_ENV_VARS"

text \<open>The wallets of \<open>ethers\<close>, its AWS signer \<open>'i\<close>, and the environment in which a client is made.\<close>

record ('w, 'b, 'i, 'g, 'c, 'm, 's) SignerOps =
  parse_wallet :: "string \<Rightarrow> string + 'w"
  mnemonic_index :: "string \<Rightarrow> 32 word \<Rightarrow> string + 'b"
  mnemonic_build :: "'b \<Rightarrow> string + 'w"
  wallet_with_chain_id :: "u64 \<Rightarrow> 'w \<Rightarrow> 'w"
  wallet_chain_id :: "'w \<Rightarrow> u64"
  wallet_address :: "'w \<Rightarrow> Address"
  wallet_sign :: "'m \<Rightarrow> 'w \<Rightarrow> string + 's"
  http_client_ok :: bool
  env_is_set :: "string \<Rightarrow> bool"
  default_credentials :: "string + 'c"
  inner_aws_new :: "'c AwsCredentialsProvider \<Rightarrow> 'g \<Rightarrow> string \<Rightarrow> u64 \<Rightarrow> string + 'i"
  inner_aws_address :: "'i \<Rightarrow> Address"
  inner_aws_sign :: "'m \<Rightarrow> 'i \<Rightarrow> string + 's"

record 'g AwsSigner =
  aws_region :: 'g
  aws_key_id :: string
  aws_chain_id :: u64
  aws_address :: Address

text \<open>A client holds the provider of the credentials; both \<open>expect\<close>s panic.\<close>

definition create_kms :: "('w, 'b, 'i, 'g, 'c, 'm, 's) SignerOps \<Rightarrow> ('e, 'c AwsCredentialsProvider) outcome" where
  "create_kms S =
     bind_outcome (assert_that (http_client_ok S)) (\<lambda>_.
       case aws_credentials_new (env_is_set S) (default_credentials S) of Ok p \<Rightarrow> Ok p | _ \<Rightarrow> Panic)"

definition inner_aws ::
  "('w, 'b, 'i, 'g, 'c, 'm, 's) SignerOps \<Rightarrow> 'g \<Rightarrow> string \<Rightarrow> u64 \<Rightarrow> (string, 'i) outcome" where
  "inner_aws S region key_id chain =
     bind_outcome (create_kms S) (\<lambda>kms. from_result id (inner_aws_new S kms region key_id chain))"

definition aws_signer_new ::
  "('w, 'b, 'i, 'g, 'c, 'm, 's) SignerOps \<Rightarrow> string \<Rightarrow> u64 \<Rightarrow> 'g \<Rightarrow> (string, 'g AwsSigner) outcome" where
  "aws_signer_new S key_id chain region =
     bind_outcome (inner_aws S region key_id chain) (\<lambda>i.
       Ok \<lparr> aws_region = region, aws_key_id = key_id, aws_chain_id = chain, aws_address = inner_aws_address S i \<rparr>)"

text \<open>Messages, transactions and typed data are signed alike, with a new inner signer each time.\<close>

definition aws_signer_sign ::
  "('w, 'b, 'i, 'g, 'c, 'm, 's) SignerOps \<Rightarrow> 'm \<Rightarrow> 'g AwsSigner \<Rightarrow> (string, 's) outcome" where
  "aws_signer_sign S message a =
     bind_outcome (inner_aws S (aws_region a) (aws_key_id a) (aws_chain_id a)) (\<lambda>i.
       from_result id (inner_aws_sign S message i))"

definition aws_with_chain_id :: "u64 \<Rightarrow> 'g AwsSigner \<Rightarrow> 'g AwsSigner" where
  "aws_with_chain_id chain a =
     \<lparr> aws_region = aws_region a, aws_key_id = aws_key_id a, aws_chain_id = chain, aws_address = aws_address a \<rparr>"

section \<open>The signer (signer/signer.rs)\<close>

datatype ('w, 'g) ConditionalSigner = LocalWallet 'w | ViaAws "'g AwsSigner"

datatype ConditionalSignerError = LocalWalletError string | AwsSignerError string

definition conditional_signer_new ::
  "('w, 'b, 'i, 'g, 'c, 'm, 's) SignerOps \<Rightarrow> u64 \<Rightarrow> 'g TxSigningConfig \<Rightarrow>
   (ConditionalSignerError, ('w, 'g) ConditionalSigner) outcome" where
  "conditional_signer_new S chain cfg =
     (case cfg of
        SignPrivateKey key \<Rightarrow>
          bind_outcome (from_result LocalWalletError (parse_wallet S (redacted_inner key))) (\<lambda>wallet.
            Ok (LocalWallet (wallet_with_chain_id S chain wallet)))
      | SignMnemonic m account_index \<Rightarrow>
          (let index = (case account_index of Some i \<Rightarrow> i | None \<Rightarrow> 0) in
           bind_outcome (from_result LocalWalletError (mnemonic_index S (redacted_inner m) index)) (\<lambda>builder.
           bind_outcome (from_result LocalWalletError (mnemonic_build S builder)) (\<lambda>wallet.
             Ok (LocalWallet (wallet_with_chain_id S chain wallet)))))
      | SignAws key_id region \<Rightarrow> map_err AwsSignerError (map_ok ViaAws (aws_signer_new S key_id chain region)))"

fun conditional_sign ::
  "('w, 'b, 'i, 'g, 'c, 'm, 's) SignerOps \<Rightarrow> 'm \<Rightarrow> ('w, 'g) ConditionalSigner \<Rightarrow> (ConditionalSignerError, 's) outcome" where
  "conditional_sign S message (LocalWallet w) = from_result LocalWalletError (wallet_sign S message w)"
| "conditional_sign S message (ViaAws a) = map_err AwsSignerError (aws_signer_sign S message a)"

fun signer_address :: "('w, 'b, 'i, 'g, 'c, 'm, 's) SignerOps \<Rightarrow> ('w, 'g) ConditionalSigner \<Rightarrow> Address" where
  "signer_address S (LocalWallet w) = wallet_address S w"
| "signer_address S (ViaAws a) = aws_address a"

fun signer_chain_id :: "('w, 'b, 'i, 'g, 'c, 'm, 's) SignerOps \<Rightarrow> ('w, 'g) ConditionalSigner \<Rightarrow> u64" where
  "signer_chain_id S (LocalWallet w) = wallet_chain_id S w"
| "signer_chain_id S (ViaAws a) = aws_chain_id a"

fun signer_with_chain_id ::
  "('w, 'b, 'i, 'g, 'c, 'm, 's) SignerOps \<Rightarrow> u64 \<Rightarrow> ('w, 'g) ConditionalSigner \<Rightarrow> ('w, 'g) ConditionalSigner" where
  "signer_with_chain_id S chain (LocalWallet w) = LocalWallet (wallet_with_chain_id S chain w)"
| "signer_with_chain_id S chain (ViaAws a) = ViaAws (aws_with_chain_id chain a)"

section \<open>Properties\<close>

text \<open>The options for signing override each other in the documented order: once one is set, those after it
  have no influence, and only when none is set does the configuration miss.\<close>

lemma read_secret_Ok: "rd path = Inr s \<Longrightarrow> read_secret rd path = Ok (trim s)"
  by (simp add: read_secret_def)

lemma read_secret_fails: "map_ok f (read_secret rd path) \<noteq> Err AuthConfigMissing"
  by (cases "rd path") (simp_all add: read_secret_def)

lemma region_fails: "bind_outcome (from_result InvalidRegion r) (\<lambda>x. Ok (f x)) \<noteq> Err AuthConfigMissing"
  by (cases r) simp_all

lemma signing_precedence:
  "tx_signing_private_key cli = Some key \<Longrightarrow>
     tx_signing_config_try_from rd reg cli = Ok (SignPrivateKey (Redacted key))"
  "\<lbrakk>tx_signing_private_key cli = None; tx_signing_private_key_file cli = Some path; rd path = Inr s\<rbrakk> \<Longrightarrow>
     tx_signing_config_try_from rd reg cli = Ok (SignPrivateKey (Redacted (trim s)))"
  "\<lbrakk>tx_signing_private_key cli = None; tx_signing_private_key_file cli = None; tx_signing_mnemonic cli = Some m\<rbrakk> \<Longrightarrow>
     tx_signing_config_try_from rd reg cli = Ok (SignMnemonic (Redacted m) (tx_signing_mnemonic_account_index cli))"
  "tx_signing_config_try_from rd reg cli = Err AuthConfigMissing \<longleftrightarrow>
     tx_signing_private_key cli = None \<and> tx_signing_private_key_file cli = None \<and> tx_signing_mnemonic cli = None \<and>
     tx_signing_mnemonic_file cli = None \<and> tx_signing_aws_kms_key_id cli = None"
  by (simp_all add: tx_signing_config_try_from_def Let_def read_secret_Ok read_secret_fails region_fails split: option.split)

lemma credentials_loop_web:
  "credentials_loop env d vs = Ok WebIdentity \<longleftrightarrow> (\<forall>v \<in> set vs. env v)"
  by (induction vs) (cases d; simp)+

text \<open>The web identity is used exactly when its three variables are set.\<close>

lemma web_identity_iff:
  "aws_credentials_new env d = Ok WebIdentity \<longleftrightarrow>
     env ''AWS_WEB_IDENTITY_TOKEN_FILE'' \<and> env ''AWS_ROLE_ARN'' \<and> env ''AWS_ROLE_SESSION_NAME''"
  unfolding aws_credentials_new_def credentials_loop_web by (simp add: WEB_IDENTITY_ENV_VARS_def)

text \<open>The signer that is created works for the chain that was asked for, whatever the method, and moving it to
  another chain keeps its kind and, for a key of AWS, its address.\<close>

lemma signer_on_chain:
  assumes "\<And>chain w. wallet_chain_id S (wallet_with_chain_id S chain w) = chain"
    and "conditional_signer_new S chain cfg = Ok s"
  shows "signer_chain_id S s = chain" and "signer_chain_id S (signer_with_chain_id S other s) = other"
proof -
  show "signer_chain_id S s = chain"
    using assms by (auto simp: conditional_signer_new_def aws_signer_new_def bind_outcome_Ok_iff Let_def
        split: TxSigningConfig.splits)
  show "signer_chain_id S (signer_with_chain_id S other s) = other"
    using assms(1) by (cases s) (simp_all add: aws_with_chain_id_def)
qed

text \<open>What is printed of a URL has at most asterisks for its credentials.\<close>

definition url_laws :: "'u UrlOps \<Rightarrow> bool" where
  "url_laws U \<longleftrightarrow>
     (\<forall>n u u'. set_username U n u = Some u' \<longrightarrow> url_username U u' = n \<and> url_password U u' = url_password U u) \<and>
     (\<forall>p u u'. set_password U p u = Some u' \<longrightarrow> url_password U u' = p \<and> url_username U u' = url_username U u)"

lemma redacted_url_hides:
  assumes "url_laws U"
  shows "redacted_url_debug U r = ''[NON-BASE URL REDACTED]'' \<or>
    (\<exists>u. redacted_url_debug U r = url_as_str U u \<and> url_username U u \<in> {[], ''***''} \<and>
       url_password U u \<in> {None, Some ''***''})"
proof -
  let ?name = "\<lambda>u. if url_username U u \<noteq> [] then set_username U ''***'' u else Some u"
  let ?pass = "\<lambda>u. if url_password U u \<noteq> None then set_password U (Some ''***'') u else Some u"
  let ?base = "if cannot_be_a_base U (url_inner r) then None else Some (url_inner r)"
  have name: "url_username U u' \<in> {[], ''***''}" if "?name u = Some u'" for u u'
    using that assms by (auto simp: url_laws_def split: if_splits)
  have pass: "url_username U u' = url_username U u \<and> url_password U u' \<in> {None, Some ''***''}" if "?pass u = Some u'" for u u'
    using that assms by (auto simp: url_laws_def split: if_splits)
  show ?thesis
  proof (cases "Option.bind ?base (\<lambda>u. Option.bind (?name u) ?pass)")
    case None
    then show ?thesis by (simp add: redacted_url_debug_def Let_def)
  next
    case (Some u)
    then obtain u1 u2 where "?name u1 = Some u2" "?pass u2 = Some u"
      unfolding Option.bind_eq_Some_conv by blast
    from name [OF this(1)] pass [OF this(2)]
    have "url_username U u \<in> {[], ''***''} \<and> url_password U u \<in> {None, Some ''***''}"
      by simp
    moreover have "redacted_url_debug U r = url_as_str U u"
      using Some by (simp add: redacted_url_debug_def Let_def)
    ultimately show ?thesis by blast
  qed
qed

end
