(* ===== verification/Supervisor.thy ===== *)
theory Supervisor
  imports Prelude
begin

text \<open>
  The supervisor of the node and the log of its services, \<open>src/internal/services\<close>.

  \<open>SupervisorService.Start\<close> runs concurrently with the services it starts, so it is a machine:
  \<open>supervisor_step\<close> is one step of the supervisor, of a service, of a timer or of the caller,
  and \<open>None\<close> when that step is not possible.  Where several cases of a \<open>select\<close> are ready Go takes
  any of them, and so may a run.  The timers may fire at any time.  The package \<open>errgroup\<close> keeps
  the first error that a service returns and cancels the context of the group; a cancelled
  context stays cancelled.  A service sends at most one message on its channel of readiness,
  whose buffer has room for it.

  \<open>line_writer_write\<close> and \<open>command_logger_write\<close> are the pure parts of what happens to the output
  of a service.  The execution of the commands is not modelled.
\<close>

section \<open>The supervisor (supervisor.go)\<close>

datatype 'e ServiceError = Canceled | ServiceTimeoutError | SupervisorTimeoutError | ServiceFailed 'e

definition DefaultServiceTimeout :: int where
  "DefaultServiceTimeout = 5 * 1000000000"

record 'v SupervisorService =
  sup_Name :: string
  sup_Services :: "'v list"
  sup_ReadyTimeout :: int
  sup_StopTimeout :: int

definition service_timeout :: "int \<Rightarrow> int" where
  "service_timeout t = (if t \<le> 0 then DefaultServiceTimeout else t)"

text \<open>What \<open>Start\<close> knows of a service: whether its goroutine runs or ran, whether it announced that it
  is ready, and what it returned.\<close>

record 'e ServiceRun =
  run_started :: bool
  run_signalled :: bool
  run_exit :: "'e ServiceError option option"

text \<open>Where \<open>Start\<close> stands: at the head of its loop, in the \<open>select\<close> of the loop for a service, at
  \<open>ready <- struct\<close>, at \<open><-ctx.Done()\<close>, in the last \<open>select\<close>, or past its end.\<close>

datatype 'e SupervisorPhase =
    StartingService nat
  | AwaitingReady nat
  | SendingReady
  | AwaitingDone
  | AwaitingStop
  | Returned "'e ServiceError option"

record 'e SupervisorRun =
  sup_runs :: "'e ServiceRun list"
  sup_phase :: "'e SupervisorPhase"
  sup_ctx_done :: bool
  sup_group_err :: "'e ServiceError option"
  sup_service_timed_out :: bool
  sup_ready :: bool

datatype 'e SupervisorEvent =
    NextService
  | ServiceIsReady
  | StartCanceled
  | ReadyTimedOut
  | AnnounceReady
  | ContextDone
  | GroupDone
  | StopTimedOut
  | SignalReady nat
  | ServiceExit nat "'e ServiceError option"
  | CancelContext

definition supervisor_init :: "'v SupervisorService \<Rightarrow> 'e SupervisorRun" where
  "supervisor_init s =
     \<lparr> sup_runs = replicate (length (sup_Services s)) \<lparr> run_started = False, run_signalled = False, run_exit = None \<rparr>,
       sup_phase = StartingService 0, sup_ctx_done = False, sup_group_err = None,
       sup_service_timed_out = False, sup_ready = False \<rparr>"

text \<open>\<open>if ctx.Err() == nil\<close> after the loop\<close>

definition after_loop :: "'e SupervisorRun \<Rightarrow> 'e SupervisorRun" where
  "after_loop r = r\<lparr>sup_phase := if sup_ctx_done r then AwaitingDone else SendingReady\<rparr>"

text \<open>\<open>errgroup\<close>: the function of a goroutine returned\<close>

definition group_returned :: "'e ServiceError option \<Rightarrow> 'e SupervisorRun \<Rightarrow> 'e SupervisorRun" where
  "group_returned err r =
     (if err \<noteq> None \<and> sup_group_err r = None then r\<lparr>sup_group_err := err, sup_ctx_done := True\<rparr> else r)"

definition group_finished :: "'e SupervisorRun \<Rightarrow> bool" where
  "group_finished r = (\<forall>s \<in> set (sup_runs r). run_started s \<longrightarrow> run_exit s \<noteq> None)"

fun supervisor_step :: "'e SupervisorEvent \<Rightarrow> 'e SupervisorRun \<Rightarrow> 'e SupervisorRun option" where
  "supervisor_step NextService r =
     (case sup_phase r of
        StartingService k \<Rightarrow>
          if k < length (sup_runs r)
          then Some (r\<lparr>sup_runs := (sup_runs r)[k := (sup_runs r ! k)\<lparr>run_started := True\<rparr>],
                       sup_phase := AwaitingReady k\<rparr>)
          else Some (after_loop r)
      | _ \<Rightarrow> None)"
| "supervisor_step ServiceIsReady r =
     (case sup_phase r of
        AwaitingReady k \<Rightarrow> if run_signalled (sup_runs r ! k) then Some (r\<lparr>sup_phase := StartingService (Suc k)\<rparr>) else None
      | _ \<Rightarrow> None)"
| "supervisor_step StartCanceled r =
     (case sup_phase r of
        AwaitingReady k \<Rightarrow> if sup_ctx_done r then Some (after_loop r) else None
      | _ \<Rightarrow> None)"
| "supervisor_step ReadyTimedOut r =
     (case sup_phase r of
        AwaitingReady k \<Rightarrow> Some (after_loop (r\<lparr>sup_ctx_done := True, sup_service_timed_out := True\<rparr>))
      | _ \<Rightarrow> None)"
| "supervisor_step AnnounceReady r =
     (if sup_phase r = SendingReady then Some (r\<lparr>sup_ready := True, sup_phase := AwaitingDone\<rparr>) else None)"
| "supervisor_step ContextDone r =
     (if sup_phase r = AwaitingDone \<and> sup_ctx_done r then Some (r\<lparr>sup_phase := AwaitingStop\<rparr>) else None)"
| "supervisor_step GroupDone r =
     (if sup_phase r = AwaitingStop \<and> group_finished r
      then Some (r\<lparr>sup_phase := Returned (if sup_service_timed_out r then Some ServiceTimeoutError else sup_group_err r)\<rparr>)
      else None)"
| "supervisor_step StopTimedOut r =
     (if sup_phase r = AwaitingStop then Some (r\<lparr>sup_phase := Returned (Some SupervisorTimeoutError)\<rparr>) else None)"
| "supervisor_step (SignalReady i) r =
     (if i < length (sup_runs r) \<and> run_started (sup_runs r ! i) \<and> \<not> run_signalled (sup_runs r ! i)
      then Some (r\<lparr>sup_runs := (sup_runs r)[i := (sup_runs r ! i)\<lparr>run_signalled := True\<rparr>]\<rparr>)
      else None)"
| "supervisor_step (ServiceExit i err) r =
     (if i < length (sup_runs r) \<and> run_started (sup_runs r ! i) \<and> run_exit (sup_runs r ! i) = None
      then Some (group_returned err (r\<lparr>sup_runs := (sup_runs r)[i := (sup_runs r ! i)\<lparr>run_exit := Some err\<rparr>]\<rparr>))
      else None)"
| "supervisor_step CancelContext r =
     (if sup_ctx_done r then None else Some (r\<lparr>sup_ctx_done := True\<rparr>))"

inductive supervisor_run :: "'v SupervisorService \<Rightarrow> 'e SupervisorEvent list \<Rightarrow> 'e SupervisorRun \<Rightarrow> bool"
  for s :: "'v SupervisorService" where
  sv_start: "supervisor_run s [] (supervisor_init s)"
| sv_step: "\<lbrakk>supervisor_run s es r; supervisor_step e r = Some r'\<rbrakk> \<Longrightarrow> supervisor_run s (es @ [e]) r'"

inductive_cases supervisor_run_snocE: "supervisor_run s es r"

section \<open>The output of a service (linewriter.go, command.go)\<close>

text \<open>The buffer, and the lines written to the inner writer so far.\<close>

record lineWriter =
  lw_buffer :: string
  lw_lines :: "string list"

definition newLineWriter :: lineWriter where
  "newLineWriter = \<lparr> lw_buffer = '''', lw_lines = [] \<rparr>"

definition newline :: char where
  "newline = CHR 0x0A"

text \<open>The loop of \<open>lineWriter.Write\<close>: \<open>ReadBytes\<close> takes the buffer up to the first newline.\<close>

function read_lines :: "lineWriter \<Rightarrow> lineWriter" where
  "read_lines w =
     (if newline \<in> set (lw_buffer w) then
        let line = takeWhile (\<lambda>c. c \<noteq> newline) (lw_buffer w) @ [newline];
            rest = drop (length line) (lw_buffer w);
            w' = (if length line > 1 then w\<lparr>lw_lines := lw_lines w @ [line]\<rparr> else w)
        in read_lines (w'\<lparr>lw_buffer := rest\<rparr>)
      else w)"
  by pat_completeness auto
termination
  by (relation "measure (\<lambda>w. length (lw_buffer w))") (auto simp: Let_def intro!: diff_less length_pos_if_in_set)

declare read_lines.simps [simp del]

definition line_writer_write :: "string \<Rightarrow> lineWriter \<Rightarrow> lineWriter \<times> nat" where
  "line_writer_write data w = (read_lines (w\<lparr>lw_buffer := lw_buffer w @ data\<rparr>), length data)"

datatype slogLevel = LevelDebug | LevelInfo | LevelWarn | LevelError

definition lower_char :: "char \<Rightarrow> char" where
  "lower_char c = (if 65 \<le> (of_char c :: nat) \<and> (of_char c :: nat) \<le> 90 then char_of (of_char c + 32 :: nat) else c)"

text \<open>A match of \<open>(?i)word\<close> anywhere in the text\<close>

definition mentions :: "string \<Rightarrow> string \<Rightarrow> bool" where
  "mentions word msg = sublist word (map lower_char msg)"

definition logLevelForMessage :: "string \<Rightarrow> slogLevel" where
  "logLevelForMessage msg =
     (if mentions ''info'' msg then LevelInfo
      else if mentions ''debug'' msg \<or> mentions ''trace'' msg then LevelDebug
      else if mentions ''warn'' msg then LevelWarn
      else if mentions ''error'' msg \<or> mentions ''fatal'' msg then LevelError
      else LevelInfo)"

text \<open>\<open>commandLogger.Write\<close>: what is logged, if anything, and the returned count.  The text is ASCII.\<close>

definition alphanumeric :: "char \<Rightarrow> bool" where
  "alphanumeric c = (let n = (of_char c :: nat) in
     97 \<le> n \<and> n \<le> 122 \<or> 65 \<le> n \<and> n \<le> 90 \<or> 48 \<le> n \<and> n \<le> 57)"

definition go_space :: "char \<Rightarrow> bool" where
  "go_space c = (c = CHR '' '' \<or> (let n = (of_char c :: nat) in 9 \<le> n \<and> n \<le> 13))"

definition TrimSpace :: "string \<Rightarrow> string" where
  "TrimSpace s = rev (dropWhile go_space (rev (dropWhile go_space s)))"

definition command_logger_write :: "string \<Rightarrow> (slogLevel \<times> string) option \<times> nat" where
  "command_logger_write data =
     (if \<exists>c \<in> set data. alphanumeric c then
        let msg = TrimSpace data in (Some (logLevelForMessage msg, msg), length msg)
      else (None, 0))"

section \<open>The supervisor is orderly\<close>

fun first_error :: "'e SupervisorEvent list \<Rightarrow> 'e ServiceError option" where
  "first_error [] = None"
| "first_error (ServiceExit i (Some e) # es) = Some e"
| "first_error (_ # es) = first_error es"

lemma first_error_snoc:
  "first_error (es @ [e]) =
     (case first_error es of Some x \<Rightarrow> Some x | None \<Rightarrow> (case e of ServiceExit i err \<Rightarrow> err | _ \<Rightarrow> None))"
proof (induction es rule: first_error.induct)
  case 1
  then show ?case
  proof (cases e)
    case (ServiceExit i err)
    then show ?thesis by (cases err) simp_all
  qed simp_all
qed simp_all

lemma first_error_quiet:
  "first_error (es @ [NextService]) = first_error es" "first_error (es @ [ServiceIsReady]) = first_error es"
  "first_error (es @ [StartCanceled]) = first_error es" "first_error (es @ [ReadyTimedOut]) = first_error es"
  "first_error (es @ [AnnounceReady]) = first_error es" "first_error (es @ [ContextDone]) = first_error es"
  "first_error (es @ [GroupDone]) = first_error es" "first_error (es @ [StopTimedOut]) = first_error es"
  "first_error (es @ [SignalReady i]) = first_error es" "first_error (es @ [CancelContext]) = first_error es"
  by (simp_all add: first_error_snoc split: option.split)

definition all_signalled :: "'e SupervisorRun \<Rightarrow> nat \<Rightarrow> bool" where
  "all_signalled r k = (\<forall>i < k. run_signalled (sup_runs r ! i))"

definition started_upto :: "'e SupervisorRun \<Rightarrow> nat \<Rightarrow> bool" where
  "started_upto r k = (\<forall>i < length (sup_runs r). run_started (sup_runs r ! i) \<longleftrightarrow> i < k)"

definition exited_upto :: "'e SupervisorRun \<Rightarrow> nat \<Rightarrow> bool" where
  "exited_upto r k = (\<forall>i < k. run_exit (sup_runs r ! i) \<noteq> None)"

text \<open>What the place of the supervisor says about the services, \<open>k\<close> of which were started.\<close>

fun phase_inv :: "'e SupervisorEvent list \<Rightarrow> nat \<Rightarrow> 'e SupervisorRun \<Rightarrow> 'e SupervisorPhase \<Rightarrow> bool" where
  "phase_inv es k r (StartingService j) = (j = k \<and> all_signalled r k \<and> \<not> sup_service_timed_out r \<and> \<not> sup_ready r)"
| "phase_inv es k r (AwaitingReady j) = (k = Suc j \<and> all_signalled r j \<and> \<not> sup_service_timed_out r \<and> \<not> sup_ready r)"
| "phase_inv es k r SendingReady = (k = length (sup_runs r) \<and> all_signalled r k \<and> \<not> sup_service_timed_out r)"
| "phase_inv es k r AwaitingDone = True"
| "phase_inv es k r AwaitingStop = sup_ctx_done r"
| "phase_inv es k r (Returned x) =
     (sup_ctx_done r \<and>
      (x = Some SupervisorTimeoutError \<and> StopTimedOut \<in> set es \<or>
       exited_upto r k \<and> x = (if sup_service_timed_out r then Some ServiceTimeoutError else sup_group_err r)))"

definition sup_inv :: "nat \<Rightarrow> 'e SupervisorEvent list \<Rightarrow> nat \<Rightarrow> 'e SupervisorRun \<Rightarrow> bool" where
  "sup_inv n es k r =
     (length (sup_runs r) = n \<and> k \<le> n \<and> started_upto r k \<and> all_signalled r (k - 1) \<and>
      (sup_ready r \<longrightarrow> k = n \<and> all_signalled r n \<and> \<not> sup_service_timed_out r) \<and>
      (sup_service_timed_out r \<longleftrightarrow> ReadyTimedOut \<in> set es) \<and> (sup_service_timed_out r \<longrightarrow> sup_ctx_done r) \<and>
      sup_group_err r = first_error es \<and> (sup_group_err r \<noteq> None \<longrightarrow> sup_ctx_done r) \<and>
      phase_inv es k r (sup_phase r))"

lemmas upto_defs = all_signalled_def started_upto_def exited_upto_def

text \<open>A step of a service changes no other service and takes nothing back.\<close>

lemma upto_update:
  assumes "i < length (sup_runs r)" "run_started s = run_started (sup_runs r ! i)"
    "run_signalled (sup_runs r ! i) \<Longrightarrow> run_signalled s" "run_exit (sup_runs r ! i) \<noteq> None \<Longrightarrow> run_exit s \<noteq> None"
  shows "started_upto (r\<lparr>sup_runs := (sup_runs r)[i := s]\<rparr>) k = started_upto r k"
    "all_signalled r k \<Longrightarrow> all_signalled (r\<lparr>sup_runs := (sup_runs r)[i := s]\<rparr>) k"
    "exited_upto r k \<Longrightarrow> exited_upto (r\<lparr>sup_runs := (sup_runs r)[i := s]\<rparr>) k"
  using assms by (auto simp: upto_defs nth_list_update)

lemma upto_cong:
  assumes "sup_runs r' = sup_runs r"
  shows "started_upto r' k = started_upto r k" "all_signalled r' k = all_signalled r k" "exited_upto r' k = exited_upto r k"
  using assms by (simp_all add: upto_defs)

lemma phase_inv_update:
  assumes "phase_inv es k r p" "sup_runs r' = sup_runs r" "sup_ctx_done r \<Longrightarrow> sup_ctx_done r'" "set es \<subseteq> set es'"
    "sup_service_timed_out r' = sup_service_timed_out r" "sup_ready r' = sup_ready r" "sup_group_err r' = sup_group_err r"
  shows "phase_inv es' k r' p"
  using assms by (cases p) (auto simp: upto_cong [OF assms(2)])

lemma group_finished_iff:
  assumes "started_upto r k" "k \<le> length (sup_runs r)"
  shows "group_finished r \<longleftrightarrow> exited_upto r k"
  using assms by (fastforce simp: group_finished_def upto_defs all_set_conv_all_nth)

lemma sup_inv_init: "sup_inv (length (sup_Services s)) [] 0 (supervisor_init s)"
  by (simp add: sup_inv_def supervisor_init_def upto_defs)

lemma sup_inv_next_service:
  assumes "sup_inv n es k r" "supervisor_step NextService r = Some r'"
  shows "\<exists>k'. sup_inv n (es @ [NextService]) k' r'"
proof -
  from assms(2) obtain j where j: "sup_phase r = StartingService j"
    by (auto split: SupervisorPhase.splits)
  show ?thesis
  proof (cases "j < length (sup_runs r)")
    case True
    with assms j have "sup_inv n (es @ [NextService]) (Suc k) r'"
      by (auto simp: sup_inv_def upto_defs first_error_quiet nth_list_update less_Suc_eq)
    then show ?thesis ..
  next
    case False
    with assms j have "sup_inv n (es @ [NextService]) k r'"
      by (auto simp: sup_inv_def upto_defs first_error_quiet after_loop_def)
    then show ?thesis ..
  qed
qed

lemma sup_inv_own_step:
  assumes "sup_inv n es k r" "supervisor_step e r = Some r'"
    "e \<in> {ServiceIsReady, StartCanceled, ReadyTimedOut, AnnounceReady, ContextDone, GroupDone, StopTimedOut, CancelContext}"
  shows "sup_inv n (es @ [e]) k r'"
proof -
  from assms(3) consider "e = ServiceIsReady" | "e = StartCanceled" | "e = ReadyTimedOut" | "e = AnnounceReady"
    | "e = ContextDone" | "e = GroupDone" | "e = StopTimedOut" | "e = CancelContext"
    by auto
  then show ?thesis
  proof cases
    case 6
    have "group_finished r \<longleftrightarrow> exited_upto r k"
      using assms(1) by (intro group_finished_iff) (auto simp: sup_inv_def)
    with assms 6 show ?thesis
      by (auto simp: sup_inv_def first_error_quiet upto_cong [of "r\<lparr>sup_phase := p\<rparr>" r for p] split: if_splits)
  next
    case 8
    with assms phase_inv_update [of es k r "sup_phase r" "r\<lparr>sup_ctx_done := True\<rparr>" "es @ [e]"]
    show ?thesis
      by (auto simp: sup_inv_def first_error_quiet upto_cong [of "r\<lparr>sup_ctx_done := True\<rparr>" r] subset_insertI split: if_splits)
  qed (use assms in \<open>auto simp: sup_inv_def upto_defs first_error_quiet after_loop_def less_Suc_eq
        split: if_splits SupervisorPhase.splits\<close>)
qed

lemma phase_inv_service:
  assumes "phase_inv es k r (sup_phase r)" "i < length (sup_runs r)" "run_started s = run_started (sup_runs r ! i)"
    "run_signalled (sup_runs r ! i) \<Longrightarrow> run_signalled s" "run_exit (sup_runs r ! i) \<noteq> None \<Longrightarrow> run_exit s \<noteq> None"
    "set es \<subseteq> set es'"
  shows "phase_inv es' k (r\<lparr>sup_runs := (sup_runs r)[i := s]\<rparr>) (sup_phase r)"
  using assms(1,6) upto_update [OF assms(2-5)] by (cases "sup_phase r") auto

lemma sup_inv_signal:
  assumes "sup_inv n es k r" "supervisor_step (SignalReady i) r = Some r'"
  shows "sup_inv n (es @ [SignalReady i]) k r'"
proof -
  let ?s = "(sup_runs r ! i)\<lparr>run_signalled := True\<rparr>"
  from assms(2) have r': "r' = r\<lparr>sup_runs := (sup_runs r)[i := ?s]\<rparr>" and i: "i < length (sup_runs r)"
    by (auto split: if_splits)
  note upto = upto_update [OF i, of ?s, simplified]
  have "phase_inv (es @ [SignalReady i]) k r' (sup_phase r)"
    unfolding r' by (rule phase_inv_service) (use assms(1) i in \<open>auto simp: sup_inv_def\<close>)
  with assms(1) upto show ?thesis
    by (auto simp: sup_inv_def r' first_error_quiet)
qed

lemma sup_inv_exit:
  assumes "sup_inv n es k r" "supervisor_step (ServiceExit i err) r = Some r'"
  shows "sup_inv n (es @ [ServiceExit i err]) k r'"
proof -
  let ?s = "(sup_runs r ! i)\<lparr>run_exit := Some err\<rparr>"
  let ?r = "r\<lparr>sup_runs := (sup_runs r)[i := ?s]\<rparr>"
  let ?es = "es @ [ServiceExit i err]"
  from assms(2) have r': "r' = group_returned err ?r" and i: "i < length (sup_runs r)" "run_started (sup_runs r ! i)"
    and none: "run_exit (sup_runs r ! i) = None"
    by (auto split: if_splits)
  note upto = upto_update [OF i(1), of ?s, simplified]
  have phase: "phase_inv ?es k ?r (sup_phase r)"
    by (rule phase_inv_service) (use assms(1) i in \<open>auto simp: sup_inv_def\<close>)
  have "i < k"
    using assms(1) i by (auto simp: sup_inv_def started_upto_def)
  with none have "\<not> exited_upto r k"
    by (auto simp: exited_upto_def)
  with assms(1) phase have "phase_inv ?es k (?r\<lparr>sup_group_err := err, sup_ctx_done := True\<rparr>) (sup_phase r)"
    by (cases "sup_phase r") (auto simp: sup_inv_def upto_cong [of "?r\<lparr>sup_group_err := err, sup_ctx_done := True\<rparr>" ?r])
  with phase assms(1) upto show ?thesis
    by (auto simp: sup_inv_def r' group_returned_def first_error_snoc upto_cong
          [of "?r\<lparr>sup_group_err := err, sup_ctx_done := True\<rparr>" ?r] split: option.splits)
qed

lemma sup_inv_step:
  assumes "sup_inv n es k r" "supervisor_step e r = Some r'"
  shows "\<exists>k'. sup_inv n (es @ [e]) k' r'"
proof (cases e)
  case NextService
  with assms sup_inv_next_service show ?thesis by blast
next
  case (SignalReady i)
  with assms sup_inv_signal show ?thesis by blast
next
  case (ServiceExit i err)
  with assms sup_inv_exit show ?thesis by blast
qed (use assms sup_inv_own_step in blast)+

lemma sup_inv_run: "supervisor_run s es r \<Longrightarrow> \<exists>k. sup_inv (length (sup_Services s)) es k r"
proof (induction rule: supervisor_run.induct)
  case sv_start
  then show ?case using sup_inv_init by blast
next
  case (sv_step es r e r')
  then show ?case using sup_inv_step by blast
qed

text \<open>C14: The supervisor is orderly.  At every point of a run of \<open>SupervisorService.Start\<close> the services
  started so far are the first \<open>k\<close> of its list, and all of them but the last announced that they are
  ready.  It announces its own readiness only when all its services did and none took too long.  When
  it returns, then either the services took too long to stop and it returns that error, or every
  service it started has returned: then the result is the error of a service that took too long to
  start, if one did, and else the first error that a service returned.\<close>

theorem supervisor_is_orderly:
  assumes "supervisor_run s es r"
  shows "\<exists>k \<le> length (sup_Services s).
    length (sup_runs r) = length (sup_Services s) \<and>
    (\<forall>i < length (sup_runs r). run_started (sup_runs r ! i) \<longleftrightarrow> i < k) \<and>
    (\<forall>i. Suc i < k \<longrightarrow> run_signalled (sup_runs r ! i)) \<and>
    (sup_ready r \<longrightarrow> ReadyTimedOut \<notin> set es \<and> k = length (sup_Services s) \<and> (\<forall>i < k. run_signalled (sup_runs r ! i))) \<and>
    (\<forall>x. sup_phase r = Returned x \<longrightarrow>
       x = Some SupervisorTimeoutError \<and> StopTimedOut \<in> set es \<or>
       (\<forall>i < k. run_exit (sup_runs r ! i) \<noteq> None) \<and>
       x = (if ReadyTimedOut \<in> set es then Some ServiceTimeoutError else first_error es))"
proof -
  from sup_inv_run [OF assms] obtain k where "sup_inv (length (sup_Services s)) es k r" ..
  then show ?thesis
    by (intro exI [of _ k]) (auto simp: sup_inv_def upto_defs simp del: not_None_eq)
qed

text \<open>A supervisor of two services: both become ready, the second fails, the first is stopped.\<close>

definition sample_services :: "nat SupervisorService" where
  "sample_services = \<lparr> sup_Name = ''rollups-node'', sup_Services = [0, 1], sup_ReadyTimeout = 0, sup_StopTimeout = 0 \<rparr>"

definition sample_service_events :: "string SupervisorEvent list" where
  "sample_service_events = [NextService, SignalReady 0, ServiceIsReady, NextService, SignalReady 1, ServiceIsReady, NextService,
     AnnounceReady, ServiceExit 1 (Some (ServiceFailed ''exit status 1'')), ContextDone, ServiceExit 0 (Some Canceled), GroupDone]"

fun supervisor_steps :: "'e SupervisorEvent list \<Rightarrow> 'e SupervisorRun \<Rightarrow> 'e SupervisorRun option" where
  "supervisor_steps [] r = Some r"
| "supervisor_steps (e # es) r = Option.bind (supervisor_step e r) (supervisor_steps es)"

lemma supervisor_steps_run:
  "\<lbrakk>supervisor_run s es0 r; supervisor_steps es r = Some r'\<rbrakk> \<Longrightarrow> supervisor_run s (es0 @ es) r'"
proof (induction es arbitrary: es0 r)
  case (Cons e es)
  from Cons.prems(2) obtain r1 where "supervisor_step e r = Some r1" "supervisor_steps es r1 = Some r'"
    by (auto simp: bind_eq_Some_conv)
  with Cons.IH [OF sv_step [OF Cons.prems(1)]] show ?case by simp
qed simp

definition sample_service_end :: "string SupervisorRun" where
  "sample_service_end = the (supervisor_steps sample_service_events (supervisor_init sample_services))"

lemma sample_service_steps:
  "supervisor_steps sample_service_events (supervisor_init sample_services) = Some sample_service_end"
  "sup_phase sample_service_end = Returned (Some (ServiceFailed ''exit status 1''))" "sup_ready sample_service_end"
  by (simp_all add: sample_service_end_def sample_service_events_def sample_services_def supervisor_init_def
        after_loop_def group_returned_def group_finished_def)

lemma sample_service_run: "supervisor_run sample_services sample_service_events sample_service_end"
  using supervisor_steps_run [OF sv_start sample_service_steps(1)] by simp

theorem supervisor_is_orderly_witness:
  "supervisor_run sample_services sample_service_events sample_service_end \<and>
   sup_ready sample_service_end \<and> run_signalled (sup_runs sample_service_end ! 0) \<and> run_signalled (sup_runs sample_service_end ! 1) \<and>
   run_exit (sup_runs sample_service_end ! 0) \<noteq> None \<and>
   first_error sample_service_events = Some (ServiceFailed ''exit status 1'')"
proof -
  have n: "length (sup_Services sample_services) = 2"
    by (simp add: sample_services_def)
  have stop: "StopTimedOut \<notin> set sample_service_events" "ReadyTimedOut \<notin> set sample_service_events"
    by (simp_all add: sample_service_events_def)
  show ?thesis
    using supervisor_is_orderly [OF sample_service_run] sample_service_run sample_service_steps(2,3) stop
    by (auto simp: n)
qed

section \<open>The supervisor returns\<close>

fun phase_rank :: "nat \<Rightarrow> 'e SupervisorPhase \<Rightarrow> nat" where
  "phase_rank n (StartingService j) = 2 * (n - j) + 4"
| "phase_rank n (AwaitingReady j) = 2 * (n - j) + 3"
| "phase_rank n SendingReady = 3"
| "phase_rank n AwaitingDone = 2"
| "phase_rank n AwaitingStop = 1"
| "phase_rank n (Returned x) = 0"

definition service_rank :: "'e ServiceRun \<Rightarrow> nat" where
  "service_rank s = of_bool (\<not> run_started s) + of_bool (\<not> run_signalled s) + of_bool (run_exit s = None)"

definition sup_rank :: "'e SupervisorRun \<Rightarrow> nat" where
  "sup_rank r = sum_list (map service_rank (sup_runs r)) + of_bool (\<not> sup_ctx_done r) + phase_rank (length (sup_runs r)) (sup_phase r)"

lemma service_rank_update:
  assumes "i < length xs" "service_rank s < service_rank (xs ! i)"
  shows "sum_list (map service_rank (xs[i := s])) < sum_list (map service_rank xs)"
proof -
  have "service_rank (xs ! i) \<le> sum_list (map service_rank xs)"
    using assms(1) by (simp add: member_le_sum_list)
  then show ?thesis
    using assms by (simp add: map_update sum_list_update)
qed

lemma supervisor_step_rank:
  assumes "supervisor_step e r = Some r'" "sup_inv n es k r"
  shows "sup_rank r' < sup_rank r"
proof (cases e)
  case NextService
  from assms(1) NextService obtain j where j: "sup_phase r = StartingService j"
    by (auto split: SupervisorPhase.splits)
  show ?thesis
  proof (cases "j < length (sup_runs r)")
    case True
    with assms(2) j have "\<not> run_started (sup_runs r ! j)"
      by (auto simp: sup_inv_def started_upto_def)
    then have "service_rank ((sup_runs r ! j)\<lparr>run_started := True\<rparr>) < service_rank (sup_runs r ! j)"
      by (simp add: service_rank_def)
    from service_rank_update [OF True this] assms(1) NextService j True show ?thesis
      by (auto simp: sup_rank_def)
  qed (use assms(1) NextService j in \<open>auto simp: sup_rank_def after_loop_def\<close>)
next
  case (SignalReady i)
  then show ?thesis
    using assms(1) service_rank_update [of i "sup_runs r"] by (auto simp: sup_rank_def service_rank_def split: if_splits)
next
  case (ServiceExit i err)
  then show ?thesis
    using assms(1) service_rank_update [of i "sup_runs r" "(sup_runs r ! i)\<lparr>run_exit := Some err\<rparr>"]
    by (auto simp: sup_rank_def service_rank_def group_returned_def split: if_splits)
next
  case ServiceIsReady
  then show ?thesis
    using assms by (auto simp: sup_rank_def sup_inv_def split: SupervisorPhase.splits if_splits)
qed (use assms in \<open>auto simp: sup_rank_def after_loop_def split: SupervisorPhase.splits if_splits\<close>)

lemma sup_rank_init: "sup_rank (supervisor_init s) = 5 * length (sup_Services s) + 5"
  by (simp add: sup_rank_def supervisor_init_def service_rank_def sum_list_replicate)

lemma supervisor_run_bound:
  "supervisor_run s es r \<Longrightarrow> length es + sup_rank r \<le> 5 * length (sup_Services s) + 5"
proof (induction rule: supervisor_run.induct)
  case sv_start
  then show ?case by (simp add: sup_rank_init)
next
  case (sv_step es r e r')
  from sup_inv_run [OF sv_step.hyps(1)] supervisor_step_rank [OF sv_step.hyps(2)] have "sup_rank r' < sup_rank r"
    by blast
  with sv_step.IH show ?case by simp
qed

text \<open>The steps that need neither a service nor the caller.\<close>

definition own_event :: "'e SupervisorEvent \<Rightarrow> bool" where
  "own_event e = (e \<in> {NextService, ServiceIsReady, StartCanceled, ReadyTimedOut, AnnounceReady, ContextDone, GroupDone, StopTimedOut})"

definition sup_returned :: "'e SupervisorRun \<Rightarrow> bool" where
  "sup_returned r = (case sup_phase r of Returned x \<Rightarrow> True | _ \<Rightarrow> False)"



section \<open>The lines of a service\<close>

text \<open>The complete lines of a text, each with its newline, and what follows the last of them.\<close>

fun split_lines :: "string \<Rightarrow> string list \<times> string" where
  "split_lines [] = ([], [])"
| "split_lines (c # cs) =
     (case split_lines cs of (ls, rest) \<Rightarrow>
        if c = newline then ([c] # ls, rest)
        else (case ls of [] \<Rightarrow> ([], c # rest) | l # ls' \<Rightarrow> ((c # l) # ls', rest)))"

lemma split_lines_concat: "concat (fst (split_lines cs)) @ snd (split_lines cs) = cs"
  by (induction cs) (auto split: prod.splits list.splits)

lemma split_lines_none: "newline \<notin> set cs \<Longrightarrow> split_lines cs = ([], cs)"
  by (induction cs) auto

lemma split_lines_line:
  "newline \<notin> set l \<Longrightarrow> split_lines (l @ newline # cs) = ((l @ [newline]) # fst (split_lines cs), snd (split_lines cs))"
  by (induction l) (auto split: prod.splits)

lemma split_lines_append:
  "split_lines (xs @ ys) = (fst (split_lines xs) @ fst (split_lines (snd (split_lines xs) @ ys)), snd (split_lines (snd (split_lines xs) @ ys)))"
  by (induction xs) (auto split: prod.splits list.splits)

definition log_lines :: "string list \<Rightarrow> string list" where
  "log_lines ls = filter (\<lambda>l. 1 < length l) ls"

lemma read_lines_eq:
  "read_lines w = w\<lparr>lw_lines := lw_lines w @ log_lines (fst (split_lines (lw_buffer w))), lw_buffer := snd (split_lines (lw_buffer w))\<rparr>"
proof (induction w rule: read_lines.induct)
  case (1 w)
  let ?b = "lw_buffer w"
  show ?case
  proof (cases "newline \<in> set ?b")
    case True
    then obtain l cs where b: "?b = l @ newline # cs" and l: "newline \<notin> set l"
      by (meson split_list_first)
    from l have first: "takeWhile (\<lambda>c. c \<noteq> newline) (l @ newline # cs) = l"
      by (induction l) auto
    from 1 True show ?thesis
      by (subst read_lines.simps) (simp add: Let_def log_lines_def b first split_lines_line [OF l])
  next
    case False
    then show ?thesis
      by (subst read_lines.simps) (simp add: split_lines_none log_lines_def)
  qed
qed

lemma split_lines_shape:
  "list_all (\<lambda>l. l \<noteq> [] \<and> last l = newline \<and> newline \<notin> set (butlast l)) (fst (split_lines cs))"
  by (induction cs) (auto split: prod.splits list.splits)

lemma split_lines_rest: "newline \<notin> set (snd (split_lines cs))"
  by (induction cs) (auto split: prod.splits list.splits)

lemma write_chunks:
  "fold (\<lambda>data w. fst (line_writer_write data w)) chunks w =
     w\<lparr>lw_lines := lw_lines w @ log_lines (fst (split_lines (lw_buffer w @ concat chunks))),
       lw_buffer := snd (split_lines (lw_buffer w @ concat chunks))\<rparr>"
  if "newline \<notin> set (lw_buffer w)"
  using that
proof (induction chunks arbitrary: w)
  case Nil
  then show ?case by (simp add: split_lines_none log_lines_def)
next
  case (Cons data chunks)
  let ?w = "fst (line_writer_write data w)"
  have w: "?w = w\<lparr>lw_lines := lw_lines w @ log_lines (fst (split_lines (lw_buffer w @ data))), lw_buffer := snd (split_lines (lw_buffer w @ data))\<rparr>"
    by (simp add: line_writer_write_def read_lines_eq)
  have "split_lines (lw_buffer w @ data @ concat chunks) =
      (fst (split_lines (lw_buffer w @ data)) @ fst (split_lines (snd (split_lines (lw_buffer w @ data)) @ concat chunks)),
       snd (split_lines (snd (split_lines (lw_buffer w @ data)) @ concat chunks)))"
    using split_lines_append [of "lw_buffer w @ data" "concat chunks"] by simp
  with Cons.IH [of ?w] show ?case
    by (simp add: w split_lines_rest log_lines_def)
qed

text \<open>C36: The lines of a service do not depend on how its output is cut.  Whatever the chunks in which the
  output of a service arrives, the lines handed to the log are its complete lines that are not empty,
  in order, each with its newline as its only one, and the buffer holds the unfinished line.\<close>

theorem log_lines_of_output:
  "fold (\<lambda>data w. fst (line_writer_write data w)) chunks newLineWriter =
     \<lparr> lw_buffer = snd (split_lines (concat chunks)), lw_lines = log_lines (fst (split_lines (concat chunks))) \<rparr> \<and>
   concat (fst (split_lines (concat chunks))) @ snd (split_lines (concat chunks)) = concat chunks \<and>
   newline \<notin> set (snd (split_lines (concat chunks))) \<and>
   list_all (\<lambda>l. l \<noteq> [] \<and> last l = newline \<and> newline \<notin> set (butlast l)) (fst (split_lines (concat chunks)))"
proof -
  have "newline \<notin> set (lw_buffer newLineWriter)"
    by (simp add: newLineWriter_def)
  from write_chunks [OF this, of chunks] split_lines_concat split_lines_rest split_lines_shape show ?thesis
    by (simp add: newLineWriter_def)
qed

text \<open>An error is logged as information when its text mentions any.\<close>

lemma error_logged_as_info:
  "command_logger_write ''ERROR no info about block'' = (Some (LevelInfo, ''ERROR no info about block''), 25)"
  "logLevelForMessage ''ERROR no data'' = LevelError"
  by code_simp+

end
