(* ===== verification/Spec2Isabelle.thy ===== *)
theory Spec2Isabelle
  imports Dispatcher Host_Session Http_Client Advance_Runner Indexer Authority_Claimer Graphql Inspect_Server
    Claimer_Config Supervisor
begin

text \<open>
  \<^bold>\<open>Verification of the off-chain node of Cartesi Rollups\<close>

  \<^bold>\<open>The program.\<close>  The node reads the inputs that users add to a contract of the base layer, runs an
  application on them, and publishes what it produced.  It is a set of programs under \<open>src/offchain\<close>
  that share a Redis broker with three streams and a PostgreSQL database; a supervisor written in
  Go (\<open>src/internal/services\<close>) starts and stops them.
  \<^item> The \<^emph>\<open>dispatcher\<close> follows the chain through the state-fold library and writes inputs and epoch
    ends to the stream of inputs.
  \<^item> The \<^emph>\<open>advance runner\<close> takes the inputs from that stream, has a \<^emph>\<open>server manager\<close> run them, and
    writes outputs, proofs and claims to the other two streams.  The server manager is either an
    external program that runs the Cartesi machine, or the \<^emph>\<open>host runner\<close> of this repository, which
    runs the application on the host behind the same gRPC interface.
  \<^item> The \<^emph>\<open>authority claimer\<close> takes the claims from their stream and sends to the chain those that are
    not there yet.
  \<^item> The \<^emph>\<open>indexer\<close> copies inputs and outputs from the broker to the database, the \<^emph>\<open>GraphQL server\<close>
    answers queries from the database, and the \<^emph>\<open>inspect server\<close> forwards queries to the server manager.

  \<^bold>\<open>The style of the model.\<close>  \<open>Prelude\<close> fixes it: results with panics (\<open>outcome\<close>), operations on a
  mutable receiver that return what they leave behind (\<open>action\<close>), machine integers as words.  A
  \<open>struct\<close> is a \<open>record\<close>, an \<open>enum\<close> a \<open>datatype\<close>, and a function of the source is a definition of
  the same name, with a prefix where names collide.  What the source only calls is an argument of the
  definitions that call it: Redis, the database driver, the contracts, gRPC clients, the hash
  function, JSON, hexadecimal and base64 codecs, URLs, signers, files.  What the proofs need of such an
  argument is a named predicate (\<open>redis_laws\<close>, \<open>hex_laws\<close>, \<open>base64_laws\<close> and others) that states its
  documented behaviour, and each predicate has an instance in memory (\<open>mem_redis\<close>, \<open>plain_hex_laws\<close> and
  others), on which the witnesses evaluate the definitions.  Interfaces between components are locales,
  interpreted on the definitions of the model.

  \<^bold>\<open>Theories.\<close>
  \<^item> \<open>Rollups_Events\<close> (\<open>rollups-events/src\<close> without the broker): the events of the streams, their keys and
    the encoding of arrays and payloads.  Keys of different streams differ; arrays survive their encoding.
  \<^item> \<open>Broker\<close> (\<open>rollups-events/src/broker\<close>): \<open>Broker::produce\<close>, \<open>peek_latest\<close>, the consumers and the consumer
    of the indexer, over the operations of Redis.  The locale \<open>event_log\<close> is the contract of a stream that
    the clients use, an append-only list of events; \<open>own\<close> interprets it on the client.  A consumer gets
    the events in order, and a blocking one does not time out on a pending event.
  \<^item> \<open>Types_Foldables\<close>, \<open>Types_Config\<close> (\<open>types/src\<close>): folding blocks into the list of inputs, merging of
    sorted iterators, the contract addresses.  Folding block by block equals synchronizing from the start.
  \<^item> \<open>Dispatcher_Facade\<close>, \<open>Dispatcher\<close> (\<open>dispatcher/src\<close>): the facade of the broker with the locale
    \<open>broker_send\<close>, the context that decides on epochs, the machine driver, the loop and the block
    subscription.  The stream is exactly the one that \<open>dispatched\<close> computes from the history of the chain.
  \<^item> \<open>Grpc\<close>: the messages of the interface of the server manager, as far as the programs use them.
    \<open>Server_Manager\<close>, \<open>Advance_Runner\<close> (\<open>advance-runner/src\<close>): the facade of the server manager with its
    retries and conversions, the broker facade and the runner.  Inputs are taken in order and once,
    outputs are complete, claims increase.
  \<^item> \<open>Merkle\<close>, \<open>Host_Model\<close>, \<open>Host_Controller\<close>, \<open>Host_Epoch\<close>, \<open>Host_Session\<close>, \<open>Host_Http\<close> (\<open>host-runner/src\<close>): the Merkle
    trees (\<open>merkle_accumulator\<close>), the hashes of outputs (\<open>proofable\<close>), the controller and its channels
    (\<open>sync_channel\<close>), epochs and their proofs, sessions and gRPC handlers, the HTTP server.
    \<open>Http_Client\<close> (\<open>rollups-http-client/src\<close>) is the client of that server.  An optimised push equals a
    rebuild of the tree, the proofs of a finished epoch validate, and no request is answered twice or lost.
  \<^item> \<open>Data_Pagination\<close>, \<open>Data_Repository\<close> (\<open>data/src\<close>): cursors, pages, rows and queries; the locale \<open>keyed_store\<close>
    is what the five tables promise.  \<open>Indexer\<close> (\<open>indexer/src\<close>) fills them: its run refines the fold of
    the events over the rows.  \<open>Graphql\<close> (\<open>graphql-server/src\<close>) reads them.
  \<^item> \<open>Authority_Claimer\<close> (\<open>authority-claimer/src\<close>): listener, duplicate checker (\<open>claim_checker\<close>), transaction
    sender and loop.  \<open>Claimer_Config\<close>: its configuration and signers, the broker configuration and the
    crate \<open>redacted\<close>.
  \<^item> \<open>Inspect_Server\<close> (\<open>inspect-server/src\<close>): the queue, the task and the HTTP answers.
  \<^item> \<open>Supervisor\<close> (\<open>src/internal/services\<close>): the start and the end of the services, and their log.
  \<^item> This theory: the properties that span programs.  The runner follows the chain that the
    dispatcher read, and what the machine put out is what a query returns.

  \<^bold>\<open>Loops and bounds.\<close>  Loops that run until an error (\<open>runner_start\<close>, \<open>claimer_start\<close>, \<open>indexer_loop\<close>,
  \<open>consume_blocking\<close>, \<open>consume_event\<close>) are partial functions into \<open>option\<close>, with \<open>None\<close> for a loop that does
  not end, and their runs are inductive relations over single iterations, so the properties hold at
  every point of an endless run.  Retries of gRPC calls and the wait for pending inputs recurse on the
  number of attempts that the source bounds.  Everything else terminates: \<open>drain\<close> and \<open>read_lines\<close> by a
  measure, the rest structurally.  There is no fuel.  The controller settles after a bounded number of
  turns, and a run of the supervisor over \<open>n\<close> services has at most \<open>5 * n + 5\<close> steps.

  \<^bold>\<open>Not modelled.\<close>  Generated code: the contract bindings, the gRPC stubs, the database schema and the Go
  readers of the environment.  Programs that are wiring of libraries: the state server, the HTTP
  server for metrics, the health check, the log setup, the mains and their command lines.  The
  execution of commands by the supervisor and the table of environment variables for its services.
  Tests, mocks and fixtures.  Of time, only the possibility that a timer fires; of metrics, only the
  counters of the dispatcher.
\<close>

section \<open>From the chain to the machine\<close>

text \<open>A stream whose entries all decode, read entry by entry.\<close>

lemma decoded_entry:
  assumes "try_all (event_try_from stream) es = Ok evs" and "k < length es"
  shows "event_try_from stream (es ! k) = Ok (evs ! k) \<and> ev_id (evs ! k) = fst (es ! k) \<and> length evs = length es"
proof -
  have all: "list_all2 (\<lambda>e ev. event_try_from stream e = Ok ev) es evs"
    using assms(1) by (simp add: try_all_Ok_iff)
  have "event_try_from stream (es ! k) = Ok (evs ! k)"
    using list_all2_nthD [OF all assms(2)] .
  then show ?thesis
    using event_try_from_id list_all2_lengthD [OF all] by metis
qed

text \<open>The entries that a runner has seen of a stream that the dispatcher keeps.\<close>

definition sees_dispatcher :: "'r RunnerBroker \<Rightarrow> 's BrokerFacade \<Rightarrow> bool" where
  "sees_dispatcher b f \<longleftrightarrow> rb_inputs_stream b = inputs_stream f \<and>
     prefix (inputs_entries b) (entries (inputs_stream f) (bf_broker f))"

lemma sees_entry:
  assumes "facade_inv f" and "sees_dispatcher b f" and "k < length (inputs_entries b)"
  shows "event_try_from (rb_inputs_stream b) (inputs_entries b ! k) = Ok (facade_log f ! k) \<and>
    ev_id (facade_log f ! k) = fst (inputs_entries b ! k) \<and> length (inputs_entries b) \<le> length (facade_log f)"
proof -
  let ?es = "entries (inputs_stream f) (bf_broker f)"
  have pre: "k < length ?es" "?es ! k = inputs_entries b ! k" "length (inputs_entries b) \<le> length ?es"
    using assms(2,3) by (auto simp: sees_dispatcher_def prefix_def nth_append)
  have "try_all (event_try_from (inputs_stream f)) ?es = Ok (facade_log f)"
    using assms(1) by (cases "try_all (event_try_from (inputs_stream f)) ?es")
      (auto simp: facade_inv_def own_stream_def decodes_def facade_log_def stream_log_def)
  from decoded_entry [OF this pre(1)] pre assms(2) show ?thesis
    by (simp add: sees_dispatcher_def)
qed

lemma sees_consumed:
  assumes "facade_inv f" and "sees_dispatcher b f" and "consumed (rb_inputs_stream b) (inputs_entries b) evs"
  shows "evs = map ev_payload (take (length evs) (facade_log f))"
proof (rule nth_equalityI)
  have "length evs \<le> length (facade_log f)"
  proof (cases "evs = []")
    case False
    then have "0 < length (inputs_entries b)" "length evs \<le> length (inputs_entries b)"
      using assms(3) by (cases evs; auto simp: consumed_def)+
    then show ?thesis
      using sees_entry [OF assms(1,2)] by fastforce
  qed simp
  then show "length evs = length (map ev_payload (take (length evs) (facade_log f)))"
    by simp
next
  fix k assume k: "k < length evs"
  then have "k < length (inputs_entries b)" "\<exists>ev. event_try_from (rb_inputs_stream b) (inputs_entries b ! k) = Ok ev \<and> ev_payload ev = evs ! k"
    using assms(3) by (auto simp: consumed_def)
  with sees_entry [OF assms(1,2), of k] k show "evs ! k = map ev_payload (take (length evs) (facade_log f)) ! k"
    by auto
qed

text \<open>The parent of the next event is the last entry that was read.\<close>

lemma sees_parent:
  assumes "facade_inv f" and "sees_dispatcher b f" and "n < length (inputs_entries b)" and "at_position i n (inputs_entries b)"
  shows "parent_id (ev_payload (facade_log f ! n)) = i"
proof -
  have "n < length (facade_log f)"
    using sees_entry [OF assms(1-3)] assms(3) by simp
  then have "parent_id (ev_payload (facade_log f ! n)) = bss_id (status_of (take n (facade_log f)))"
    using assms(1) by (simp add: facade_inv_def inputs_chain_def continues_def)
  also have "\<dots> = (if n = 0 then INITIAL_ID else ev_id (facade_log f ! (n - 1)))"
    using \<open>n < length (facade_log f)\<close> by (auto simp: status_of_def last_conv_nth)
  also have "\<dots> = i"
    using assms(3,4) sees_entry [OF assms(1,2), of "n - 1"] by (auto simp: at_position_def)
  finally show ?thesis .
qed

lemma runner_reads_dispatcher:
  assumes "facade_inv f" and "runner_runs keccak r0 evs r" and "runner_inv 0 (rn_broker r0)"
    and "consume_input (rn_broker r) = Some (out, b)" and "sees_dispatcher b f"
  shows "prefix (map ri_data evs) (facade_sent f) \<and> (\<forall>e g. out \<noteq> Err (ParentIdMismatchError e g))"
proof -
  have inv: "runner_inv (length evs) (rn_broker r)" and same: "same_streams (rn_broker r0) (rn_broker r)"
    and cons: "consumed (rb_inputs_stream (rn_broker r0)) (inputs_entries (rn_broker r)) evs"
    using runner_runs_inv [OF assms(2,3)] by blast+
  have next': "same_streams (rn_broker r) b"
    using inv assms(4) by (cases rule: consume_input_cases) auto
  have "consumed (rb_inputs_stream b) (inputs_entries b) evs"
    using consumed_prefix [OF cons] same next' by (simp add: same_streams_def)
  note evs = sees_consumed [OF assms(1,5) this]
  have "map ri_data evs = take (length evs) (facade_sent f)"
    by (subst evs) (simp add: facade_sent_def log_data_def take_map)
  moreover have "out \<noteq> Err (ParentIdMismatchError e g)" for e g
  proof
    assume out: "out = Err (ParentIdMismatchError e g)"
    have bad: "length evs < length (inputs_entries b) \<and>
        (\<exists>ev. event_try_from (rb_inputs_stream (rn_broker r)) (inputs_entries b ! length evs) = Ok ev \<and>
           parent_id (ev_payload ev) \<noteq> last_id (rn_broker r))"
      using inv assms(4) out by (cases rule: consume_input_cases) auto
    have "at_position (last_id (rn_broker r)) (length evs) (inputs_entries b)"
      using inv next' at_position_prefix by (auto simp: runner_inv_def same_streams_def)
    with sees_parent [OF assms(1,5)] sees_entry [OF assms(1,5), of "length evs"] bad next' show False
      by (auto simp: same_streams_def)
  qed
  ultimately show ?thesis
    by (simp add: take_is_prefix)
qed


definition sent_input :: RollupsInput where
  "sent_input = \<lparr> parent_id = INITIAL_ID, epoch_index = 0, inputs_sent_count = 1, ri_data = advance_data 0 example_input \<rparr>"

definition sent_finish :: RollupsInput where
  "sent_finish = \<lparr> parent_id = show_nat 1, epoch_index = 0, inputs_sent_count = 1, ri_data = FinishEpoch \<rparr>"

definition filled :: "RollupsInput list \<Rightarrow> mem_server BrokerFacade" where
  "filled ps = \<lparr> bf_broker = mem_broker ((\<lambda>_. [])(''in'' := map (\<lambda>p. [(''payload'', show_nat (to_nat p))]) ps)),
     inputs_stream = numbered_stream ''in'' \<rparr>"

lemmas filled_defs = broker_status_def peek_def with_broker_def peek_latest_def mem_broker_def mem_redis_def
  produce_def numbered_stream_def mem_entries_def event_try_from_def stream_status_from_event_def
  rollup_status_from_def filled_def

lemma filled_enqueue: "facade_enqueue_input 0 example_input (filled []) = (Ok (), filled [sent_input])"
  by (simp add: facade_enqueue_input_def filled_defs build_next_input_def u256_as_u64_def example_input_def
      example_block_def input_sanity_check_def sent_input_def advance_data_def Let_def)

lemma filled_finish: "facade_finish_epoch 1 (filled [sent_input]) = (Ok (), filled [sent_input, sent_finish])"
  by (simp add: facade_finish_epoch_def filled_defs build_next_finish_epoch_def epoch_sanity_check_def
      advance_data_def sent_input_def sent_finish_def Let_def)

lemma filled_status: "facade_status (filled []) = (Ok \<lparr> rs_inputs_sent_count = 0 \<rparr>, filled [])"
  by (simp add: facade_status_def filled_defs)

lemma filled_start: "snd (example_start (filled [])) = filled [sent_input, sent_finish]"
  using filled_status filled_enqueue filled_finish
  by (simp add: example_start_def start_def create_context_def context_new_def example_config_def block_subscription_def
      last_of_chunk_def map_filter_def BUFFER_LEN_def process_block_def react_def process_inputs_def example_state_def
      enqueue_input_def finish_epoch_if_needed_def should_finish_epoch_def calculate_epoch_def finish_epoch_def
      facade_send_def call_broker_def note_input_sent_def inc_finish_epochs_sent_def inc_advance_inputs_sent_def
      example_genesis_def example_input_def example_block_def Let_def)

definition follower :: "(unit, mem_server) Runner" where
  "follower = sample_runner\<lparr>rn_broker := sample_runner_broker\<lparr>rb_inputs_stream := numbered_stream ''in'',
     rb_client := bf_broker (filled [sent_input, sent_finish])\<rparr>\<rparr>"

lemma follower_inv: "runner_inv 0 (rn_broker follower)"
  by (simp add: runner_inv_def follower_def sample_runner_broker_def filled_def owned_def runner_keys_def mem_redis_laws
      numbered_stream_codec decodes_def mem_entries_def inputs_entries_def at_position_initial)

lemma follower_consume:
  "consume_input (rn_broker follower) = Some (Ok sent_input, (rn_broker follower)\<lparr>last_id := show_nat 1\<rparr>)"
proof -
  have "consume_blocking (numbered_stream ''in'' :: RollupsInput BrokerStream) INITIAL_ID (bf_broker (filled [sent_input, sent_finish])) =
      Some (Ok \<lparr> ev_id = show_nat 1, ev_payload = sent_input \<rparr>, bf_broker (filled [sent_input, sent_finish]))"
    by (simp add: filled_def mem_consume after_id_def mem_entries_def event_try_from_def numbered_stream_def)
  then show ?thesis
    by (simp add: consume_input_def follower_def sample_runner_broker_def) (simp add: sent_input_def)
qed

lemma follower_sees: "sees_dispatcher ((rn_broker follower)\<lparr>last_id := show_nat 1\<rparr>) (filled [sent_input, sent_finish])"
  by (simp add: sees_dispatcher_def inputs_entries_def follower_def filled_def sample_runner_broker_def)



section \<open>From the machine to the user\<close>

text \<open>The rows of the output tables after the events \<open>evs\<close>: each comes from an event, and each event left a row with
  its key.\<close>

lemma payloads_out_Cons:
  "payloads_out (e # evs) = (case e of IndexerOutput ev \<Rightarrow> ev_payload ev # payloads_out evs | IndexerInput ev \<Rightarrow> payloads_out evs)"
  by (cases e) simp_all

lemma index_input_outputs [simp]:
  "rw_vouchers (index_input p v) = rw_vouchers v" "rw_notices (index_input p v) = rw_notices v"
  by (simp_all add: index_input_def split: RollupsData.splits)

lemma vouchers_indexed:
  "set (rw_vouchers (fold index_event evs v)) \<subseteq> set (rw_vouchers v) \<union> {convert_voucher x |x. Voucher x \<in> set (payloads_out evs)}"
  "vo_key ` set (rw_vouchers (fold index_event evs v)) =
     vo_key ` set (rw_vouchers v) \<union> {vo_key (convert_voucher x) |x. Voucher x \<in> set (payloads_out evs)}"
proof (induction evs arbitrary: v)
  case (Cons e evs)
  {
    case 1
    show ?case
      using Cons(1) [of "index_event e v"]
      by (cases e) (auto simp: index_output_def status_set_def set_inserted payloads_out_Cons split: RollupsOutput.splits if_splits)
  next
    case 2
    show ?case
      using Cons(2) [of "index_event e v"]
      by (cases e) (auto simp: index_output_def status_set_def set_inserted payloads_out_Cons split: RollupsOutput.splits if_splits)
  }
qed simp_all


lemma notices_indexed:
  "set (rw_notices (fold index_event evs v)) \<subseteq> set (rw_notices v) \<union> {convert_notice x |x. Notice x \<in> set (payloads_out evs)}"
  "no_key ` set (rw_notices (fold index_event evs v)) =
     no_key ` set (rw_notices v) \<union> {no_key (convert_notice x) |x. Notice x \<in> set (payloads_out evs)}"
proof (induction evs arbitrary: v)
  case (Cons e evs)
  {
    case 1
    show ?case
      using Cons(1) [of "index_event e v"]
      by (cases e) (auto simp: index_output_def status_set_def set_inserted payloads_out_Cons split: RollupsOutput.splits if_splits)
  next
    case 2
    show ?case
      using Cons(2) [of "index_event e v"]
      by (cases e) (auto simp: index_output_def status_set_def set_inserted payloads_out_Cons split: RollupsOutput.splits if_splits)
  }
qed simp_all

lemma gql_answers_mono: "\<lbrakk>gql_answers out P; \<And>y. P y \<Longrightarrow> Q y\<rbrakk> \<Longrightarrow> gql_answers out Q"
  by (auto simp: gql_answers_def)

text \<open>C3: what the machine outputs is what the user reads: after the indexer has gone through a voucher or a notice of
  the outputs stream, on a database that had none, the query with its two indices answers with the destination
  and the payload of that output in hexadecimal, or reports a failure of the database, provided the
  outputs stream holds no other output with the same indices in 32 bits.\<close>

theorem outputs_reach_the_user:
  assumes "indexer_runs ix0 evs ix" and "rep_ok (ix_repository ix0)" and "indexer_at 0 0 (reader ix0)"
    and "rw_vouchers (rep_view (ix_repository ix0)) = []" and "rw_notices (rep_view (ix_repository ix0)) = []"
  shows "(\<forall>x. Voucher x \<in> set (payloads_out evs) \<and>
      (\<forall>y. Voucher y \<in> set (payloads_out evs) \<and> vo_key (convert_voucher y) = vo_key (convert_voucher x) \<longrightarrow> y = x) \<longrightarrow>
      gql_answers (fst (query_voucher (ucast (rv_index x)) (ucast (rv_input_index x)) (ix_repository ix)))
        (\<lambda>v. voucher_object hex v = \<lparr> vob_index = ucast (rv_index x), vob_destination = ''0x'' @ hex (rv_destination x),
           vob_payload = ''0x'' @ hex (rv_payload x) \<rparr>)) \<and>
    (\<forall>x. Notice x \<in> set (payloads_out evs) \<and>
      (\<forall>y. Notice y \<in> set (payloads_out evs) \<and> no_key (convert_notice y) = no_key (convert_notice x) \<longrightarrow> y = x) \<longrightarrow>
      gql_answers (fst (query_notice (ucast (rn_index x)) (ucast (rn_input_index x)) (ix_repository ix)))
        (\<lambda>n. notice_object hex n = \<lparr> nob_index = ucast (rn_index x), nob_payload = ''0x'' @ hex (rn_payload x) \<rparr>))"
proof (intro conjI allI impI)
  let ?v = "rep_view (ix_repository ix0)"
  have "indexed ?v [] ix0"
    using assms(2,3) by (simp add: indexed_def taken_def)
  from indexer_runs_indexed [OF assms(1) this] have ok: "rep_ok (ix_repository ix)"
    and view: "rep_view (ix_repository ix) = fold index_event evs ?v"
    by (simp_all add: indexed_def)
  {
    fix x assume x: "Voucher x \<in> set (payloads_out evs) \<and>
      (\<forall>y. Voucher y \<in> set (payloads_out evs) \<and> vo_key (convert_voucher y) = vo_key (convert_voucher x) \<longrightarrow> y = x)"
    let ?k = "vo_key (convert_voucher x)"
    have k: "?k = (ucast (rv_input_index x), ucast (rv_index x))"
      by (simp add: vo_key_def convert_voucher_def)
    have only: "v = convert_voucher x" if "v \<in> set (rw_vouchers (rep_view (ix_repository ix)))" "vo_key v = (ucast (rv_input_index x), ucast (rv_index x))" for v
      using that x k vouchers_indexed(1) [of evs ?v] by (auto simp: view assms(4))
    have "?k \<in> vo_key ` set (rw_vouchers (rep_view (ix_repository ix)))"
      using x vouchers_indexed(2) [of evs ?v] by (auto simp: view)
    from resolved_answers [OF get_answers(2) [OF ok this [unfolded k]]]
    show "gql_answers (fst (query_voucher (ucast (rv_index x)) (ucast (rv_input_index x)) (ix_repository ix)))
        (\<lambda>v. voucher_object hex v = \<lparr> vob_index = ucast (rv_index x), vob_destination = ''0x'' @ hex (rv_destination x),
           vob_payload = ''0x'' @ hex (rv_payload x) \<rparr>)"
      unfolding query_voucher_def
      by (rule gql_answers_mono) (auto simp: voucher_object_def convert_voucher_def gql_hex_encode_def dest!: only)
  next
    fix x assume x: "Notice x \<in> set (payloads_out evs) \<and>
      (\<forall>y. Notice y \<in> set (payloads_out evs) \<and> no_key (convert_notice y) = no_key (convert_notice x) \<longrightarrow> y = x)"
    let ?k = "no_key (convert_notice x)"
    have k: "?k = (ucast (rn_input_index x), ucast (rn_index x))"
      by (simp add: no_key_def convert_notice_def)
    have only: "v = convert_notice x" if "v \<in> set (rw_notices (rep_view (ix_repository ix)))" "no_key v = (ucast (rn_input_index x), ucast (rn_index x))" for v
      using that x k notices_indexed(1) [of evs ?v] by (auto simp: view assms(5))
    have "?k \<in> no_key ` set (rw_notices (rep_view (ix_repository ix)))"
      using x notices_indexed(2) [of evs ?v] by (auto simp: view)
    from resolved_answers [OF get_answers(3) [OF ok this [unfolded k]]]
    show "gql_answers (fst (query_notice (ucast (rn_index x)) (ucast (rn_input_index x)) (ix_repository ix)))
        (\<lambda>n. notice_object hex n = \<lparr> nob_index = ucast (rn_index x), nob_payload = ''0x'' @ hex (rn_payload x) \<rparr>)"
      unfolding query_notice_def
      by (rule gql_answers_mono) (auto simp: notice_object_def convert_notice_def gql_hex_encode_def dest!: only)
  }
qed


definition served_voucher :: RollupsVoucher where
  "served_voucher = \<lparr> rv_index = 0, rv_input_index = 0, rv_destination = [1], rv_payload = [2, 3] \<rparr>"

definition serving_ix :: "Rows \<Rightarrow> string \<Rightarrow> (Rows, mem_server) Indexer" where
  "serving_ix v j = \<lparr> ix_repository = mem_repository v,
     ix_broker = mem_broker ((\<lambda>_. [])(''out'' := [[(''payload'', show_nat (to_nat (Voucher served_voucher)))]])),
     ix_state = (indexer_state_new (numbered_stream ''in'') (numbered_stream ''out''))\<lparr>outputs_last_id := j\<rparr> \<rparr>"

definition serving_event :: IndexerEvent where
  "serving_event = IndexerOutput \<lparr> ev_id = show_nat 1, ev_payload = Voucher served_voucher \<rparr>"

definition serving_rows :: Rows where
  "serving_rows = no_rows\<lparr>rw_inputs := [sample_input_row]\<rparr>"

lemma serving_consume:
  "consume_event (reader (serving_ix v INITIAL_ID)) = Some (Ok serving_event, reader (serving_ix v (show_nat 1)))"
  by (simp add: consume_event.simps indexer_consume_def serving_ix_def indexer_state_new_def mem_broker_def mem_redis_def mem_entries_def
      after_id_def pop_stream_id_def event_try_from_def numbered_stream_def serving_event_def Let_def)

lemma serving_store:
  "store_event serving_event (mem_repository serving_rows) = (Ok (), mem_repository (serving_rows\<lparr>rw_vouchers := [convert_voucher served_voucher]\<rparr>))"
  by (simp add: serving_event_def store_event_def store_output_def insert_voucher_def insert_row_def conn_def run_db_def
      mem_repository_def mem_db_def mem_table_def has_input_def serving_rows_def sample_input_row_def served_voucher_def
      convert_voucher_def inserted_def no_rows_def)

lemma serving_run:
  "indexer_runs (serving_ix serving_rows INITIAL_ID) [serving_event]
     (serving_ix (serving_rows\<lparr>rw_vouchers := [convert_voucher served_voucher]\<rparr>) (show_nat 1))"
proof -
  have "indexer_runs (serving_ix serving_rows INITIAL_ID) ([] @ [serving_event])
     ((serving_ix serving_rows INITIAL_ID)\<lparr>ix_broker := ix_broker (serving_ix serving_rows (show_nat 1)),
        ix_state := ix_state (serving_ix serving_rows (show_nat 1)),
        ix_repository := mem_repository (serving_rows\<lparr>rw_vouchers := [convert_voucher served_voucher]\<rparr>)\<rparr>)"
    by (rule indexer_runs.more [OF indexer_runs.none serving_consume]) (simp add: serving_ix_def serving_store)
  then show ?thesis
    by (simp add: serving_ix_def)
qed

theorem outputs_reach_the_user_witness:
  "gql_answers (fst (query_voucher 0 0 (mem_repository (serving_rows\<lparr>rw_vouchers := [convert_voucher served_voucher]\<rparr>))))
     (\<lambda>v. voucher_object (map (\<lambda>b. CHR ''a'')) v = \<lparr> vob_index = 0, vob_destination = ''0xa'', vob_payload = ''0xaa'' \<rparr>)"
proof -
  have ok: "rep_ok (mem_repository serving_rows)"
    by (simp add: mem_rep_ok rows_keyed_def keyed_def serving_rows_def no_rows_def)
  have at: "indexer_at 0 0 (reader (serving_ix serving_rows INITIAL_ID))"
    by (simp add: indexer_at_def serving_ix_def indexer_state_new_def stream_reader_def at_position_initial mem_redis_laws)
  show ?thesis
    using outputs_reach_the_user [OF serving_run _ at, of "map (\<lambda>b. CHR ''a'')"] ok
    by (simp add: serving_ix_def serving_event_def serving_rows_def no_rows_def) (simp add: served_voucher_def)
qed

end
